(* ===== verification/Prelude.thy ===== *)
theory Prelude
  imports Main "HOL-Library.Word"
begin

text \<open>
  Shared vocabulary of the development.

  \<^item> fixed-width integers of \<^verbatim>\<open>rpcs3/util/types.hpp\<close> as words, the
    guest address space as a total byte memory, big-endian cells
    (\<^verbatim>\<open>be_t\<close>), \<^verbatim>\<open>vm::ptr\<close> alignment, \<^verbatim>\<open>memcpy\<close> and
    \<^verbatim>\<open>memset\<close>;
  \<^item> the locale \<open>vm_cell\<close>: what a typed object in guest memory promises
    (read after write, locality of reads and writes), with closure under pairing and
    renaming so that each C struct is an interpretation;
  \<^item> \<^verbatim>\<open>atomic_t::atomic_op\<close> and its compare-exchange retry loop;
  \<^item> the spin loops \<^verbatim>\<open>while (!op) if (ppu.test_stopped()) return 0;\<close>;
  \<^item> the locales \<open>invariant_system\<close> and \<open>forward_simulation\<close> that the
    concurrent components interpret.
\<close>

unbundle bit_operations_syntax

named_theorems vm_simps \<open>rewriting of loads, stores and address spans\<close>
named_theorems code_simps \<open>numeric values of error codes and flags\<close>

section \<open>Machine integers and guest memory\<close>

type_synonym u8 = "8 word"
type_synonym u16 = "16 word"
type_synonym u32 = "32 word"
type_synonym u64 = "64 word"
type_synonym addr = "32 word"
type_synonym vmem = "addr \<Rightarrow> u8"

text \<open>Return values of the HLE functions: \<^verbatim>\<open>error_code\<close> wraps an \<^verbatim>\<open>s32\<close>.\<close>

type_synonym error_code = "32 word"

definition CELL_OK :: error_code where
  [code_simps]: "CELL_OK = 0"

text \<open>\<^verbatim>\<open>vm::_ptr_base::aligned\<close>.\<close>

definition vm_aligned :: "addr \<Rightarrow> u32 \<Rightarrow> bool" where
  "vm_aligned a align \<longleftrightarrow> (a AND (align - 1)) = 0"

text \<open>
  \<^verbatim>\<open>vm::cast\<close> of a 64-bit pointer: \<^verbatim>\<open>narrow<u32>\<close> throws (\<open>None\<close>) on a
  value that does not fit.
\<close>

definition vm_cast :: "u64 \<Rightarrow> addr option" where
  "vm_cast p = (if p \<le> 0xFFFFFFFF then Some (ucast p) else None)"

text \<open>The addresses of an object of \<open>n\<close> bytes at \<open>a\<close>, modulo \<open>2 ^ 32\<close>.\<close>

definition span :: "addr \<Rightarrow> nat \<Rightarrow> addr set" where
  "span a n = {x. unat (x - a) < n}"

definition ld_u8 :: "vmem \<Rightarrow> addr \<Rightarrow> u8" where
  "ld_u8 m a = m a"

definition st_u8 :: "vmem \<Rightarrow> addr \<Rightarrow> u8 \<Rightarrow> vmem" where
  "st_u8 m a v = m(a := v)"

definition ld_be16 :: "vmem \<Rightarrow> addr \<Rightarrow> u16" where
  "ld_be16 m a = word_cat (ld_u8 m a) (ld_u8 m (a + 1))"

definition st_be16 :: "vmem \<Rightarrow> addr \<Rightarrow> u16 \<Rightarrow> vmem" where
  "st_be16 m a v = (case word_split v of (h, l) \<Rightarrow> st_u8 (st_u8 m a h) (a + 1) l)"

definition ld_be32 :: "vmem \<Rightarrow> addr \<Rightarrow> u32" where
  "ld_be32 m a = word_cat (ld_be16 m a) (ld_be16 m (a + 2))"

definition st_be32 :: "vmem \<Rightarrow> addr \<Rightarrow> u32 \<Rightarrow> vmem" where
  "st_be32 m a v = (case word_split v of (h, l) \<Rightarrow> st_be16 (st_be16 m a h) (a + 2) l)"

definition ld_be64 :: "vmem \<Rightarrow> addr \<Rightarrow> u64" where
  "ld_be64 m a = word_cat (ld_be32 m a) (ld_be32 m (a + 4))"

definition st_be64 :: "vmem \<Rightarrow> addr \<Rightarrow> u64 \<Rightarrow> vmem" where
  "st_be64 m a v = (case word_split v of (h, l) \<Rightarrow> st_be32 (st_be32 m a h) (a + 4) l)"

text \<open>\<^verbatim>\<open>std::memcpy\<close> between guest buffers and \<^verbatim>\<open>std::memset\<close>.\<close>

definition vm_memcpy :: "vmem \<Rightarrow> addr \<Rightarrow> addr \<Rightarrow> nat \<Rightarrow> vmem" where
  "vm_memcpy m dst src n = (\<lambda>x. if unat (x - dst) < n then m (src + (x - dst)) else m x)"

definition vm_memset :: "vmem \<Rightarrow> addr \<Rightarrow> u8 \<Rightarrow> nat \<Rightarrow> vmem" where
  "vm_memset m dst v n = (\<lambda>x. if unat (x - dst) < n then v else m x)"

definition vm_bytes :: "vmem \<Rightarrow> addr \<Rightarrow> nat \<Rightarrow> u8 list" where
  "vm_bytes m a n = map (\<lambda>i. m (a + of_nat i)) [0..<n]"

section \<open>Atomic operations\<close>

text \<open>
  \<open>atomic_op f\<close> applies \<open>f\<close> to the cell and stores what it leaves there in one
  indivisible step; \<open>atomic_op_retry\<close> is the loop that implements it, with what the
  other host threads do to the cell before each compare-exchange as its last argument.
\<close>

definition atomic_op ::
  "(vmem \<Rightarrow> addr \<Rightarrow> 'v) \<Rightarrow> (vmem \<Rightarrow> addr \<Rightarrow> 'v \<Rightarrow> vmem) \<Rightarrow> ('v \<Rightarrow> 'r \<times> 'v) \<Rightarrow> addr \<Rightarrow> vmem \<Rightarrow> 'r \<times> vmem"
where
  "atomic_op ld st f a m = (case f (ld m a) of (r, v) \<Rightarrow> (r, st m a v))"

fun atomic_op_retry :: "('v \<Rightarrow> 'r \<times> 'v) \<Rightarrow> 'v \<Rightarrow> 'v \<Rightarrow> ('v \<Rightarrow> 'v) list \<Rightarrow> 'r \<times> 'v" where
  "atomic_op_retry f old cell [] =
     (if cell = old then f old else f cell)"
| "atomic_op_retry f old cell (e # es) =
     (let cell' = e cell in
      if cell' = old then f old else atomic_op_retry f cell' cell' es)"

section \<open>Spin loops\<close>

datatype ('r, 'm) spin = Acquired 'r 'm | Stopped 'm | Spinning 'm

text \<open>
  Each entry of the list is one failed attempt: what \<^verbatim>\<open>ppu.test_stopped()\<close>
  answers after it, and what the other threads do to memory before the next one. When the
  list is used up the loop is still spinning.
\<close>

fun spin_until ::
  "('m \<Rightarrow> 'r option \<times> 'm) \<Rightarrow> (bool \<times> ('m \<Rightarrow> 'm)) list \<Rightarrow> 'm \<Rightarrow> ('r, 'm) spin"
where
  "spin_until f [] m =
     (case f m of (Some r, m') \<Rightarrow> Acquired r m' | (None, m') \<Rightarrow> Spinning m')"
| "spin_until f ((stopped, e) # es) m =
     (case f m of
        (Some r, m') \<Rightarrow> Acquired r m'
      | (None, m') \<Rightarrow> (if stopped then Stopped m' else spin_until f es (e m')))"

text \<open>What an HLE call ends with: a return code, a C++ exception, or still blocked.\<close>

datatype api = Ret error_code vmem | Throw vmem | Blocked vmem

type_synonym env = "(bool \<times> (vmem \<Rightarrow> vmem)) list"

definition spin_then :: "('r, vmem) spin \<Rightarrow> ('r \<Rightarrow> vmem \<Rightarrow> api) \<Rightarrow> api" where
  "spin_then s k =
     (case s of Acquired r m \<Rightarrow> k r m | Stopped m \<Rightarrow> Ret 0 m | Spinning m \<Rightarrow> Blocked m)"

section \<open>Words as numbers\<close>

lemma unat_bound: "unat (w :: 'a::len word) < 2 ^ LENGTH('a)"
  by (rule unsigned_less)

lemma unat_u16 [simp]: "unat (w :: u16) < 65536"
  using unat_bound [of w] by simp

lemma unat_u32 [simp]: "unat (w :: u32) < 4294967296"
  using unat_bound [of w] by simp

lemma unat_add_small:
  "unat (x :: 'a::len word) + unat y < 2 ^ LENGTH('a) \<Longrightarrow> unat (x + y) = unat x + unat y"
  by (rule unat_add_lem [THEN iffD1])

lemma vm_cast_ucast [simp]: "vm_cast (ucast (p :: addr)) = Some p"
proof -
  have "(ucast p :: u64) \<le> 0xFFFFFFFF"
  proof -
    have "unat p \<le> 0xFFFFFFFF" using unat_u32 [of p] by linarith
    then have "take_bit 64 (unat p) \<le> 0xFFFFFFFF"
      using take_bit_nat_less_eq_self [of 64 "unat p"] by linarith
    then show ?thesis by (simp add: word_le_nat_alt unsigned_ucast_eq)
  qed
  moreover have "ucast (ucast p :: u64) = p" by (simp add: ucast_up_ucast_id is_up)
  ultimately show ?thesis by (simp add: vm_cast_def)
qed

section \<open>Lemmas on spans\<close>

lemma unat_offset [vm_simps]: "unat (a + x - a) = unat (x :: 'a::len word)"
  by simp

lemma span_iff: "x \<in> span a n \<longleftrightarrow> unat (x - a) < n"
  by (simp add: span_def)

lemma span_offset [vm_simps]: "a + x \<in> span a n \<longleftrightarrow> unat x < n"
  by (simp add: span_def)

lemma span_self [vm_simps]: "a \<in> span a n \<longleftrightarrow> 0 < n"
  by (simp add: span_def)

lemma span_mono: "n \<le> k \<Longrightarrow> span a n \<subseteq> span a k"
  by (auto simp: span_def)

lemma span_shift:
  assumes "unat d + n \<le> k"
  shows "span (a + d) n \<subseteq> span a k"
proof
  fix x assume "x \<in> span (a + d) n"
  then have x: "unat (x - (a + d)) < n" by (simp add: span_def)
  have "x - a = (x - (a + d)) + d" by simp
  then have "unat (x - a) \<le> unat (x - (a + d)) + unat d"
    by (metis unat_plus_if_size le_add_diff_inverse2 diff_le_self nat_le_linear order_refl)
  with x assms show "x \<in> span a k" by (simp add: span_def)
qed

lemma span_disjoint_offsets:
  assumes "unat d + n \<le> unat e" and "unat e + k \<le> 2 ^ 32"
  shows "span (a + d) n \<inter> span (a + e) k = {}"
proof -
  have False if x: "unat (x - (a + d)) < n" and y: "unat (x - (a + e)) < k" for x
  proof -
    define p q where "p = x - (a + d)" and "q = x - (a + e)"
    have eq: "p + d = q + e" by (simp add: p_def q_def)
    have "unat (p + d) = unat p + unat d"
      using x assms y by (subst unat_add_lem [THEN iffD1]) (auto simp: p_def)
    moreover have "unat (q + e) = unat q + unat e"
      using y assms by (subst unat_add_lem [THEN iffD1]) (auto simp: q_def)
    ultimately show False using x y assms eq by (simp add: p_def q_def)
  qed
  then show ?thesis by (auto simp: span_def)
qed

section \<open>Typed cells in guest memory\<close>

text \<open>
  A cell type is read with \<open>ld\<close> and written with \<open>st\<close>. Reading depends only on the
  \<open>sz\<close> bytes at the address, writing changes only those.
\<close>

locale vm_cell =
  fixes ld :: "vmem \<Rightarrow> addr \<Rightarrow> 'v"
    and st :: "vmem \<Rightarrow> addr \<Rightarrow> 'v \<Rightarrow> vmem"
    and sz :: nat
  assumes ld_st: "ld (st m a v) a = v"
    and st_ld: "st m a (ld m a) = m"
    and st_outside: "x \<notin> span a sz \<Longrightarrow> st m a v x = m x"
    and ld_cong: "(\<And>x. x \<in> span a sz \<Longrightarrow> m x = m' x) \<Longrightarrow> ld m a = ld m' a"
    and st_inside: "x \<in> span a sz \<Longrightarrow> st m a v x = st m' a v x"
begin

lemma st_st: "st (st m a u) a v = st m a v"
proof
  fix x show "st (st m a u) a v x = st m a v x"
    by (cases "x \<in> span a sz") (simp_all add: st_outside st_inside [of x a "st m a u" v m])
qed

lemma ld_unchanged:
  assumes "\<And>x. x \<notin> B \<Longrightarrow> m' x = m x" and "span a sz \<inter> B = {}"
  shows "ld m' a = ld m a"
  using assms by (intro ld_cong) blast

lemma st_frame: "span b n \<inter> span a sz = {} \<Longrightarrow> x \<in> span b n \<Longrightarrow> st m a v x = m x"
  by (rule st_outside) blast

lemma ld_st_disjoint: "span a sz \<inter> span b sz = {} \<Longrightarrow> ld (st m b v) a = ld m a"
  by (intro ld_unchanged [where B = "span b sz"]) (auto intro: st_outside)

lemma atomic_op_ld [simp]: "ld (snd (atomic_op ld st f a m)) a = snd (f (ld m a))"
  by (simp add: atomic_op_def ld_st split: prod.split)

lemma atomic_op_fst: "fst (atomic_op ld st f a m) = fst (f (ld m a))"
  by (simp add: atomic_op_def split: prod.split)

lemma atomic_op_unchanged: "snd (f (ld m a)) = ld m a \<Longrightarrow> snd (atomic_op ld st f a m) = m"
  by (cases "f (ld m a)") (simp add: atomic_op_def st_ld)

lemma atomic_op_outside: "x \<notin> span a sz \<Longrightarrow> snd (atomic_op ld st f a m) x = m x"
  by (simp add: atomic_op_def st_outside split: prod.split)

end


subsection \<open>Closure: pairs and renaming\<close>

lemma span_append:
  assumes "unat d = n" and "n + k \<le> 2 ^ 32"
  shows "span a (n + k) = span a n \<union> span (a + d) k"
proof -
  have "x \<in> span (a + d) k" if "\<not> unat (x - a) < n" "unat (x - a) < n + k" for x
  proof -
    have "unat (x - a - d) = unat (x - a) - unat d"
      using that assms(1) by (subst unat_sub) (auto simp: word_le_nat_alt)
    then show ?thesis using that assms(1) by (auto simp: span_def algebra_simps)
  qed
  moreover have "span a n \<subseteq> span a (n + k)" by (rule span_mono) simp
  moreover have "span (a + d) k \<subseteq> span a (n + k)" by (rule span_shift) (simp add: assms)
  ultimately show ?thesis by (meson UnCI UnE span_iff subsetD subsetI subset_antisym)
qed

lemma vm_cell_pair:
  assumes c1: "vm_cell ld1 st1 n1" and c2: "vm_cell ld2 st2 n2"
    and d: "unat d = n1" and sz: "n1 + n2 \<le> 2 ^ 32"
  shows "vm_cell (\<lambda>m a. (ld1 m a, ld2 m (a + d)))
           (\<lambda>m a v. st2 (st1 m a (fst v)) (a + d) (snd v)) (n1 + n2)"
proof -
  have disj: "span a n1 \<inter> span (a + d) n2 = {}" for a
    using span_disjoint_offsets [of 0 n1 d n2 a] d sz by simp
  have app: "span a (n1 + n2) = span a n1 \<union> span (a + d) n2" for a
    by (rule span_append [OF d sz])
  have ld1_st2: "ld1 (st2 m (a + d) v) a = ld1 m a" for m a v
    by (rule vm_cell.ld_unchanged [OF c1 _ disj]) (rule vm_cell.st_outside [OF c2])
  show ?thesis
  proof
    fix m a and v :: "'a \<times> 'b"
    show "(ld1 (st2 (st1 m a (fst v)) (a + d) (snd v)) a,
           ld2 (st2 (st1 m a (fst v)) (a + d) (snd v)) (a + d)) = v"
      by (simp add: ld1_st2 vm_cell.ld_st [OF c1] vm_cell.ld_st [OF c2])
  next
    fix m a
    show "st2 (st1 m a (fst (ld1 m a, ld2 m (a + d)))) (a + d) (snd (ld1 m a, ld2 m (a + d))) = m"
      by (simp add: vm_cell.st_ld [OF c1] vm_cell.st_ld [OF c2])
  next
    fix x a m and v :: "'a \<times> 'b"
    assume "x \<notin> span a (n1 + n2)"
    then show "st2 (st1 m a (fst v)) (a + d) (snd v) x = m x"
      by (simp add: app vm_cell.st_outside [OF c1] vm_cell.st_outside [OF c2])
  next
    fix a and m m' :: vmem
    assume "\<And>x. x \<in> span a (n1 + n2) \<Longrightarrow> m x = m' x"
    then show "(ld1 m a, ld2 m (a + d)) = (ld1 m' a, ld2 m' (a + d))"
      by (auto simp: app intro!: vm_cell.ld_cong [OF c1] vm_cell.ld_cong [OF c2])
  next
    fix x a m m' and v :: "'a \<times> 'b"
    assume x: "x \<in> span a (n1 + n2)"
    show "st2 (st1 m a (fst v)) (a + d) (snd v) x = st2 (st1 m' a (fst v)) (a + d) (snd v) x"
    proof (cases "x \<in> span (a + d) n2")
      case True
      then show ?thesis by (rule vm_cell.st_inside [OF c2])
    next
      case False
      with x have "x \<in> span a n1" by (simp add: app)
      then have "st1 m a (fst v) x = st1 m' a (fst v) x" by (rule vm_cell.st_inside [OF c1])
      with False show ?thesis by (simp add: vm_cell.st_outside [OF c2])
    qed
  qed
qed

lemma vm_cell_rename:
  assumes c: "vm_cell ld st n" and fg: "\<And>x. f (g x) = x" and gf: "\<And>y. g (f y) = y"
  shows "vm_cell (\<lambda>m a. f (ld m a)) (\<lambda>m a v. st m a (g v)) n"
proof
  fix a and m m' :: vmem
  assume "\<And>x. x \<in> span a n \<Longrightarrow> m x = m' x"
  then have "ld m a = ld m' a" by (rule vm_cell.ld_cong [OF c])
  then show "f (ld m a) = f (ld m' a)" by simp
qed (simp_all add: fg gf vm_cell.ld_st [OF c] vm_cell.st_ld [OF c] vm_cell.st_outside [OF c]
      vm_cell.st_inside [OF c])

lemma word_split_cat:
  assumes "LENGTH('c::len) = LENGTH('a::len) + LENGTH('b::len)"
  shows "word_split (word_cat (h :: 'a word) (l :: 'b word) :: 'c word) = (h, l)"
  using assms by (simp add: word_split_cat_alt word_size)

lemma word_cat_split:
  assumes "LENGTH('c::len) = LENGTH('a::len) + LENGTH('b::len)"
  shows "(case word_split (w :: 'c word) of (h :: 'a word, l :: 'b word) \<Rightarrow> word_cat h l) = w"
  using assms by (cases "word_split w :: 'a word \<times> 'b word") (simp add: word_cat_split_alt word_size)

interpretation cell_u8: vm_cell ld_u8 st_u8 1
  by unfold_locales (auto simp: ld_u8_def st_u8_def span_def unat_eq_0)

interpretation cell_be16: vm_cell ld_be16 st_be16 2
  using vm_cell_rename [OF vm_cell_pair [OF cell_u8.vm_cell_axioms cell_u8.vm_cell_axioms, of 1],
      where f = "\<lambda>p. word_cat (fst p) (snd p) :: u16" and g = word_split]
    word_split_cat [where 'a = 8 and 'b = 8 and 'c = 16]
    word_cat_split [where 'a = 8 and 'b = 8 and 'c = 16]
  by (simp add: ld_be16_def [abs_def] st_be16_def [abs_def] split_beta flip: numeral_2_eq_2)

interpretation cell_be32: vm_cell ld_be32 st_be32 4
  using vm_cell_rename [OF vm_cell_pair [OF cell_be16.vm_cell_axioms cell_be16.vm_cell_axioms, of 2],
      where f = "\<lambda>p. word_cat (fst p) (snd p) :: u32" and g = word_split]
    word_split_cat [where 'a = 16 and 'b = 16 and 'c = 32]
    word_cat_split [where 'a = 16 and 'b = 16 and 'c = 32]
  by (simp add: ld_be32_def [abs_def] st_be32_def [abs_def] split_beta)

interpretation cell_be64: vm_cell ld_be64 st_be64 8
  using vm_cell_rename [OF vm_cell_pair [OF cell_be32.vm_cell_axioms cell_be32.vm_cell_axioms, of 4],
      where f = "\<lambda>p. word_cat (fst p) (snd p) :: u64" and g = word_split]
    word_split_cat [where 'a = 32 and 'b = 32 and 'c = 64]
    word_cat_split [where 'a = 32 and 'b = 32 and 'c = 64]
  by (simp add: ld_be64_def [abs_def] st_be64_def [abs_def] split_beta)


section \<open>Bulk copies\<close>

lemma vm_memcpy_outside [vm_simps]: "x \<notin> span dst n \<Longrightarrow> vm_memcpy m dst src n x = m x"
  by (simp add: vm_memcpy_def span_def)

lemma vm_memset_outside [vm_simps]: "x \<notin> span dst n \<Longrightarrow> vm_memset m dst v n x = m x"
  by (simp add: vm_memset_def span_def)

lemma vm_memcpy_offset:
  "i < n \<Longrightarrow> n \<le> 2 ^ 32 \<Longrightarrow> vm_memcpy m dst src n (dst + of_nat i) = m (src + of_nat i)"
  by (simp add: vm_memcpy_def unat_of_nat)

lemma length_vm_bytes [simp]: "length (vm_bytes m a n) = n"
  by (simp add: vm_bytes_def)

lemma vm_bytes_memcpy:
  "n \<le> 2 ^ 32 \<Longrightarrow> vm_bytes (vm_memcpy m dst src n) dst n = vm_bytes m src n"
  by (simp add: vm_bytes_def vm_memcpy_offset)

lemma vm_bytes_cong: "(\<And>x. x \<in> span a n \<Longrightarrow> m x = m' x) \<Longrightarrow> vm_bytes m a n = vm_bytes m' a n"
  by (auto simp: vm_bytes_def span_def unat_of_nat intro!: map_cong)

lemma vm_bytes_memcpy_other:
  assumes "span a k \<inter> span dst n = {}"
  shows "vm_bytes (vm_memcpy m dst src n) a k = vm_bytes m a k"
  using assms by (intro vm_bytes_cong vm_memcpy_outside) blast

section \<open>Linearisation of the retry loop\<close>

text \<open>
  Whatever the other threads do, the retry loop returns what \<open>f\<close> computes from one value
  the cell really had, and leaves \<open>f\<close>'s result in it: the call is one atomic step.
\<close>

fun cell_history :: "'v \<Rightarrow> ('v \<Rightarrow> 'v) list \<Rightarrow> 'v list" where
  "cell_history c [] = [c]"
| "cell_history c (e # es) = c # cell_history (e c) es"

lemma cell_history_self [simp]: "c \<in> set (cell_history c es)"
  by (cases es) simp_all

lemma atomic_op_retry_linear:
  "\<exists>x \<in> set (cell_history cell es). atomic_op_retry f old cell es = f x"
proof (induction es arbitrary: old cell)
  case Nil
  then show ?case by simp
next
  case (Cons e es)
  show ?case
  proof (cases "e cell = old")
    case True
    have "e cell \<in> set (cell_history (e cell) es)" by simp
    with True show ?thesis by (auto simp: Let_def)
  next
    case False
    from Cons.IH [of "e cell" "e cell"]
    show ?thesis using False by (auto simp: Let_def)
  qed
qed

section \<open>Spin loops\<close>

lemma spin_until_unblocked:
  assumes "f m = (Some r, m')"
  shows "spin_until f es m = Acquired r m'"
  using assms by (cases es) (auto split: prod.split)

text \<open>
  A waiting thread returns as soon as the other threads make its condition true: if after
  \<open>k\<close> failed attempts the memory enables it, the loop acquires.
\<close>

fun spin_memory :: "('m \<Rightarrow> 'r option \<times> 'm) \<Rightarrow> (bool \<times> ('m \<Rightarrow> 'm)) list \<Rightarrow> 'm \<Rightarrow> 'm" where
  "spin_memory f [] m = m"
| "spin_memory f ((_, e) # es) m = spin_memory f es (e (snd (f m)))"

lemma spin_until_acquires:
  assumes "\<And>s e. (s, e) \<in> set es \<Longrightarrow> \<not> s" and "f (spin_memory f es m) = (Some r, m')"
  shows "\<exists>r m'. spin_until f (es @ es') m = Acquired r m'"
  using assms
proof (induction es arbitrary: m)
  case Nil
  then show ?case by (auto simp: spin_until_unblocked)
next
  case (Cons x es)
  obtain e where x: "x = (False, e)" using Cons.prems(1) by (cases x) auto
  show ?case
  proof (cases "f m")
    case (Pair a b)
    then show ?thesis
      using Cons.IH [of "e b"] Cons.prems x by (cases a) auto
  qed
qed

lemma spin_until_invariant:
  assumes "P m" and "\<And>m. P m \<Longrightarrow> P (snd (f m))" and "\<And>s e m. (s, e) \<in> set es \<Longrightarrow> P m \<Longrightarrow> P (e m)"
  shows "case spin_until f es m of Acquired r m' \<Rightarrow> P m' | Stopped m' \<Rightarrow> P m' | Spinning m' \<Rightarrow> P m'"
  using assms(1,3)
proof (induction es arbitrary: m)
  case Nil
  with assms(2) [of m] show ?case by (auto split: prod.split option.split)
next
  case (Cons x es)
  obtain s e where x: "x = (s, e)" by (cases x)
  have "P (e (snd (f m)))"
    using Cons.prems(2) [of s e "snd (f m)"] Cons.prems(1) assms(2) [of m] x by auto
  then have "case spin_until f es (e (snd (f m))) of
      Acquired r m' \<Rightarrow> P m' | Stopped m' \<Rightarrow> P m' | Spinning m' \<Rightarrow> P m'"
    by (rule Cons.IH) (use Cons.prems(2) in auto)
  with Cons.prems(1) assms(2) [of m] x show ?case
    by (auto split: prod.split option.split)
qed

section \<open>Transition systems\<close>

locale invariant_system =
  fixes init :: "'s \<Rightarrow> bool" and step :: "'s \<Rightarrow> 's \<Rightarrow> bool" and inv :: "'s \<Rightarrow> bool"
  assumes init_inv: "init s \<Longrightarrow> inv s"
    and step_inv: "inv s \<Longrightarrow> step s t \<Longrightarrow> inv t"
begin

lemma run_inv: "step\<^sup>*\<^sup>* s t \<Longrightarrow> inv s \<Longrightarrow> inv t"
  by (induction rule: rtranclp_induct) (auto intro: step_inv)

lemma reachable_inv: "init s \<Longrightarrow> step\<^sup>*\<^sup>* s t \<Longrightarrow> inv t"
  by (auto intro: run_inv init_inv)

end

text \<open>
  A forward simulation: related states stay related, the abstract side making zero or more
  steps for each concrete one.
\<close>

locale forward_simulation =
  fixes R :: "'c \<Rightarrow> 'a \<Rightarrow> bool" and cstep :: "'c \<Rightarrow> 'c \<Rightarrow> bool" and astep :: "'a \<Rightarrow> 'a \<Rightarrow> bool"
  assumes sim_step: "R c a \<Longrightarrow> cstep c c' \<Longrightarrow> \<exists>a'. astep\<^sup>*\<^sup>* a a' \<and> R c' a'"
begin

lemma sim_run: "cstep\<^sup>*\<^sup>* c c' \<Longrightarrow> R c a \<Longrightarrow> \<exists>a'. astep\<^sup>*\<^sup>* a a' \<and> R c' a'"
proof (induction rule: rtranclp_induct)
  case base
  then show ?case by blast
next
  case (step d e)
  then obtain b where "astep\<^sup>*\<^sup>* a b" "R d b" by blast
  with sim_step [of d b e] step.hyps(2) show ?case by (meson rtranclp_trans)
qed

end

end
