(* ===== verification/Sync_Base.thy ===== *)
theory Sync_Base
  imports Prelude
begin

text \<open>
  \<^verbatim>\<open>rpcs3/Emu/Cell/Modules/cellSync.h\<close>: the error enumeration of the cellSync
  library and its printed names (\<^verbatim>\<open>fmt_class_string<CellSyncError>\<close>).
\<close>

datatype CellSyncError =
    CELL_SYNC_ERROR_AGAIN | CELL_SYNC_ERROR_INVAL | CELL_SYNC_ERROR_NOSYS
  | CELL_SYNC_ERROR_NOMEM | CELL_SYNC_ERROR_SRCH | CELL_SYNC_ERROR_NOENT
  | CELL_SYNC_ERROR_NOEXEC | CELL_SYNC_ERROR_DEADLK | CELL_SYNC_ERROR_PERM
  | CELL_SYNC_ERROR_BUSY | CELL_SYNC_ERROR_ABORT | CELL_SYNC_ERROR_FAULT
  | CELL_SYNC_ERROR_CHILD | CELL_SYNC_ERROR_STAT | CELL_SYNC_ERROR_ALIGN
  | CELL_SYNC_ERROR_NULL_POINTER | CELL_SYNC_ERROR_NOT_SUPPORTED_THREAD
  | CELL_SYNC_ERROR_NO_NOTIFIER | CELL_SYNC_ERROR_NO_SPU_CONTEXT_STORAGE

primrec sync_err :: "CellSyncError \<Rightarrow> error_code" where
  "sync_err CELL_SYNC_ERROR_AGAIN = 0x80410101"
| "sync_err CELL_SYNC_ERROR_INVAL = 0x80410102"
| "sync_err CELL_SYNC_ERROR_NOSYS = 0x80410103"
| "sync_err CELL_SYNC_ERROR_NOMEM = 0x80410104"
| "sync_err CELL_SYNC_ERROR_SRCH = 0x80410105"
| "sync_err CELL_SYNC_ERROR_NOENT = 0x80410106"
| "sync_err CELL_SYNC_ERROR_NOEXEC = 0x80410107"
| "sync_err CELL_SYNC_ERROR_DEADLK = 0x80410108"
| "sync_err CELL_SYNC_ERROR_PERM = 0x80410109"
| "sync_err CELL_SYNC_ERROR_BUSY = 0x8041010A"
| "sync_err CELL_SYNC_ERROR_ABORT = 0x8041010C"
| "sync_err CELL_SYNC_ERROR_FAULT = 0x8041010D"
| "sync_err CELL_SYNC_ERROR_CHILD = 0x8041010E"
| "sync_err CELL_SYNC_ERROR_STAT = 0x8041010F"
| "sync_err CELL_SYNC_ERROR_ALIGN = 0x80410110"
| "sync_err CELL_SYNC_ERROR_NULL_POINTER = 0x80410111"
| "sync_err CELL_SYNC_ERROR_NOT_SUPPORTED_THREAD = 0x80410112"
| "sync_err CELL_SYNC_ERROR_NO_NOTIFIER = 0x80410113"
| "sync_err CELL_SYNC_ERROR_NO_SPU_CONTEXT_STORAGE = 0x80410114"

definition sync_errors :: "(CellSyncError \<times> string) list" where
  "sync_errors =
    [(CELL_SYNC_ERROR_AGAIN, ''CELL_SYNC_ERROR_AGAIN''),
     (CELL_SYNC_ERROR_INVAL, ''CELL_SYNC_ERROR_INVAL''),
     (CELL_SYNC_ERROR_NOSYS, ''CELL_SYNC_ERROR_NOSYS''),
     (CELL_SYNC_ERROR_NOMEM, ''CELL_SYNC_ERROR_NOMEM''),
     (CELL_SYNC_ERROR_SRCH, ''CELL_SYNC_ERROR_SRCH''),
     (CELL_SYNC_ERROR_NOENT, ''CELL_SYNC_ERROR_NOENT''),
     (CELL_SYNC_ERROR_NOEXEC, ''CELL_SYNC_ERROR_NOEXEC''),
     (CELL_SYNC_ERROR_DEADLK, ''CELL_SYNC_ERROR_DEADLK''),
     (CELL_SYNC_ERROR_PERM, ''CELL_SYNC_ERROR_PERM''),
     (CELL_SYNC_ERROR_BUSY, ''CELL_SYNC_ERROR_BUSY''),
     (CELL_SYNC_ERROR_ABORT, ''CELL_SYNC_ERROR_ABORT''),
     (CELL_SYNC_ERROR_FAULT, ''CELL_SYNC_ERROR_FAULT''),
     (CELL_SYNC_ERROR_CHILD, ''CELL_SYNC_ERROR_CHILD''),
     (CELL_SYNC_ERROR_STAT, ''CELL_SYNC_ERROR_STAT''),
     (CELL_SYNC_ERROR_ALIGN, ''CELL_SYNC_ERROR_ALIGN''),
     (CELL_SYNC_ERROR_NULL_POINTER, ''CELL_SYNC_ERROR_NULL_POINTER''),
     (CELL_SYNC_ERROR_NOT_SUPPORTED_THREAD, ''CELL_SYNC_ERROR_NOT_SUPPORTED_THREAD''),
     (CELL_SYNC_ERROR_NO_NOTIFIER, ''CELL_SYNC_ERROR_NO_NOTIFIER''),
     (CELL_SYNC_ERROR_NO_SPU_CONTEXT_STORAGE, ''CELL_SYNC_ERROR_NO_SPU_CONTEXT_STORAGE'')]"

text \<open>The printed name of an error value; \<open>None\<close> is \<^verbatim>\<open>unknown\<close>.\<close>

definition sync_error_name :: "error_code \<Rightarrow> string option" where
  "sync_error_name c = map_option snd (find (\<lambda>(e, _). sync_err e = c) sync_errors)"

lemma sync_err_nonzero [simp]: "sync_err e \<noteq> 0"
  by (cases e) simp_all

lemma sync_err_inj [simp]: "sync_err e = sync_err f \<longleftrightarrow> e = f"
  by (cases e; cases f) simp_all

end
