(* ===== verification/Sync_Mutex.thy ===== *)
theory Sync_Mutex
  imports Sync_Base
begin

text \<open>
  The ticket mutex \<^verbatim>\<open>CellSyncMutex\<close>: two 16-bit counters packed in one 32-bit
  word of guest memory. \<open>lock_begin\<close> draws a ticket from \<open>acq\<close>, the caller waits
  until \<open>rel\<close> shows it, \<open>unlock\<close> advances \<open>rel\<close>.
\<close>

section \<open>The counter and its operations\<close>

record Counter =
  rel :: u16
  acq :: u16

definition lock_begin :: "Counter \<Rightarrow> u16 \<times> Counter" where
  "lock_begin c = (acq c, c\<lparr>acq := acq c + 1\<rparr>)"

definition try_lock :: "Counter \<Rightarrow> bool \<times> Counter" where
  "try_lock c = (if rel c \<noteq> acq c then (False, c) else (True, c\<lparr>acq := acq c + 1\<rparr>))"

definition unlock :: "Counter \<Rightarrow> unit \<times> Counter" where
  "unlock c = ((), c\<lparr>rel := rel c + 1\<rparr>)"

definition ld_Counter :: "vmem \<Rightarrow> addr \<Rightarrow> Counter" where
  "ld_Counter m a = \<lparr>rel = ld_be16 m a, acq = ld_be16 m (a + 2)\<rparr>"

definition st_Counter :: "vmem \<Rightarrow> addr \<Rightarrow> Counter \<Rightarrow> vmem" where
  "st_Counter m a c = st_be16 (st_be16 m a (rel c)) (a + 2) (acq c)"

section \<open>The library functions\<close>

definition cellSyncMutexInitialize :: "addr \<Rightarrow> vmem \<Rightarrow> api" where
  "cellSyncMutexInitialize mutex m =
     (if mutex = 0 then Ret (sync_err CELL_SYNC_ERROR_NULL_POINTER) m
      else if \<not> vm_aligned mutex 4 then Ret (sync_err CELL_SYNC_ERROR_ALIGN) m
      else Ret CELL_OK (st_Counter m mutex \<lparr>rel = 0, acq = 0\<rparr>))"

definition mutex_observe :: "addr \<Rightarrow> u16 \<Rightarrow> vmem \<Rightarrow> unit option \<times> vmem" where
  "mutex_observe mutex order m =
     (if rel (ld_Counter m mutex) \<noteq> order then (None, m) else (Some (), m))"

definition cellSyncMutexLock :: "env \<Rightarrow> addr \<Rightarrow> vmem \<Rightarrow> api" where
  "cellSyncMutexLock es mutex m =
     (if mutex = 0 then Ret (sync_err CELL_SYNC_ERROR_NULL_POINTER) m
      else if \<not> vm_aligned mutex 4 then Ret (sync_err CELL_SYNC_ERROR_ALIGN) m
      else case atomic_op ld_Counter st_Counter lock_begin mutex m of (order, m1) \<Rightarrow>
        spin_then (spin_until (mutex_observe mutex order) es m1) (\<lambda>_ m2. Ret CELL_OK m2))"

definition cellSyncMutexTryLock :: "addr \<Rightarrow> vmem \<Rightarrow> api" where
  "cellSyncMutexTryLock mutex m =
     (if mutex = 0 then Ret (sync_err CELL_SYNC_ERROR_NULL_POINTER) m
      else if \<not> vm_aligned mutex 4 then Ret (sync_err CELL_SYNC_ERROR_ALIGN) m
      else case atomic_op ld_Counter st_Counter try_lock mutex m of (ok, m1) \<Rightarrow>
        if \<not> ok then Ret (sync_err CELL_SYNC_ERROR_BUSY) m1 else Ret CELL_OK m1)"

definition cellSyncMutexUnlock :: "addr \<Rightarrow> vmem \<Rightarrow> api" where
  "cellSyncMutexUnlock mutex m =
     (if mutex = 0 then Ret (sync_err CELL_SYNC_ERROR_NULL_POINTER) m
      else if \<not> vm_aligned mutex 4 then Ret (sync_err CELL_SYNC_ERROR_ALIGN) m
      else Ret CELL_OK (snd (atomic_op ld_Counter st_Counter unlock mutex m)))"

section \<open>Several threads on one mutex\<close>

text \<open>
  Every thread below \<open>n\<close> calls the functions above; each atomic operation on the control
  word is one step. A thread whose wait ends because the emulated thread is stopped keeps
  its ticket and does nothing more (\<open>Halted\<close>).
\<close>

datatype mutex_pc = Idle | Waiting u16 | Holding | Halted

record mutex_sys =
  mx_ctrl :: Counter
  mx_pc :: "nat \<Rightarrow> mutex_pc"

inductive mutex_step :: "nat \<Rightarrow> mutex_sys \<Rightarrow> mutex_sys \<Rightarrow> bool" for n where
  draw_ticket: "i < n \<Longrightarrow> mx_pc s i = Idle \<Longrightarrow> lock_begin (mx_ctrl s) = (order, c) \<Longrightarrow>
     mutex_step n s (s\<lparr>mx_ctrl := c, mx_pc := (mx_pc s)(i := Waiting order)\<rparr>)"
| see_ticket: "i < n \<Longrightarrow> mx_pc s i = Waiting order \<Longrightarrow> rel (mx_ctrl s) = order \<Longrightarrow>
     mutex_step n s (s\<lparr>mx_pc := (mx_pc s)(i := Holding)\<rparr>)"
| stop_waiting: "i < n \<Longrightarrow> mx_pc s i = Waiting order \<Longrightarrow> rel (mx_ctrl s) \<noteq> order \<Longrightarrow>
     mutex_step n s (s\<lparr>mx_pc := (mx_pc s)(i := Halted)\<rparr>)"
| try_take: "i < n \<Longrightarrow> mx_pc s i = Idle \<Longrightarrow> try_lock (mx_ctrl s) = (True, c) \<Longrightarrow>
     mutex_step n s (s\<lparr>mx_ctrl := c, mx_pc := (mx_pc s)(i := Holding)\<rparr>)"
| try_busy: "i < n \<Longrightarrow> mx_pc s i = Idle \<Longrightarrow> try_lock (mx_ctrl s) = (False, c) \<Longrightarrow>
     mutex_step n s (s\<lparr>mx_ctrl := c\<rparr>)"
| give_back: "i < n \<Longrightarrow> mx_pc s i = Holding \<Longrightarrow> unlock (mx_ctrl s) = (u, c) \<Longrightarrow>
     mutex_step n s (s\<lparr>mx_ctrl := c, mx_pc := (mx_pc s)(i := Idle)\<rparr>)"

definition mutex_init :: "mutex_sys \<Rightarrow> bool" where
  "mutex_init s \<longleftrightarrow> mx_ctrl s = \<lparr>rel = 0, acq = 0\<rparr> \<and> (\<forall>i. mx_pc s i = Idle)"

text \<open>The contract: a queue of threads in order of arrival, its head granted or not.\<close>

type_synonym fifo_lock = "nat list \<times> bool"

inductive fifo_step :: "fifo_lock \<Rightarrow> fifo_lock \<Rightarrow> bool" where
  arrive: "i \<notin> set q \<Longrightarrow> fifo_step (q, g) (q @ [i], g)"
| grant: "q \<noteq> [] \<Longrightarrow> fifo_step (q, False) (q, True)"
| leave: "fifo_step (i # q, True) (q, False)"

definition ticket_ok :: "u16 \<Rightarrow> bool \<Rightarrow> nat \<Rightarrow> mutex_pc \<Rightarrow> bool" where
  "ticket_ok r g j p =
     (case p of Idle \<Rightarrow> False | Waiting order \<Rightarrow> order = r + of_nat j
      | Holding \<Rightarrow> j = 0 \<and> g | Halted \<Rightarrow> True)"

definition mutex_rel :: "nat \<Rightarrow> mutex_sys \<Rightarrow> fifo_lock \<Rightarrow> bool" where
  "mutex_rel n s a = (case a of (q, g) \<Rightarrow>
     distinct q \<and> set q = {i. i < n \<and> mx_pc s i \<noteq> Idle} \<and>
     acq (mx_ctrl s) = rel (mx_ctrl s) + of_nat (length q) \<and>
     (\<forall>j < length q. ticket_ok (rel (mx_ctrl s)) g j (mx_pc s (q ! j))) \<and>
     (g \<longrightarrow> q \<noteq> [] \<and> mx_pc s (hd q) = Holding))"

definition mutex_release :: "addr \<Rightarrow> vmem \<Rightarrow> vmem" where
  "mutex_release mutex m = snd (atomic_op ld_Counter st_Counter unlock mutex m)"

section \<open>The control word in memory\<close>

interpretation cell_Counter: vm_cell ld_Counter st_Counter 4
  using vm_cell_rename [OF vm_cell_pair [OF cell_be16.vm_cell_axioms cell_be16.vm_cell_axioms, of 2],
      where f = "\<lambda>p. \<lparr>rel = fst p, acq = snd p\<rparr>" and g = "\<lambda>c. (rel c, acq c)"]
  by (simp add: ld_Counter_def [abs_def] st_Counter_def [abs_def])


section \<open>First come, first served\<close>

lemma of_nat_u16_eq_0: "j < 65536 \<Longrightarrow> (of_nat j :: u16) = 0 \<longleftrightarrow> j = 0"
  by (auto simp: word_of_nat_eq_0_iff dest: dvd_imp_le)

lemma mutex_relI:
  "distinct q \<Longrightarrow> set q = {i. i < n \<and> mx_pc s i \<noteq> Idle} \<Longrightarrow>
   acq (mx_ctrl s) = rel (mx_ctrl s) + of_nat (length q) \<Longrightarrow>
   (\<And>j. j < length q \<Longrightarrow> ticket_ok (rel (mx_ctrl s)) g j (mx_pc s (q ! j))) \<Longrightarrow>
   (g \<Longrightarrow> q \<noteq> [] \<and> mx_pc s (hd q) = Holding) \<Longrightarrow> mutex_rel n s (q, g)"
  by (simp add: mutex_rel_def)

lemma mutex_rel_length:
  assumes "mutex_rel n s (q, g)"
  shows "length q \<le> n" and "i < n \<Longrightarrow> mx_pc s i = Idle \<Longrightarrow> length q < n"
proof -
  have "distinct q" using assms by (simp add: mutex_rel_def)
  then have len: "length q = card (set q)" by (rule distinct_card [symmetric])
  have sub: "set q \<subseteq> {..<n}" using assms by (auto simp: mutex_rel_def)
  then show "length q \<le> n" using card_mono [OF _ sub] len by simp
  assume "i < n" "mx_pc s i = Idle"
  then have "set q \<subset> {..<n}" using assms by (auto simp: mutex_rel_def)
  then show "length q < n" using psubset_card_mono [of "{..<n}"] len by simp
qed

lemma mutex_rel_position:
  assumes "mutex_rel n s (q, g)" and "i < n" and "mx_pc s i \<noteq> Idle"
  obtains j where "j < length q" and "q ! j = i"
    and "ticket_ok (rel (mx_ctrl s)) g j (mx_pc s i)"
proof -
  have "i \<in> set q" using assms by (simp add: mutex_rel_def)
  then obtain j where "j < length q" "q ! j = i" by (auto simp: in_set_conv_nth)
  with assms(1) that show thesis by (auto simp: mutex_rel_def)
qed

lemma mutex_rel_nth_inj:
  "mutex_rel n s (q, g) \<Longrightarrow> j < length q \<Longrightarrow> k < length q \<Longrightarrow> q ! j = q ! k \<longleftrightarrow> j = k"
  by (simp add: mutex_rel_def nth_eq_iff_index_eq)

lemma sim_draw_ticket:
  assumes R: "mutex_rel n s (q, g)" and i: "i < n" "mx_pc s i = Idle"
  shows "mutex_rel n (s\<lparr>mx_ctrl := mx_ctrl s\<lparr>acq := acq (mx_ctrl s) + 1\<rparr>,
           mx_pc := (mx_pc s)(i := Waiting (acq (mx_ctrl s)))\<rparr>) (q @ [i], g)"
    (is "mutex_rel n ?t _")
proof (rule mutex_relI)
  have nq: "i \<notin> set q" using R i by (simp add: mutex_rel_def)
  then show "distinct (q @ [i])" using R by (simp add: mutex_rel_def)
  show "set (q @ [i]) = {j. j < n \<and> mx_pc ?t j \<noteq> Idle}" using R i by (auto simp: mutex_rel_def)
  show "acq (mx_ctrl ?t) = rel (mx_ctrl ?t) + of_nat (length (q @ [i]))"
    using R by (simp add: mutex_rel_def)
  show "ticket_ok (rel (mx_ctrl ?t)) g j (mx_pc ?t ((q @ [i]) ! j))" if "j < length (q @ [i])" for j
  proof (cases "j < length q")
    case True
    then have "q ! j \<noteq> i" using nq by (metis nth_mem)
    with R True show ?thesis by (simp add: mutex_rel_def nth_append)
  next
    case False
    with that R show ?thesis by (simp add: mutex_rel_def nth_append ticket_ok_def less_Suc_eq)
  qed
  show "q @ [i] \<noteq> [] \<and> mx_pc ?t (hd (q @ [i])) = Holding" if g
    using R that nq by (cases q) (auto simp: mutex_rel_def)
qed

lemma sim_see_ticket:
  assumes R: "mutex_rel n s (q, g)" and n: "n \<le> 65536"
    and i: "i < n" "mx_pc s i = Waiting (rel (mx_ctrl s))"
  shows "q \<noteq> []" and "\<not> g" and "mutex_rel n (s\<lparr>mx_pc := (mx_pc s)(i := Holding)\<rparr>) (q, True)"
proof -
  obtain j where j: "j < length q" "q ! j = i"
      "ticket_ok (rel (mx_ctrl s)) g j (Waiting (rel (mx_ctrl s)))"
    using mutex_rel_position [OF R] i by (metis mutex_pc.distinct(1))
  have "j < 65536" using j(1) mutex_rel_length(1) [OF R] n by simp
  with j(3) have "j = 0" by (simp add: ticket_ok_def of_nat_u16_eq_0)
  with j have hd: "hd q = i" and ne: "q \<noteq> []" by (cases q; auto)+
  then show "q \<noteq> []" and ng: "\<not> g" using R i by (auto simp: mutex_rel_def)
  show "mutex_rel n (s\<lparr>mx_pc := (mx_pc s)(i := Holding)\<rparr>) (q, True)"
  proof (rule mutex_relI)
    fix k assume k: "k < length q"
    show "ticket_ok (rel (mx_ctrl (s\<lparr>mx_pc := (mx_pc s)(i := Holding)\<rparr>))) True k
            (mx_pc (s\<lparr>mx_pc := (mx_pc s)(i := Holding)\<rparr>) (q ! k))"
    proof (cases "q ! k = i")
      case True
      then have "k = 0" using mutex_rel_nth_inj [OF R k j(1)] j(2) \<open>j = 0\<close> by simp
      then show ?thesis using True by (simp add: ticket_ok_def)
    next
      case False
      have "ticket_ok (rel (mx_ctrl s)) g k (mx_pc s (q ! k))" using R k by (simp add: mutex_rel_def)
      then show ?thesis using False ng by (auto simp: ticket_ok_def split: mutex_pc.split)
    qed
  qed (use R hd ne i in \<open>auto simp: mutex_rel_def\<close>)
qed

lemma sim_stop_waiting:
  assumes R: "mutex_rel n s (q, g)" and i: "i < n" "mx_pc s i = Waiting order"
  shows "mutex_rel n (s\<lparr>mx_pc := (mx_pc s)(i := Halted)\<rparr>) (q, g)"
proof (rule mutex_relI)
  fix k assume "k < length q"
  then have "ticket_ok (rel (mx_ctrl s)) g k (mx_pc s (q ! k))" using R by (simp add: mutex_rel_def)
  then show "ticket_ok (rel (mx_ctrl (s\<lparr>mx_pc := (mx_pc s)(i := Halted)\<rparr>))) g k
               (mx_pc (s\<lparr>mx_pc := (mx_pc s)(i := Halted)\<rparr>) (q ! k))"
    by (simp add: ticket_ok_def)
qed (use R i in \<open>auto simp: mutex_rel_def\<close>)

lemma sim_try_take:
  assumes R: "mutex_rel n s (q, g)" and n: "n \<le> 65536" and i: "i < n" "mx_pc s i = Idle"
    and eq: "rel (mx_ctrl s) = acq (mx_ctrl s)"
  shows "q = []" and "\<not> g"
    and "mutex_rel n (s\<lparr>mx_ctrl := mx_ctrl s\<lparr>acq := acq (mx_ctrl s) + 1\<rparr>,
           mx_pc := (mx_pc s)(i := Holding)\<rparr>) ([i], True)"
proof -
  have "(of_nat (length q) :: u16) = 0" using R eq by (simp add: mutex_rel_def)
  moreover have "length q < 65536" using mutex_rel_length(2) [OF R] i n by fastforce
  ultimately show q: "q = []" by (simp add: of_nat_u16_eq_0)
  then show "\<not> g" using R by (simp add: mutex_rel_def)
  show "mutex_rel n (s\<lparr>mx_ctrl := mx_ctrl s\<lparr>acq := acq (mx_ctrl s) + 1\<rparr>,
           mx_pc := (mx_pc s)(i := Holding)\<rparr>) ([i], True)"
    using R q i by (auto simp: mutex_rel_def ticket_ok_def)
qed

lemma sim_give_back:
  assumes R: "mutex_rel n s (q, g)" and i: "i < n" "mx_pc s i = Holding"
  shows "g" and "q = i # tl q"
    and "mutex_rel n (s\<lparr>mx_ctrl := mx_ctrl s\<lparr>rel := rel (mx_ctrl s) + 1\<rparr>,
           mx_pc := (mx_pc s)(i := Idle)\<rparr>) (tl q, False)" (is "mutex_rel n ?t _")
proof -
  obtain j where j: "j < length q" "q ! j = i" "ticket_ok (rel (mx_ctrl s)) g j Holding"
    using mutex_rel_position [OF R] i by (metis mutex_pc.distinct(3))
  then show g and qi: "q = i # tl q" by (cases q; simp add: ticket_ok_def)+
  define q' where "q' = tl q"
  have q: "q = i # q'" using qi by (simp add: q'_def)
  have "mutex_rel n ?t (q', False)"
  proof (rule mutex_relI)
    fix k assume k: "k < length q'"
    have "\<forall>j < length q. ticket_ok (rel (mx_ctrl s)) g j (mx_pc s (q ! j))"
      using R by (simp add: mutex_rel_def)
    from this [rule_format, of "Suc k"]
    have "ticket_ok (rel (mx_ctrl s)) g (Suc k) (mx_pc s (q ! Suc k))" using k by (simp add: q)
    moreover have "q' ! k \<noteq> i" using R k by (auto simp: mutex_rel_def q)
    ultimately show "ticket_ok (rel (mx_ctrl ?t)) False k (mx_pc ?t (q' ! k))"
      by (auto simp: q ticket_ok_def split: mutex_pc.split)
  qed (use R i in \<open>auto simp: mutex_rel_def q\<close>)
  then show "mutex_rel n ?t (tl q, False)" by (simp add: q)
qed

lemma mutex_sim_step:
  assumes n: "n \<le> 65536" and R: "mutex_rel n s a" and step: "mutex_step n s t"
  shows "\<exists>b. fifo_step\<^sup>*\<^sup>* a b \<and> mutex_rel n t b"
proof -
  obtain q g where a: "a = (q, g)" by (cases a)
  note R' = R [unfolded a]
  from step show ?thesis
  proof cases
    case (draw_ticket i order c)
    have "i \<notin> set q" using R' draw_ticket by (simp add: mutex_rel_def)
    then have "fifo_step (q, g) (q @ [i], g)" by (rule fifo_step.arrive)
    with sim_draw_ticket [OF R'] draw_ticket show ?thesis
      by (auto simp: a lock_begin_def)
  next
    case (see_ticket i order)
    with sim_see_ticket [OF R' n, of i] have "fifo_step (q, g) (q, True)"
      by (auto intro: fifo_step.grant)
    with sim_see_ticket(3) [OF R' n, of i] see_ticket show ?thesis by (auto simp: a)
  next
    case (stop_waiting i order)
    with sim_stop_waiting [OF R'] show ?thesis by (auto simp: a)
  next
    case (try_take i c)
    then have "rel (mx_ctrl s) = acq (mx_ctrl s)" by (simp add: try_lock_def split: if_splits)
    note tt = sim_try_take [OF R' n try_take(2,3) this]
    have "fifo_step (q, g) ([i], False)"
      using fifo_step.arrive [of i q g] tt(1,2) by simp
    moreover have "fifo_step ([i], False) ([i], True)" by (simp add: fifo_step.grant)
    ultimately have "fifo_step\<^sup>*\<^sup>* a ([i], True)" by (simp add: a)
    with tt(3) try_take show ?thesis by (auto simp: try_lock_def split: if_splits)
  next
    case (try_busy i c)
    then have "t = s" by (simp add: try_lock_def split: if_splits)
    with R show ?thesis by blast
  next
    case (give_back i u c)
    note gb = sim_give_back [OF R' give_back(2,3)]
    have "fifo_step a (tl q, False)"
      using gb(1) fifo_step.leave [of i "tl q"] gb(2) by (simp add: a)
    with gb(3) give_back show ?thesis by (auto simp: unlock_def)
  qed
qed


interpretation mutex_sim: forward_simulation
  "mutex_rel (min n 65536)" "mutex_step (min n 65536)" fifo_step for n
  by unfold_locales (rule mutex_sim_step, simp_all)

lemma mutex_init_rel: "mutex_init s \<Longrightarrow> mutex_rel n s ([], False)"
  by (simp add: mutex_init_def mutex_rel_def)

lemma mutex_reachable_rel:
  assumes "n \<le> 65536" and "mutex_init s" and "(mutex_step n)\<^sup>*\<^sup>* s t"
  shows "\<exists>a. fifo_step\<^sup>*\<^sup>* ([], False) a \<and> mutex_rel n t a"
  using mutex_sim.sim_run [of n s t] assms mutex_init_rel [OF assms(2), of n]
  by (simp add: min_absorb1)

lemma mutex_rel_holder_unique:
  assumes R: "mutex_rel n s (q, g)"
    and "i < n" "mx_pc s i = Holding" and "j < n" "mx_pc s j = Holding"
  shows "i = j"
  using sim_give_back(2) [OF R assms(2,3)] sim_give_back(2) [OF R assms(4,5)] by (metis list.inject)

lemma mutex_example_run:
  fixes p defines "p \<equiv> \<lambda>_ :: nat. Idle"
  shows "(mutex_step 2)\<^sup>*\<^sup>* \<lparr>mx_ctrl = \<lparr>rel = 0, acq = 0\<rparr>, mx_pc = p\<rparr>
           \<lparr>mx_ctrl = \<lparr>rel = 0, acq = 2\<rparr>, mx_pc = p(0 := Holding, 1 := Waiting 1)\<rparr>"
proof -
  have "mutex_step 2 \<lparr>mx_ctrl = \<lparr>rel = 0, acq = 0\<rparr>, mx_pc = p\<rparr>
          \<lparr>mx_ctrl = \<lparr>rel = 0, acq = 1\<rparr>, mx_pc = p(0 := Holding)\<rparr>"
    using mutex_step.try_take [of 0 2 "\<lparr>mx_ctrl = \<lparr>rel = 0, acq = 0\<rparr>, mx_pc = p\<rparr>"]
    by (simp add: try_lock_def p_def)
  moreover have "mutex_step 2 \<lparr>mx_ctrl = \<lparr>rel = 0, acq = 1\<rparr>, mx_pc = p(0 := Holding)\<rparr>
          \<lparr>mx_ctrl = \<lparr>rel = 0, acq = 2\<rparr>, mx_pc = p(0 := Holding, 1 := Waiting 1)\<rparr>"
    using mutex_step.draw_ticket
        [of 1 2 "\<lparr>mx_ctrl = \<lparr>rel = 0, acq = 1\<rparr>, mx_pc = p(0 := Holding)\<rparr>"]
    by (simp add: lock_begin_def p_def)
  ultimately show ?thesis by (meson converse_rtranclp_into_rtranclp r_into_rtranclp)
qed

text \<open>
  C1: With up to \<open>65536\<close> threads, every interleaving of the mutex functions refines a
  first-come-first-served lock: some run of the abstract queue reaches a state related to the
  concrete one, tickets wrapping around \<open>2 ^ 16\<close> included.
\<close>

theorem mutex_refines_fifo:
  assumes "n \<le> 65536" and "mutex_init s" and "(mutex_step n)\<^sup>*\<^sup>* s t"
  shows "\<exists>q g. fifo_step\<^sup>*\<^sup>* ([], False) (q, g) \<and> mutex_rel n t (q, g)"
  using mutex_reachable_rel [OF assms] by auto

theorem mutex_refines_fifo_witness:
  "\<exists>q g. fifo_step\<^sup>*\<^sup>* ([], False) (q, g) \<and>
     mutex_rel 2 \<lparr>mx_ctrl = \<lparr>rel = 0, acq = 2\<rparr>, mx_pc = (\<lambda>_. Idle)(0 := Holding, 1 := Waiting 1)\<rparr> (q, g)"
  by (rule mutex_refines_fifo [OF _ _ mutex_example_run]) (simp_all add: mutex_init_def)

text \<open>
  C2: Mutual exclusion: with up to \<open>65536\<close> threads, no reachable state has two threads
  past \<^verbatim>\<open>cellSyncMutexLock\<close> or a successful \<^verbatim>\<open>cellSyncMutexTryLock\<close>.
\<close>

theorem mutex_mutual_exclusion:
  assumes "n \<le> 65536" and "mutex_init s" and "(mutex_step n)\<^sup>*\<^sup>* s t"
    and "i < n" "mx_pc t i = Holding" and "j < n" "mx_pc t j = Holding"
  shows "i = j"
proof -
  obtain q g where "mutex_rel n t (q, g)" using mutex_reachable_rel [OF assms(1-3)] by auto
  then show ?thesis using assms(4-7) by (rule mutex_rel_holder_unique)
qed

theorem mutex_mutual_exclusion_witness:
  "\<exists>t. (\<exists>s. mutex_init s \<and> (mutex_step 2)\<^sup>*\<^sup>* s t) \<and> mx_pc t 0 = Holding \<and>
     \<not> (\<exists>j < 2. j \<noteq> 0 \<and> mx_pc t j = Holding)"
proof -
  let ?s = "\<lparr>mx_ctrl = \<lparr>rel = 0, acq = 0\<rparr>, mx_pc = (\<lambda>_. Idle)\<rparr>"
  let ?t = "\<lparr>mx_ctrl = \<lparr>rel = 0, acq = 2\<rparr>, mx_pc = (\<lambda>_. Idle)(0 := Holding, 1 := Waiting 1)\<rparr>"
  have init: "mutex_init ?s" by (simp add: mutex_init_def)
  have "i = 0" if "i < 2" "mx_pc ?t i = Holding" for i
    using mutex_mutual_exclusion [OF _ init mutex_example_run that, of 0] by simp
  then show ?thesis using init mutex_example_run
    by (intro exI [of _ ?t] conjI exI [of _ ?s]) auto
qed

section \<open>Waiting ends\<close>

lemma ld_mutex_release [simp]:
  "ld_Counter (mutex_release a m) a = (ld_Counter m a)\<lparr>rel := rel (ld_Counter m a) + 1\<rparr>"
  by (simp add: mutex_release_def unlock_def)

lemma ld_mutex_release_pow:
  "ld_Counter ((mutex_release a ^^ k) m) a =
     (ld_Counter m a)\<lparr>rel := rel (ld_Counter m a) + of_nat k\<rparr>"
  by (induction k) (simp_all add: algebra_simps)

lemma spin_mutex_observe:
  assumes "k < 65536" and "order = rel (ld_Counter m a) + of_nat k"
  shows "spin_until (mutex_observe a order) (replicate j (False, mutex_release a)) m =
     (if j < k then Spinning ((mutex_release a ^^ j) m) else Acquired () ((mutex_release a ^^ k) m))"
  using assms
proof (induction j arbitrary: m k)
  case 0
  then show ?case by (auto simp: mutex_observe_def of_nat_u16_eq_0)
next
  case (Suc j)
  show ?case
  proof (cases k)
    case 0
    with Suc.prems show ?thesis by (simp add: mutex_observe_def)
  next
    case (Suc k')
    have "order \<noteq> rel (ld_Counter m a)"
      using Suc.prems of_nat_u16_eq_0 [of k] by (simp add: Suc del: of_nat_Suc)
    moreover have "order = rel (ld_Counter (mutex_release a m) a) + of_nat k'"
      using Suc.prems(2) by (simp add: Suc algebra_simps)
    ultimately show ?thesis
      using Suc.IH [of k' "mutex_release a m"] Suc.prems(1)
      by (simp add: Suc mutex_observe_def funpow_swap1)
  qed
qed

text \<open>
  C3: A call of \<^verbatim>\<open>cellSyncMutexLock\<close> that finds \<open>k\<close> tickets ahead of its own
  returns \<^verbatim>\<open>CELL_OK\<close> after exactly \<open>k\<close> unlocks by the owners of those tickets and
  is still waiting after fewer; the counters it leaves say that its ticket is being served.
\<close>

theorem mutex_lock_waits_for_turn:
  assumes "mutex \<noteq> 0" and "vm_aligned mutex 4" and "k < 65536"
    and k: "acq (ld_Counter m mutex) = rel (ld_Counter m mutex) + of_nat k"
  shows "\<exists>m'. cellSyncMutexLock (replicate j (False, mutex_release mutex)) mutex m =
             (if j < k then Blocked m' else Ret CELL_OK m') \<and>
           ld_Counter m' mutex = \<lparr>rel = rel (ld_Counter m mutex) + of_nat (min j k),
                                  acq = acq (ld_Counter m mutex) + 1\<rparr>"
proof -
  obtain m1 where m1: "atomic_op ld_Counter st_Counter lock_begin mutex m = (acq (ld_Counter m mutex), m1)"
    and c1: "ld_Counter m1 mutex = (ld_Counter m mutex)\<lparr>acq := acq (ld_Counter m mutex) + 1\<rparr>"
    by (simp add: atomic_op_def lock_begin_def cell_Counter.ld_st)
  have spin: "spin_until (mutex_observe mutex (acq (ld_Counter m mutex))) (replicate j (False, mutex_release mutex)) m1 =
     (if j < k then Spinning ((mutex_release mutex ^^ j) m1) else Acquired () ((mutex_release mutex ^^ k) m1))"
    by (rule spin_mutex_observe) (use assms c1 in simp_all)
  have "cellSyncMutexLock (replicate j (False, mutex_release mutex)) mutex m =
     (if j < k then Blocked ((mutex_release mutex ^^ j) m1) else Ret CELL_OK ((mutex_release mutex ^^ k) m1))"
    using assms(1,2) by (simp add: cellSyncMutexLock_def m1 spin spin_then_def)
  then show ?thesis
    by (intro exI [of _ "(mutex_release mutex ^^ min j k) m1"])
      (simp add: ld_mutex_release_pow c1 min_def)
qed

theorem mutex_lock_waits_for_turn_witness:
  "\<exists>m'. cellSyncMutexLock [(False, mutex_release 64), (False, mutex_release 64)] 64
      (st_Counter (\<lambda>_. 0) 64 \<lparr>rel = 0xFFFF, acq = 1\<rparr>) = Ret CELL_OK m' \<and> ld_Counter m' 64 = \<lparr>rel = 1, acq = 2\<rparr>"
proof -
  let ?m = "st_Counter (\<lambda>_. 0) 64 \<lparr>rel = 0xFFFF, acq = 1\<rparr>"
  have c: "ld_Counter ?m 64 = \<lparr>rel = 0xFFFF, acq = 1\<rparr>" by (rule cell_Counter.ld_st)
  have "acq (ld_Counter ?m 64) = rel (ld_Counter ?m 64) + of_nat 2" by (simp add: c)
  moreover have "replicate 2 e = [e, e]" for e :: "bool \<times> (vmem \<Rightarrow> vmem)"
    by (simp add: numeral_2_eq_2)
  moreover have wrap: "(65537 :: u16) = 1" by simp
  ultimately show ?thesis using mutex_lock_waits_for_turn [of 64 2 ?m 2]
    by (simp add: c vm_aligned_def wrap)
qed

end
