(* ===== verification/Sync_Barrier.thy ===== *)
theory Sync_Barrier
  imports Sync_Base
begin

text \<open>
  The barrier \<^verbatim>\<open>CellSyncBarrier\<close>: a signed 16-bit value whose top bit says that all
  \<open>count\<close> participants have arrived and the waiters may leave. The contract is a counter
  with two phases; the locale \<open>rendezvous\<close> proves what its clients rely on.
\<close>

section \<open>The control word and its operations\<close>

record barrier_ctrl =
  bvalue :: u16
  bcount :: u16

definition try_notify :: "barrier_ctrl \<Rightarrow> bool \<times> barrier_ctrl" where
  "try_notify c =
     (if bvalue c AND 0x8000 \<noteq> 0 then (False, c)
      else let c' = c\<lparr>bvalue := bvalue c + 1\<rparr> in
        if sint (bvalue c') = uint (bcount c') then (True, c'\<lparr>bvalue := bvalue c' OR 0x8000\<rparr>)
        else (True, c'))"

definition try_wait :: "barrier_ctrl \<Rightarrow> bool \<times> barrier_ctrl" where
  "try_wait c =
     (if bvalue c AND 0x8000 = 0 then (False, c)
      else let c' = c\<lparr>bvalue := bvalue c - 1\<rparr> in
        if sint (bvalue c') = - 0x8000 then (True, c'\<lparr>bvalue := 0\<rparr>)
        else (True, c'))"

definition ld_barrier :: "vmem \<Rightarrow> addr \<Rightarrow> barrier_ctrl" where
  "ld_barrier m a = \<lparr>bvalue = ld_be16 m a, bcount = ld_be16 m (a + 2)\<rparr>"

definition st_barrier :: "vmem \<Rightarrow> addr \<Rightarrow> barrier_ctrl \<Rightarrow> vmem" where
  "st_barrier m a c = st_be16 (st_be16 m a (bvalue c)) (a + 2) (bcount c)"

section \<open>The library functions\<close>

definition cellSyncBarrierInitialize :: "addr \<Rightarrow> u16 \<Rightarrow> vmem \<Rightarrow> api" where
  "cellSyncBarrierInitialize barrier total_count m =
     (if barrier = 0 then Ret (sync_err CELL_SYNC_ERROR_NULL_POINTER) m
      else if \<not> vm_aligned barrier 4 then Ret (sync_err CELL_SYNC_ERROR_ALIGN) m
      else if total_count = 0 \<or> total_count > 32767 then Ret (sync_err CELL_SYNC_ERROR_INVAL) m
      else Ret CELL_OK (st_barrier m barrier \<lparr>bvalue = 0, bcount = total_count\<rparr>))"

text \<open>One iteration of \<^verbatim>\<open>while (!barrier->ctrl.atomic_op(f))\<close>.\<close>

definition barrier_attempt ::
  "(barrier_ctrl \<Rightarrow> bool \<times> barrier_ctrl) \<Rightarrow> addr \<Rightarrow> vmem \<Rightarrow> unit option \<times> vmem"
where
  "barrier_attempt f barrier m =
     (case atomic_op ld_barrier st_barrier f barrier m of
        (ok, m') \<Rightarrow> (if ok then Some () else None, m'))"

definition cellSyncBarrierNotify :: "env \<Rightarrow> addr \<Rightarrow> vmem \<Rightarrow> api" where
  "cellSyncBarrierNotify es barrier m =
     (if barrier = 0 then Ret (sync_err CELL_SYNC_ERROR_NULL_POINTER) m
      else if \<not> vm_aligned barrier 4 then Ret (sync_err CELL_SYNC_ERROR_ALIGN) m
      else spin_then (spin_until (barrier_attempt try_notify barrier) es m) (\<lambda>_ m1. Ret CELL_OK m1))"

definition cellSyncBarrierTryNotify :: "addr \<Rightarrow> vmem \<Rightarrow> api" where
  "cellSyncBarrierTryNotify barrier m =
     (if barrier = 0 then Ret (sync_err CELL_SYNC_ERROR_NULL_POINTER) m
      else if \<not> vm_aligned barrier 4 then Ret (sync_err CELL_SYNC_ERROR_ALIGN) m
      else case atomic_op ld_barrier st_barrier try_notify barrier m of (ok, m1) \<Rightarrow>
        if \<not> ok then Ret (sync_err CELL_SYNC_ERROR_BUSY) m1 else Ret CELL_OK m1)"

definition cellSyncBarrierWait :: "env \<Rightarrow> addr \<Rightarrow> vmem \<Rightarrow> api" where
  "cellSyncBarrierWait es barrier m =
     (if barrier = 0 then Ret (sync_err CELL_SYNC_ERROR_NULL_POINTER) m
      else if \<not> vm_aligned barrier 4 then Ret (sync_err CELL_SYNC_ERROR_ALIGN) m
      else spin_then (spin_until (barrier_attempt try_wait barrier) es m) (\<lambda>_ m1. Ret CELL_OK m1))"

definition cellSyncBarrierTryWait :: "addr \<Rightarrow> vmem \<Rightarrow> api" where
  "cellSyncBarrierTryWait barrier m =
     (if barrier = 0 then Ret (sync_err CELL_SYNC_ERROR_NULL_POINTER) m
      else if \<not> vm_aligned barrier 4 then Ret (sync_err CELL_SYNC_ERROR_ALIGN) m
      else case atomic_op ld_barrier st_barrier try_wait barrier m of (ok, m1) \<Rightarrow>
        if \<not> ok then Ret (sync_err CELL_SYNC_ERROR_BUSY) m1 else Ret CELL_OK m1)"

section \<open>The contract\<close>

datatype phase = Gathering nat | Draining nat

fun spec_notify :: "nat \<Rightarrow> phase \<Rightarrow> bool \<times> phase" where
  "spec_notify parties (Gathering k) =
     (True, if k + 1 = parties then Draining parties else Gathering (k + 1))"
| "spec_notify parties (Draining k) = (False, Draining k)"

fun spec_wait :: "phase \<Rightarrow> bool \<times> phase" where
  "spec_wait (Gathering k) = (False, Gathering k)"
| "spec_wait (Draining k) = (True, if k = 1 then Gathering 0 else Draining (k - 1))"

fun phase_ok :: "nat \<Rightarrow> phase \<Rightarrow> bool" where
  "phase_ok parties (Gathering k) \<longleftrightarrow> k < parties"
| "phase_ok parties (Draining k) \<longleftrightarrow> 0 < k \<and> k \<le> parties"

definition barrier_phase :: "barrier_ctrl \<Rightarrow> phase" where
  "barrier_phase c =
     (if bvalue c AND 0x8000 = 0 then Gathering (unat (bvalue c))
      else Draining (unat (bvalue c) - 0x8000))"

definition barrier_ok :: "nat \<Rightarrow> barrier_ctrl \<Rightarrow> bool" where
  "barrier_ok parties c \<longleftrightarrow> parties = unat (bcount c) \<and> 0 < parties \<and> parties \<le> 32767 \<and>
     phase_ok parties (barrier_phase c)"

datatype barrier_op = Notify | Wait

text \<open>
  The successes in a sequence of operations on one control word, whichever threads made
  the calls: notifications, waits, and the final word.
\<close>

fun run_ops ::
  "('c \<Rightarrow> bool \<times> 'c) \<Rightarrow> ('c \<Rightarrow> bool \<times> 'c) \<Rightarrow> barrier_op list \<Rightarrow> 'c \<Rightarrow> nat \<times> nat \<times> 'c"
where
  "run_ops nf wt [] c = (0, 0, c)"
| "run_ops nf wt (Notify # ops) c =
     (case nf c of (ok, c1) \<Rightarrow> case run_ops nf wt ops c1 of (n, w, c2) \<Rightarrow>
        (if ok then Suc n else n, w, c2))"
| "run_ops nf wt (Wait # ops) c =
     (case wt c of (ok, c1) \<Rightarrow> case run_ops nf wt ops c1 of (n, w, c2) \<Rightarrow>
        (n, if ok then Suc w else w, c2))"

fun arrivals :: "phase \<Rightarrow> nat" where
  "arrivals (Gathering k) = k"
| "arrivals (Draining k) = 0"

fun still_to_leave :: "phase \<Rightarrow> nat" where
  "still_to_leave (Gathering k) = 0"
| "still_to_leave (Draining k) = k"

definition barrier_arrive :: "addr \<Rightarrow> vmem \<Rightarrow> vmem" where
  "barrier_arrive barrier m = snd (atomic_op ld_barrier st_barrier try_notify barrier m)"

section \<open>Clients of a rendezvous\<close>

locale rendezvous =
  fixes nf wt :: "'c \<Rightarrow> bool \<times> 'c" and ph :: "'c \<Rightarrow> phase" and ok :: "'c \<Rightarrow> bool" and parties :: nat
  assumes ok_phase: "ok c \<Longrightarrow> phase_ok parties (ph c)"
    and notify_ok: "ok c \<Longrightarrow> ok (snd (nf c))"
    and wait_ok: "ok c \<Longrightarrow> ok (snd (wt c))"
    and notify_refines: "ok c \<Longrightarrow> map_prod id ph (nf c) = spec_notify parties (ph c)"
    and wait_refines: "ok c \<Longrightarrow> map_prod id ph (wt c) = spec_wait (ph c)"
begin

lemma run_balance:
  assumes "ok c" and "run_ops nf wt ops c = (n, w, c')"
  shows "ok c' \<and> (\<exists>r. arrivals (ph c) + n = parties * r + arrivals (ph c') \<and>
      still_to_leave (ph c) + parties * r = w + still_to_leave (ph c'))"
  using assms
proof (induction ops arbitrary: c n w)
  case Nil
  then show ?case by (auto intro: exI [of _ 0])
next
  case (Cons oper ops)
  show ?case
  proof (cases oper)
    case Notify
    obtain b c1 where c1: "nf c = (b, c1)" by force
    obtain n1 where n1: "run_ops nf wt ops c1 = (n1, w, c')" "n = (if b then Suc n1 else n1)"
      using Cons.prems(2) Notify c1 by (auto split: prod.splits)
    have "ok c1" using notify_ok [OF Cons.prems(1)] c1 by simp
    from Cons.IH [OF this n1(1)] obtain r where r: "ok c'"
        "arrivals (ph c1) + n1 = parties * r + arrivals (ph c')"
        "still_to_leave (ph c1) + parties * r = w + still_to_leave (ph c')" by blast
    have sp: "(b, ph c1) = spec_notify parties (ph c)"
      using notify_refines [OF Cons.prems(1)] c1 by simp
    show ?thesis using sp r n1(2) ok_phase [OF Cons.prems(1)]
      by (cases "ph c") (auto split: if_splits intro: exI [of _ "Suc r"] exI [of _ r])
  next
    case Wait
    obtain b c1 where c1: "wt c = (b, c1)" by force
    obtain w1 where w1: "run_ops nf wt ops c1 = (n, w1, c')" "w = (if b then Suc w1 else w1)"
      using Cons.prems(2) Wait c1 by (auto split: prod.splits)
    have "ok c1" using wait_ok [OF Cons.prems(1)] c1 by simp
    from Cons.IH [OF this w1(1)] obtain r where r: "ok c'"
        "arrivals (ph c1) + n = parties * r + arrivals (ph c')"
        "still_to_leave (ph c1) + parties * r = w1 + still_to_leave (ph c')" by blast
    have sp: "(b, ph c1) = spec_wait (ph c)"
      using wait_refines [OF Cons.prems(1)] c1 by simp
    show ?thesis using sp r w1(2) ok_phase [OF Cons.prems(1)]
      by (cases "ph c") (auto split: if_splits intro: exI [of _ r])
  qed
qed

lemma run_rounds:
  assumes "ok c" and "ph c = Gathering 0" and "run_ops nf wt ops c = (n, w, c')"
  shows "w = parties * (n div parties) \<and> fst (nf c') \<and> \<not> fst (wt c') \<or>
     n = parties * (w div parties + 1) \<and> \<not> fst (nf c') \<and> fst (wt c')"
proof -
  obtain r where r: "ok c'" "n = parties * r + arrivals (ph c')"
      "parties * r = w + still_to_leave (ph c')"
    using run_balance [OF assms(1,3)] assms(2) by auto
  have f: "fst (nf c') = fst (spec_notify parties (ph c'))" "fst (wt c') = fst (spec_wait (ph c'))"
    using notify_refines [OF r(1)] wait_refines [OF r(1)] by (metis fst_map_prod id_apply)+
  show ?thesis
  proof (cases "ph c'")
    case (Gathering k)
    then have "k < parties" using ok_phase [OF r(1)] by simp
    then have "n div parties = r" using r(2) Gathering by simp
    then show ?thesis using r(3) f Gathering by simp
  next
    case (Draining k)
    then have k: "0 < k" "k \<le> parties" using ok_phase [OF r(1)] by simp_all
    then obtain q where q: "r = Suc q" using r(3) Draining by (cases r) simp_all
    have w: "w = (parties - k) + q * parties" using r(3) Draining k q by (simp add: mult.commute)
    have "w div parties = q" unfolding w using k by (subst div_mult_self1) simp_all
    then show ?thesis using r(2) f Draining q by simp
  qed
qed

end

section \<open>The control word keeps the contract\<close>

lemma odd_div_half: "x < 65536 \<Longrightarrow> odd (x div 32768) \<longleftrightarrow> \<not> x < (32768 :: nat)"
proof -
  assume "x < 65536"
  then have "x div 32768 = (if x < 32768 then 0 else 1)" by (auto simp: div_if)
  then show ?thesis by simp
qed

lemma top_bit_clear: "(v :: u16) AND 0x8000 = 0 \<longleftrightarrow> unat v < 0x8000"
proof -
  have "v AND 0x8000 = 0 \<longleftrightarrow> \<not> bit v 15" using and_exp_eq_0_iff_not_bit [of v 15] by simp
  also have "\<dots> \<longleftrightarrow> \<not> bit (unat v) 15" by (simp add: bit_unsigned_iff)
  also have "\<dots> \<longleftrightarrow> unat v < 0x8000"
    using odd_div_half [of "unat v"] by (simp add: bit_iff_odd [of "unat v"])
  finally show ?thesis .
qed

lemma top_bit_set: "unat (v :: u16) < 0x8000 \<Longrightarrow> v OR 0x8000 = v + 0x8000"
  using top_bit_clear [of v] word_plus_and_or [of v "0x8000"] by simp

lemma sint_low: "unat (v :: u16) < 0x8000 \<Longrightarrow> sint v = int (unat v)"
proof -
  assume "unat v < 0x8000"
  then have "uint v < 0x8000" by (metis of_nat_less_iff of_nat_numeral uint_nat)
  moreover have "- (2 ^ 15) \<le> uint v" by (rule order_trans [OF _ uint_ge_0]) simp
  ultimately have "signed_take_bit 15 (uint v) = uint v"
    by (intro signed_take_bit_int_eq_self) simp_all
  then show ?thesis by (simp add: sint_uint)
qed

lemma sint_min: "sint (v :: u16) = - 0x8000 \<longleftrightarrow> v = 0x8000"
proof -
  have "sint (0x8000 :: u16) = - 0x8000" by simp
  then show ?thesis by (metis signed_word_eqI)
qed

lemma barrier_notify_draining:
  "\<not> unat (bvalue c) < 0x8000 \<Longrightarrow> try_notify c = (False, c)"
  by (simp add: try_notify_def top_bit_clear)

lemma barrier_notify_gathering:
  assumes "unat (bvalue c) < unat (bcount c)" and "unat (bcount c) \<le> 32767"
  shows "try_notify c = (True, c\<lparr>bvalue := bvalue c + 1 +
           (if unat (bvalue c) + 1 = unat (bcount c) then 0x8000 else 0)\<rparr>)"
proof -
  have u: "unat (bvalue c + 1) = unat (bvalue c) + 1"
    using assms by (subst unat_add_small) simp_all
  then have "sint (bvalue c + 1) = int (unat (bvalue c) + 1)"
    using assms by (subst sint_low) simp_all
  then have "sint (bvalue c + 1) = uint (bcount c) \<longleftrightarrow> unat (bvalue c) + 1 = unat (bcount c)"
    by (metis of_nat_eq_iff uint_nat)
  then show ?thesis using assms u by (simp add: try_notify_def top_bit_clear top_bit_set)
qed

lemma barrier_wait_gathering: "unat (bvalue c) < 0x8000 \<Longrightarrow> try_wait c = (False, c)"
  by (simp add: try_wait_def top_bit_clear)

lemma barrier_wait_draining:
  assumes "\<not> unat (bvalue c) < 0x8000"
  shows "try_wait c = (True, c\<lparr>bvalue := if bvalue c = 0x8001 then 0 else bvalue c - 1\<rparr>)"
proof -
  have "bvalue c - 1 = 0x8000 \<longleftrightarrow> bvalue c = 0x8001" by (simp add: diff_eq_eq)
  then show ?thesis using assms by (simp add: try_wait_def top_bit_clear sint_min)
qed

lemma barrier_phase_eq:
  "barrier_phase c = (if unat (bvalue c) < 0x8000 then Gathering (unat (bvalue c))
     else Draining (unat (bvalue c) - 0x8000))"
  by (simp add: barrier_phase_def top_bit_clear)

lemma try_notify_refines:
  assumes "barrier_ok n c"
  shows "map_prod id barrier_phase (try_notify c) = spec_notify n (barrier_phase c) \<and>
    bcount (snd (try_notify c)) = bcount c"
proof (cases "unat (bvalue c) < 0x8000")
  case True
  with assms have c: "unat (bvalue c) < unat (bcount c)" "unat (bcount c) \<le> 32767" "n = unat (bcount c)"
    by (simp_all add: barrier_ok_def barrier_phase_eq)
  have "unat (bvalue c + 1) = unat (bvalue c) + 1" using c by (subst unat_add_small) simp_all
  moreover have "unat (bvalue c + 0x8001) = unat (bvalue c) + 0x8001"
    using c by (subst unat_add_small) simp_all
  ultimately show ?thesis
    using True c by (auto simp: barrier_notify_gathering barrier_phase_eq add.assoc)
qed (simp add: barrier_notify_draining barrier_phase_eq)

lemma try_wait_refines:
  assumes "barrier_ok n c"
  shows "map_prod id barrier_phase (try_wait c) = spec_wait (barrier_phase c) \<and>
    bcount (snd (try_wait c)) = bcount c"
proof (cases "unat (bvalue c) < 0x8000")
  case False
  with assms have k: "unat (bvalue c) > 0x8000"
    by (simp add: barrier_ok_def barrier_phase_eq)
  then have "unat (bvalue c - 1) = unat (bvalue c) - 1" 
    by (subst unat_sub) (simp_all add: word_le_nat_alt)
  moreover have "bvalue c = 0x8001 \<longleftrightarrow> unat (bvalue c) = 0x8001"
    by (simp add: word_unat_eq_iff)
  ultimately show ?thesis
    using False k by (auto simp: barrier_wait_draining barrier_phase_eq)
qed (simp add: barrier_wait_gathering barrier_phase_eq)

lemma spec_notify_ok: "0 < n \<Longrightarrow> phase_ok n p \<Longrightarrow> phase_ok n (snd (spec_notify n p))"
  by (cases p) auto

lemma spec_wait_ok: "0 < n \<Longrightarrow> phase_ok n p \<Longrightarrow> phase_ok n (snd (spec_wait p))"
  by (cases p) auto

interpretation barrier: rendezvous try_notify try_wait barrier_phase "barrier_ok n" n for n
proof
  fix c assume c: "barrier_ok n c"
  show "phase_ok n (barrier_phase c)" using c by (auto simp: barrier_ok_def)
  show "map_prod id barrier_phase (try_notify c) = spec_notify n (barrier_phase c)"
    using try_notify_refines [OF c] by blast
  show "map_prod id barrier_phase (try_wait c) = spec_wait (barrier_phase c)"
    using try_wait_refines [OF c] by blast
  have "barrier_phase (snd (try_notify c)) = snd (spec_notify n (barrier_phase c))"
    using try_notify_refines [OF c] by (metis snd_map_prod)
  then show "barrier_ok n (snd (try_notify c))"
    using try_notify_refines [OF c] spec_notify_ok [of n "barrier_phase c"] c
    by (auto simp: barrier_ok_def)
  have "barrier_phase (snd (try_wait c)) = snd (spec_wait (barrier_phase c))"
    using try_wait_refines [OF c] by (metis snd_map_prod)
  then show "barrier_ok n (snd (try_wait c))"
    using try_wait_refines [OF c] spec_wait_ok [of n "barrier_phase c"] c
    by (auto simp: barrier_ok_def)
qed

interpretation cell_barrier: vm_cell ld_barrier st_barrier 4
  using vm_cell_rename [OF vm_cell_pair [OF cell_be16.vm_cell_axioms cell_be16.vm_cell_axioms, of 2],
      where f = "\<lambda>p. \<lparr>bvalue = fst p, bcount = snd p\<rparr>" and g = "\<lambda>c. (bvalue c, bcount c)"]
  by (simp add: ld_barrier_def [abs_def] st_barrier_def [abs_def])

lemma barrier_initialised:
  assumes "barrier \<noteq> 0" "vm_aligned barrier 4" "0 < parties" "parties \<le> 32767"
  shows "\<exists>m'. cellSyncBarrierInitialize barrier (of_nat parties) m = Ret CELL_OK m' \<and>
     barrier_ok parties (ld_barrier m' barrier) \<and> barrier_phase (ld_barrier m' barrier) = Gathering 0"
proof -
  have u: "unat (of_nat parties :: u16) = parties" using assms by (simp add: unat_of_nat)
  then have "of_nat parties \<noteq> (0 :: u16)" "\<not> 32767 < (of_nat parties :: u16)"
    using assms by (auto simp: word_less_nat_alt)
  then show ?thesis using assms u
    by (auto simp: cellSyncBarrierInitialize_def cell_barrier.ld_st barrier_ok_def barrier_phase_eq)
qed

section \<open>Waiting ends\<close>

lemma ld_barrier_arrive: "ld_barrier (barrier_arrive a m) a = snd (try_notify (ld_barrier m a))"
  by (simp add: barrier_arrive_def)

lemma barrier_attempt_gathering:
  assumes "barrier_ok n (ld_barrier m a)" and "barrier_phase (ld_barrier m a) = Gathering k"
  shows "barrier_attempt try_wait a m = (None, m)"
  using barrier.wait_refines [OF assms(1)] assms(2)
  by (auto simp: barrier_attempt_def atomic_op_def barrier_phase_eq barrier_wait_gathering
      cell_barrier.st_ld split: if_splits)

lemma barrier_attempt_draining:
  assumes "barrier_ok n (ld_barrier m a)" and "barrier_phase (ld_barrier m a) = Draining k"
  shows "\<exists>m'. barrier_attempt try_wait a m = (Some (), m')"
  using barrier.wait_refines [OF assms(1)] assms(2)
  by (cases "try_wait (ld_barrier m a)") (simp add: barrier_attempt_def atomic_op_def)

lemma barrier_arrive_phase:
  assumes "barrier_ok n (ld_barrier m a)"
  shows "barrier_ok n (ld_barrier (barrier_arrive a m) a)"
    and "barrier_phase (ld_barrier (barrier_arrive a m) a) =
      snd (spec_notify n (barrier_phase (ld_barrier m a)))"
  using barrier.notify_ok [OF assms] barrier.notify_refines [OF assms]
  by (auto simp: ld_barrier_arrive) (metis snd_map_prod)

lemma spin_barrier_wait:
  assumes "barrier_ok n (ld_barrier m a)" and "barrier_phase (ld_barrier m a) = Gathering k"
  shows "\<exists>m'. spin_until (barrier_attempt try_wait a) (replicate j (False, barrier_arrive a)) m =
     (if k + j < n then Spinning m' else Acquired () m')"
  using assms
proof (induction j arbitrary: m k)
  case 0
  then show ?case using barrier.ok_phase [OF 0(1)] by (simp add: barrier_attempt_gathering)
next
  case (Suc j)
  let ?m = "barrier_arrive a m"
  note arr = barrier_arrive_phase [OF Suc.prems(1)]
  have k: "k < n" using barrier.ok_phase [OF Suc.prems(1)] Suc.prems(2) by simp
  have unfold: "spin_until (barrier_attempt try_wait a) (replicate (Suc j) (False, barrier_arrive a)) m =
      spin_until (barrier_attempt try_wait a) (replicate j (False, barrier_arrive a)) ?m"
    by (simp add: barrier_attempt_gathering [OF Suc.prems])
  show ?case
  proof (cases "k + 1 = n")
    case True
    then have "barrier_phase (ld_barrier ?m a) = Draining n" using arr(2) Suc.prems(2) by simp
    from barrier_attempt_draining [OF arr(1) this] show ?thesis
      using True by (auto simp only: unfold spin_until_unblocked) auto
  next
    case False
    then have "barrier_phase (ld_barrier ?m a) = Gathering (k + 1)" using arr(2) Suc.prems(2) by simp
    from Suc.IH [OF arr(1) this] show ?thesis by (simp only: unfold) simp
  qed
qed

text \<open>
  C4: Every sequence of barrier operations on a freshly initialised barrier for 1 to 32767 participants, whichever
  threads make them, goes in rounds. Either all waits of the completed rounds have been made, and only notifications are
  accepted; or exactly the notifications of one round more than the completed ones have been made, and only
  waits are accepted: no participant leaves before all have arrived, and none starts the next
  round before all have left.
\<close>

theorem barrier_rounds:
  assumes "0 < parties" and "parties \<le> 32767"
    and "run_ops try_notify try_wait ops \<lparr>bvalue = 0, bcount = of_nat parties\<rparr> = (n, w, c)"
  shows "w = parties * (n div parties) \<and> fst (try_notify c) \<and> \<not> fst (try_wait c) \<or>
     n = parties * (w div parties + 1) \<and> \<not> fst (try_notify c) \<and> fst (try_wait c)"
proof -
  have "unat (of_nat parties :: u16) = parties" using assms by (simp add: unat_of_nat)
  then show ?thesis using assms
    by (intro barrier.run_rounds [OF _ _ assms(3)]) (simp_all add: barrier_ok_def barrier_phase_eq)
qed

theorem barrier_rounds_witness:
  "\<exists>c. run_ops try_notify try_wait [Notify, Wait, Notify, Notify, Wait, Notify, Wait, Notify]
      \<lparr>bvalue = 0, bcount = 2\<rparr> = (3, 2, c) \<and> (2 :: nat) = 2 * (3 div 2) \<and> fst (try_notify c)"
proof -
  have r: "run_ops try_notify try_wait [Notify, Wait, Notify, Notify, Wait, Notify, Wait, Notify]
      \<lparr>bvalue = 0, bcount = of_nat 2\<rparr> = (3, 2, \<lparr>bvalue = 1, bcount = 2\<rparr>)"
    by (simp add: try_notify_def try_wait_def Let_def)
  from barrier_rounds [OF _ _ r] have "fst (try_notify \<lparr>bvalue = 1, bcount = 2\<rparr>)" by simp
  then show ?thesis using r by simp
qed

text \<open>
  C5: A \<^verbatim>\<open>cellSyncBarrierWait\<close> on a barrier where \<open>k\<close> of \<open>parties\<close> participants have
  arrived is still waiting after fewer than the missing \<open>parties - k\<close> notifications and returns
  \<^verbatim>\<open>CELL_OK\<close> after that many.
\<close>

theorem barrier_wait_returns:
  assumes "barrier \<noteq> 0" and "vm_aligned barrier 4" and "barrier_ok parties (ld_barrier m barrier)"
    and "barrier_phase (ld_barrier m barrier) = Gathering k"
  shows "\<exists>m'. cellSyncBarrierWait (replicate j (False, barrier_arrive barrier)) barrier m =
     (if k + j < parties then Blocked m' else Ret CELL_OK m')"
  using spin_barrier_wait [OF assms(3,4), of j] assms(1,2)
  by (auto simp: cellSyncBarrierWait_def spin_then_def split: if_splits)

theorem barrier_wait_returns_witness:
  "\<exists>m'. cellSyncBarrierWait [(False, barrier_arrive 64)] 64
      (st_barrier (\<lambda>_. 0) 64 \<lparr>bvalue = 2, bcount = 3\<rparr>) = Ret CELL_OK m'"
proof -
  let ?m = "st_barrier (\<lambda>_. 0) 64 \<lparr>bvalue = 2, bcount = 3\<rparr>"
  have "ld_barrier ?m 64 = \<lparr>bvalue = 2, bcount = 3\<rparr>" by (rule cell_barrier.ld_st)
  then have "barrier_ok 3 (ld_barrier ?m 64)" "barrier_phase (ld_barrier ?m 64) = Gathering 2"
    by (simp_all add: barrier_ok_def barrier_phase_eq)
  from barrier_wait_returns [OF _ _ this, of 1] show ?thesis by (simp add: vm_aligned_def)
qed

end
