(* ===== verification/Sync_Rwm.thy ===== *)
theory Sync_Rwm
  imports Sync_Base
begin

text \<open>
  The reader/writer buffer \<^verbatim>\<open>CellSyncRwm\<close>: a control word with the number of readers and
  a writer flag, the size of the protected buffer and its address. Readers and writers copy
  the whole buffer while they hold the control word.
\<close>

section \<open>The control word and its operations\<close>

record rwm_ctrl =
  readers :: u16
  writers :: u16

definition try_read_begin :: "rwm_ctrl \<Rightarrow> bool \<times> rwm_ctrl" where
  "try_read_begin c =
     (if writers c \<noteq> 0 then (False, c) else (True, c\<lparr>readers := readers c + 1\<rparr>))"

definition try_read_end :: "rwm_ctrl \<Rightarrow> bool \<times> rwm_ctrl" where
  "try_read_end c =
     (if readers c = 0 then (False, c) else (True, c\<lparr>readers := readers c - 1\<rparr>))"

definition try_write_begin :: "rwm_ctrl \<Rightarrow> bool \<times> rwm_ctrl" where
  "try_write_begin c =
     (if writers c \<noteq> 0 then (False, c) else (True, c\<lparr>writers := 1\<rparr>))"

text \<open>\<^verbatim>\<open>ctrl.compare_and_swap_test({0, 0}, {0, 1})\<close> of \<^verbatim>\<open>cellSyncRwmTryWrite\<close>.\<close>

definition cas_write :: "rwm_ctrl \<Rightarrow> bool \<times> rwm_ctrl" where
  "cas_write c =
     (if c = \<lparr>readers = 0, writers = 0\<rparr> then (True, \<lparr>readers = 0, writers = 1\<rparr>) else (False, c))"

definition ld_rwm :: "vmem \<Rightarrow> addr \<Rightarrow> rwm_ctrl" where
  "ld_rwm m a = \<lparr>readers = ld_be16 m a, writers = ld_be16 m (a + 2)\<rparr>"

definition st_rwm :: "vmem \<Rightarrow> addr \<Rightarrow> rwm_ctrl \<Rightarrow> vmem" where
  "st_rwm m a c = st_be16 (st_be16 m a (readers c)) (a + 2) (writers c)"

definition rwm_size :: "vmem \<Rightarrow> addr \<Rightarrow> u32" where
  "rwm_size m rwm = ld_be32 m (rwm + 4)"

definition rwm_buffer :: "vmem \<Rightarrow> addr \<Rightarrow> u64" where
  "rwm_buffer m rwm = ld_be64 m (rwm + 8)"

section \<open>The library functions\<close>

text \<open>
  The arguments \<open>g1\<close> and \<open>g2\<close> are what the other threads do to memory between taking the
  control word and the copy, and between the copy and releasing it.
\<close>

definition cellSyncRwmInitialize :: "addr \<Rightarrow> addr \<Rightarrow> u32 \<Rightarrow> vmem \<Rightarrow> api" where
  "cellSyncRwmInitialize rwm buffer buffer_size m =
     (if rwm = 0 \<or> buffer = 0 then Ret (sync_err CELL_SYNC_ERROR_NULL_POINTER) m
      else if \<not> vm_aligned rwm 16 \<or> \<not> vm_aligned buffer 128 then Ret (sync_err CELL_SYNC_ERROR_ALIGN) m
      else if buffer_size mod 128 \<noteq> 0 \<or> buffer_size > 0x4000 then Ret (sync_err CELL_SYNC_ERROR_INVAL) m
      else
        let m1 = st_rwm m rwm \<lparr>readers = 0, writers = 0\<rparr>;
            m2 = st_be32 m1 (rwm + 4) buffer_size;
            m3 = st_be64 m2 (rwm + 8) (ucast buffer)
        in Ret CELL_OK m3)"

text \<open>One iteration of \<^verbatim>\<open>while (!rwm->ctrl.atomic_op(f))\<close>.\<close>

definition rwm_attempt ::
  "(rwm_ctrl \<Rightarrow> bool \<times> rwm_ctrl) \<Rightarrow> addr \<Rightarrow> vmem \<Rightarrow> unit option \<times> vmem"
where
  "rwm_attempt f rwm m =
     (case atomic_op ld_rwm st_rwm f rwm m of (ok, m') \<Rightarrow> (if ok then Some () else None, m'))"

definition rwm_copy_out :: "(vmem \<Rightarrow> vmem) \<Rightarrow> (vmem \<Rightarrow> vmem) \<Rightarrow> addr \<Rightarrow> addr \<Rightarrow> vmem \<Rightarrow> api" where
  "rwm_copy_out g1 g2 rwm buffer m =
     (let m1 = g1 m in
      case vm_cast (rwm_buffer m1 rwm) of
        None \<Rightarrow> Throw m1
      | Some p \<Rightarrow>
          let m2 = vm_memcpy m1 buffer p (unat (rwm_size m1 rwm)) in
          case atomic_op ld_rwm st_rwm try_read_end rwm (g2 m2) of (ok, m3) \<Rightarrow>
            if \<not> ok then Ret (sync_err CELL_SYNC_ERROR_ABORT) m3 else Ret CELL_OK m3)"

definition cellSyncRwmRead ::
  "env \<Rightarrow> (vmem \<Rightarrow> vmem) \<Rightarrow> (vmem \<Rightarrow> vmem) \<Rightarrow> addr \<Rightarrow> addr \<Rightarrow> vmem \<Rightarrow> api"
where
  "cellSyncRwmRead es g1 g2 rwm buffer m =
     (if rwm = 0 \<or> buffer = 0 then Ret (sync_err CELL_SYNC_ERROR_NULL_POINTER) m
      else if \<not> vm_aligned rwm 16 then Ret (sync_err CELL_SYNC_ERROR_ALIGN) m
      else spin_then (spin_until (rwm_attempt try_read_begin rwm) es m)
             (\<lambda>_ m1. rwm_copy_out g1 g2 rwm buffer m1))"

definition cellSyncRwmTryRead ::
  "(vmem \<Rightarrow> vmem) \<Rightarrow> (vmem \<Rightarrow> vmem) \<Rightarrow> addr \<Rightarrow> addr \<Rightarrow> vmem \<Rightarrow> api"
where
  "cellSyncRwmTryRead g1 g2 rwm buffer m =
     (if rwm = 0 \<or> buffer = 0 then Ret (sync_err CELL_SYNC_ERROR_NULL_POINTER) m
      else if \<not> vm_aligned rwm 16 then Ret (sync_err CELL_SYNC_ERROR_ALIGN) m
      else case atomic_op ld_rwm st_rwm try_read_begin rwm m of (ok, m1) \<Rightarrow>
        if \<not> ok then Ret (sync_err CELL_SYNC_ERROR_BUSY) m1
        else rwm_copy_out g1 g2 rwm buffer m1)"

definition rwm_copy_in :: "(vmem \<Rightarrow> vmem) \<Rightarrow> (vmem \<Rightarrow> vmem) \<Rightarrow> addr \<Rightarrow> addr \<Rightarrow> vmem \<Rightarrow> api" where
  "rwm_copy_in g1 g2 rwm buffer m =
     (let m1 = g1 m in
      case vm_cast (rwm_buffer m1 rwm) of
        None \<Rightarrow> Throw m1
      | Some p \<Rightarrow>
          let m2 = vm_memcpy m1 p buffer (unat (rwm_size m1 rwm)) in
          Ret CELL_OK (st_rwm (g2 m2) rwm \<lparr>readers = 0, writers = 0\<rparr>))"

definition cellSyncRwmWrite ::
  "env \<Rightarrow> env \<Rightarrow> (vmem \<Rightarrow> vmem) \<Rightarrow> (vmem \<Rightarrow> vmem) \<Rightarrow> addr \<Rightarrow> addr \<Rightarrow> vmem \<Rightarrow> api"
where
  "cellSyncRwmWrite es1 es2 g1 g2 rwm buffer m =
     (if rwm = 0 \<or> buffer = 0 then Ret (sync_err CELL_SYNC_ERROR_NULL_POINTER) m
      else if \<not> vm_aligned rwm 16 then Ret (sync_err CELL_SYNC_ERROR_ALIGN) m
      else spin_then (spin_until (rwm_attempt try_write_begin rwm) es1 m)
        (\<lambda>_ m1. spin_then
           (spin_until (\<lambda>x. (if readers (ld_rwm x rwm) \<noteq> 0 then None else Some (), x)) es2 m1)
           (\<lambda>_ m2. rwm_copy_in g1 g2 rwm buffer m2)))"

definition cellSyncRwmTryWrite ::
  "(vmem \<Rightarrow> vmem) \<Rightarrow> (vmem \<Rightarrow> vmem) \<Rightarrow> addr \<Rightarrow> addr \<Rightarrow> vmem \<Rightarrow> api"
where
  "cellSyncRwmTryWrite g1 g2 rwm buffer m =
     (if rwm = 0 \<or> buffer = 0 then Ret (sync_err CELL_SYNC_ERROR_NULL_POINTER) m
      else if \<not> vm_aligned rwm 16 then Ret (sync_err CELL_SYNC_ERROR_ALIGN) m
      else case atomic_op ld_rwm st_rwm cas_write rwm m of (ok, m1) \<Rightarrow>
        if \<not> ok then Ret (sync_err CELL_SYNC_ERROR_BUSY) m1
        else rwm_copy_in g1 g2 rwm buffer m1)"

section \<open>Several threads on one buffer\<close>

text \<open>
  Each atomic operation on the control word is one step, and so is each byte of a copy: a
  reader has the bytes it has copied so far, a writer the data it writes and how much of it
  is written. A thread that is stopped while it drains the readers leaves the writer flag set
  (\<open>WStuck\<close>). \<open>rw_last\<close> is the content of the last completed write.
\<close>

datatype rwm_pc =
    RwIdle | Reading "u8 list" | WDraining "u8 list" | Writing "u8 list" nat | WStuck

record rwm_sys =
  rw_ctrl :: rwm_ctrl
  rw_buf :: "u8 list"
  rw_pc :: "nat \<Rightarrow> rwm_pc"
  rw_last :: "u8 list"

inductive rwm_step :: "nat \<Rightarrow> rwm_sys \<Rightarrow> rwm_sys \<Rightarrow> bool" for n where
  read_begin: "i < n \<Longrightarrow> rw_pc s i = RwIdle \<Longrightarrow> try_read_begin (rw_ctrl s) = (True, c) \<Longrightarrow>
     rwm_step n s (s\<lparr>rw_ctrl := c, rw_pc := (rw_pc s)(i := Reading [])\<rparr>)"
| read_byte: "i < n \<Longrightarrow> rw_pc s i = Reading bs \<Longrightarrow> length bs < length (rw_buf s) \<Longrightarrow>
     rwm_step n s (s\<lparr>rw_pc := (rw_pc s)(i := Reading (bs @ [rw_buf s ! length bs]))\<rparr>)"
| read_end: "i < n \<Longrightarrow> rw_pc s i = Reading bs \<Longrightarrow> length bs = length (rw_buf s) \<Longrightarrow>
     try_read_end (rw_ctrl s) = (ok, c) \<Longrightarrow>
     rwm_step n s (s\<lparr>rw_ctrl := c, rw_pc := (rw_pc s)(i := RwIdle)\<rparr>)"
| write_begin: "i < n \<Longrightarrow> rw_pc s i = RwIdle \<Longrightarrow> length ds = length (rw_buf s) \<Longrightarrow>
     try_write_begin (rw_ctrl s) = (True, c) \<Longrightarrow>
     rwm_step n s (s\<lparr>rw_ctrl := c, rw_pc := (rw_pc s)(i := WDraining ds)\<rparr>)"
| write_drained: "i < n \<Longrightarrow> rw_pc s i = WDraining ds \<Longrightarrow> readers (rw_ctrl s) = 0 \<Longrightarrow>
     rwm_step n s (s\<lparr>rw_pc := (rw_pc s)(i := Writing ds 0)\<rparr>)"
| write_stopped: "i < n \<Longrightarrow> rw_pc s i = WDraining ds \<Longrightarrow> readers (rw_ctrl s) \<noteq> 0 \<Longrightarrow>
     rwm_step n s (s\<lparr>rw_pc := (rw_pc s)(i := WStuck)\<rparr>)"
| try_write: "i < n \<Longrightarrow> rw_pc s i = RwIdle \<Longrightarrow> length ds = length (rw_buf s) \<Longrightarrow>
     cas_write (rw_ctrl s) = (True, c) \<Longrightarrow>
     rwm_step n s (s\<lparr>rw_ctrl := c, rw_pc := (rw_pc s)(i := Writing ds 0)\<rparr>)"
| write_byte: "i < n \<Longrightarrow> rw_pc s i = Writing ds k \<Longrightarrow> k < length ds \<Longrightarrow>
     rwm_step n s (s\<lparr>rw_buf := (rw_buf s)[k := ds ! k], rw_pc := (rw_pc s)(i := Writing ds (Suc k))\<rparr>)"
| write_end: "i < n \<Longrightarrow> rw_pc s i = Writing ds k \<Longrightarrow> k = length ds \<Longrightarrow>
     rwm_step n s (s\<lparr>rw_ctrl := \<lparr>readers = 0, writers = 0\<rparr>, rw_pc := (rw_pc s)(i := RwIdle), rw_last := ds\<rparr>)"

definition rwm_init :: "rwm_sys \<Rightarrow> bool" where
  "rwm_init s \<longleftrightarrow> rw_ctrl s = \<lparr>readers = 0, writers = 0\<rparr> \<and> (\<forall>i. rw_pc s i = RwIdle) \<and>
     rw_last s = rw_buf s"

fun is_reading :: "rwm_pc \<Rightarrow> bool" where
  "is_reading (Reading bs) = True"
| "is_reading _ = False"

fun is_writing :: "rwm_pc \<Rightarrow> bool" where
  "is_writing (Writing ds k) = True"
| "is_writing _ = False"

fun owns_flag :: "rwm_pc \<Rightarrow> bool" where
  "owns_flag (WDraining ds) = True"
| "owns_flag (Writing ds k) = True"
| "owns_flag WStuck = True"
| "owns_flag _ = False"

definition reading :: "nat \<Rightarrow> rwm_sys \<Rightarrow> nat set" where
  "reading n s = {i. i < n \<and> is_reading (rw_pc s i)}"

definition owning :: "nat \<Rightarrow> rwm_sys \<Rightarrow> nat set" where
  "owning n s = {i. i < n \<and> owns_flag (rw_pc s i)}"


definition rwm_pc_ok :: "rwm_sys \<Rightarrow> rwm_pc \<Rightarrow> bool" where
  "rwm_pc_ok s p =
     (case p of
        Reading bs \<Rightarrow> bs = take (length bs) (rw_buf s)
      | WDraining ds \<Rightarrow> length ds = length (rw_buf s)
      | Writing ds k \<Rightarrow> k \<le> length ds \<and> length ds = length (rw_buf s) \<and>
          readers (rw_ctrl s) = 0 \<and> take k (rw_buf s) = take k ds
      | _ \<Rightarrow> True)"

definition rwm_inv :: "nat \<Rightarrow> rwm_sys \<Rightarrow> bool" where
  "rwm_inv n s \<longleftrightarrow>
     unat (readers (rw_ctrl s)) = card (reading n s) \<and>
     unat (writers (rw_ctrl s)) = card (owning n s) \<and> card (owning n s) \<le> 1 \<and>
     (\<forall>i < n. rwm_pc_ok s (rw_pc s i)) \<and>
     ((\<forall>i < n. \<not> is_writing (rw_pc s i)) \<longrightarrow> rw_buf s = rw_last s)"

section \<open>The control word in memory\<close>

interpretation cell_rwm: vm_cell ld_rwm st_rwm 4
  using vm_cell_rename [OF vm_cell_pair [OF cell_be16.vm_cell_axioms cell_be16.vm_cell_axioms, of 2],
      where f = "\<lambda>p. \<lparr>readers = fst p, writers = snd p\<rparr>" and g = "\<lambda>c. (readers c, writers c)"]
  by (simp add: ld_rwm_def [abs_def] st_rwm_def [abs_def])

section \<open>The invariant\<close>

lemma finite_reading [simp]: "finite (reading n s)"
  by (simp add: reading_def)

lemma finite_owning [simp]: "finite (owning n s)"
  by (simp add: owning_def)

lemma is_writing_owns: "is_writing p \<Longrightarrow> owns_flag p"
  by (cases p) auto

lemma reading_update:
  "rw_pc t = (rw_pc s)(i := p) \<Longrightarrow> i < n \<Longrightarrow>
     reading n t = (if is_reading p then insert i (reading n s) else reading n s - {i})"
  by (auto simp: reading_def)

lemma owning_update:
  "rw_pc t = (rw_pc s)(i := p) \<Longrightarrow> i < n \<Longrightarrow>
     owning n t = (if owns_flag p then insert i (owning n s) else owning n s - {i})"
  by (auto simp: owning_def)

lemma card_reading_less: "i < n \<Longrightarrow> \<not> is_reading (rw_pc s i) \<Longrightarrow> card (reading n s) < n"
proof -
  assume "i < n" "\<not> is_reading (rw_pc s i)"
  then have "reading n s \<subseteq> {..<n} - {i}" by (auto simp: reading_def)
  then have "card (reading n s) \<le> card ({..<n} - {i})" by (rule card_mono [rotated]) simp
  with \<open>i < n\<close> show ?thesis by simp
qed

lemma rwm_invD:
  assumes "rwm_inv n s" and "i < n"
  shows "rwm_pc_ok s (rw_pc s i)"
    and "is_reading (rw_pc s i) \<Longrightarrow> readers (rw_ctrl s) \<noteq> 0"
    and "owns_flag (rw_pc s i) \<Longrightarrow> writers (rw_ctrl s) \<noteq> 0 \<and> owning n s = {i}"
proof -
  show "rwm_pc_ok s (rw_pc s i)" using assms by (simp add: rwm_inv_def)
  show "readers (rw_ctrl s) \<noteq> 0" if "is_reading (rw_pc s i)"
  proof -
    have "i \<in> reading n s" using that assms(2) by (simp add: reading_def)
    then have "card (reading n s) \<noteq> 0" by (metis card_0_eq empty_iff finite_reading)
    then show ?thesis using assms(1) by (auto simp: rwm_inv_def)
  qed
  show "writers (rw_ctrl s) \<noteq> 0 \<and> owning n s = {i}" if "owns_flag (rw_pc s i)"
  proof -
    have "i \<in> owning n s" using that assms(2) by (simp add: owning_def)
    moreover have "card (owning n s) \<le> 1" "unat (writers (rw_ctrl s)) = card (owning n s)"
      using assms(1) by (simp_all add: rwm_inv_def)
    ultimately show ?thesis
      by (metis One_nat_def card_0_eq card_1_singletonE empty_iff finite_owning le_Suc_eq le_zero_eq
          singletonD unat_0)
  qed
qed

lemma rwm_no_readers:
  assumes "rwm_inv n s" and "readers (rw_ctrl s) = 0" and "j < n"
  shows "\<not> is_reading (rw_pc s j)"
  using rwm_invD(2) [OF assms(1,3)] assms(2) by auto

lemma rwm_no_writer:
  assumes "rwm_inv n s" and "writers (rw_ctrl s) = 0" and "j < n"
  shows "\<not> owns_flag (rw_pc s j)"
  using rwm_invD(3) [OF assms(1,3)] assms(2) by auto

lemma rwm_other_writer:
  assumes "rwm_inv n s" and "i < n" "owns_flag (rw_pc s i)" and "j < n" "j \<noteq> i"
  shows "\<not> owns_flag (rw_pc s j)"
  using rwm_invD(3) [OF assms(1,2,3)] rwm_invD(3) [OF assms(1,4)] assms(5) by auto

lemmas rwm_op_defs =
  try_read_begin_def try_read_end_def try_write_begin_def cas_write_def

lemma rwm_inv_update:
  assumes "i < n" and "rw_pc t = (rw_pc s)(i := p)"
    and "unat (readers (rw_ctrl t)) = card (if is_reading p then insert i (reading n s) else reading n s - {i})"
    and "unat (writers (rw_ctrl t)) = card (if owns_flag p then insert i (owning n s) else owning n s - {i})"
    and "writers (rw_ctrl t) \<le> 1"
    and "rwm_pc_ok t p" and "\<And>j. j < n \<Longrightarrow> j \<noteq> i \<Longrightarrow> rwm_pc_ok t (rw_pc s j)"
    and "(\<forall>j < n. j \<noteq> i \<longrightarrow> \<not> is_writing (rw_pc s j)) \<Longrightarrow> \<not> is_writing p \<Longrightarrow> rw_buf t = rw_last t"
  shows "rwm_inv n t"
  unfolding rwm_inv_def reading_update [OF assms(2,1)] owning_update [OF assms(2,1)]
proof (intro conjI allI impI)
  show "card (if owns_flag p then insert i (owning n s) else owning n s - {i}) \<le> 1"
    using assms(4,5) by (simp add: word_le_nat_alt)
  show "rwm_pc_ok t (rw_pc t j)" if "j < n" for j
    using assms(2,6,7) that by simp
  show "rw_buf t = rw_last t" if "\<forall>i < n. \<not> is_writing (rw_pc t i)"
  proof (rule assms(8))
    show "\<forall>j < n. j \<noteq> i \<longrightarrow> \<not> is_writing (rw_pc s j)" using that assms(2) by (metis fun_upd_other)
    show "\<not> is_writing p" using that assms(1,2) by (metis fun_upd_same)
  qed
qed (rule assms)+

lemma rwm_pc_ok_cong:
  "rw_buf t = rw_buf s \<Longrightarrow> (is_writing p \<Longrightarrow> readers (rw_ctrl t) = 0) \<Longrightarrow> rwm_pc_ok s p \<Longrightarrow> rwm_pc_ok t p"
  by (cases p) (simp_all add: rwm_pc_ok_def)

lemma rwm_last_unchanged:
  assumes "rwm_inv n s" and "\<forall>j < n. j \<noteq> i \<longrightarrow> \<not> is_writing (rw_pc s j)" and "\<not> is_writing (rw_pc s i)"
  shows "rw_buf s = rw_last s"
proof -
  have "\<forall>j < n. \<not> is_writing (rw_pc s j)" using assms(2,3) by blast
  then show ?thesis using assms(1) by (simp add: rwm_inv_def)
qed

lemma rwm_counts:
  assumes "rwm_inv n s"
  shows "unat (readers (rw_ctrl s)) = card (reading n s)"
    and "unat (writers (rw_ctrl s)) = card (owning n s)" and "writers (rw_ctrl s) \<le> 1"
  using assms by (simp_all add: rwm_inv_def word_le_nat_alt)

lemma rwm_same_counts:
  assumes inv: "rwm_inv n s" and i: "i < n"
  shows "is_reading p = is_reading (rw_pc s i) \<Longrightarrow>
      unat (readers (rw_ctrl s)) = card (if is_reading p then insert i (reading n s) else reading n s - {i})"
    and "owns_flag p = owns_flag (rw_pc s i) \<Longrightarrow>
      unat (writers (rw_ctrl s)) = card (if owns_flag p then insert i (owning n s) else owning n s - {i})"
proof -
  have "i \<in> reading n s \<longleftrightarrow> is_reading (rw_pc s i)" "i \<in> owning n s \<longleftrightarrow> owns_flag (rw_pc s i)"
    using i by (simp_all add: reading_def owning_def)
  then have "(if is_reading (rw_pc s i) then insert i (reading n s) else reading n s - {i}) = reading n s"
      "(if owns_flag (rw_pc s i) then insert i (owning n s) else owning n s - {i}) = owning n s"
    by auto
  then show "is_reading p = is_reading (rw_pc s i) \<Longrightarrow>
      unat (readers (rw_ctrl s)) = card (if is_reading p then insert i (reading n s) else reading n s - {i})"
    and "owns_flag p = owns_flag (rw_pc s i) \<Longrightarrow>
      unat (writers (rw_ctrl s)) = card (if owns_flag p then insert i (owning n s) else owning n s - {i})"
    using rwm_counts [OF inv] by simp_all
qed

lemma rwm_read_begin_inv:
  assumes n: "n < 65536" and inv: "rwm_inv n s" and i: "i < n" "rw_pc s i = RwIdle"
    and op: "try_read_begin (rw_ctrl s) = (True, c)"
    and t: "t = s\<lparr>rw_ctrl := c, rw_pc := (rw_pc s)(i := Reading [])\<rparr>"
  shows "rwm_inv n t"
proof (rule rwm_inv_update [OF i(1), where s = s and p = "Reading []"])
  have w: "writers (rw_ctrl s) = 0" and c: "c = (rw_ctrl s)\<lparr>readers := readers (rw_ctrl s) + 1\<rparr>"
    using op by (auto simp: try_read_begin_def split: if_splits)
  have "card (reading n s) < n" using card_reading_less [of i n s] i by simp
  then have "unat (readers (rw_ctrl s) + 1) = unat (readers (rw_ctrl s)) + 1"
    using n rwm_counts [OF inv] by (subst unat_add_small) simp_all
  moreover have "i \<notin> reading n s" using i by (simp add: reading_def)
  ultimately show "unat (readers (rw_ctrl t)) =
      card (if is_reading (Reading []) then insert i (reading n s) else reading n s - {i})"
    using c rwm_counts [OF inv] by (simp add: t)
  show "unat (writers (rw_ctrl t)) =
      card (if owns_flag (Reading []) then insert i (owning n s) else owning n s - {i})"
    using rwm_same_counts(2) [OF inv i(1), of "Reading []"] i by (simp add: t c)
  show "rwm_pc_ok t (rw_pc s j)" if "j < n" for j
    by (rule rwm_pc_ok_cong [of t s, OF _ _ rwm_invD(1) [OF inv that]])
      (use rwm_no_writer [OF inv w that] is_writing_owns in \<open>auto simp: t\<close>)
  show "rw_buf t = rw_last t" if "\<forall>j < n. j \<noteq> i \<longrightarrow> \<not> is_writing (rw_pc s j)"
    using rwm_last_unchanged [OF inv that] i by (simp add: t)
  show "writers (rw_ctrl t) \<le> 1" using w by (simp add: t c)
qed (simp_all add: t rwm_pc_ok_def)

lemma rwm_read_end_inv:
  assumes inv: "rwm_inv n s" and i: "i < n" "rw_pc s i = Reading bs"
    and op: "try_read_end (rw_ctrl s) = (ok, c)"
    and t: "t = s\<lparr>rw_ctrl := c, rw_pc := (rw_pc s)(i := RwIdle)\<rparr>"
  shows "rwm_inv n t"
proof (rule rwm_inv_update [OF i(1), where s = s and p = RwIdle])
  have r: "readers (rw_ctrl s) \<noteq> 0" using rwm_invD(2) [OF inv i(1)] i(2) by simp
  then have c: "c = (rw_ctrl s)\<lparr>readers := readers (rw_ctrl s) - 1\<rparr>"
    using op by (auto simp: try_read_end_def split: if_splits)
  have "unat (readers (rw_ctrl s) - 1) = unat (readers (rw_ctrl s)) - 1"
    using r by (simp add: unat_minus_one)
  moreover have "i \<in> reading n s" using i by (simp add: reading_def)
  ultimately show "unat (readers (rw_ctrl t)) =
      card (if is_reading RwIdle then insert i (reading n s) else reading n s - {i})"
    using rwm_counts [OF inv] by (simp add: t c)
  show "unat (writers (rw_ctrl t)) =
      card (if owns_flag RwIdle then insert i (owning n s) else owning n s - {i})"
    using rwm_same_counts(2) [OF inv i(1), of RwIdle] i by (simp add: t c)
  show "rwm_pc_ok t (rw_pc s j)" if "j < n" for j
    using rwm_invD(1) [OF inv that] r
    by (cases "rw_pc s j") (simp_all add: rwm_pc_ok_def t)
  show "rw_buf t = rw_last t" if "\<forall>j < n. j \<noteq> i \<longrightarrow> \<not> is_writing (rw_pc s j)"
    using rwm_last_unchanged [OF inv that] i by (simp add: t)
  show "writers (rw_ctrl t) \<le> 1" using rwm_counts(3) [OF inv] by (simp add: t c)
qed (simp_all add: t rwm_pc_ok_def)

text \<open>A thread takes the writer flag: \<open>try_write_begin\<close>, or the exchange of \<open>cellSyncRwmTryWrite\<close>.\<close>

lemma rwm_take_flag_inv:
  assumes inv: "rwm_inv n s" and i: "i < n" "rw_pc s i = RwIdle" and w: "writers (rw_ctrl s) = 0"
    and p: "owns_flag p" "\<not> is_reading p" "rwm_pc_ok s p"
    and t: "t = s\<lparr>rw_ctrl := (rw_ctrl s)\<lparr>writers := 1\<rparr>, rw_pc := (rw_pc s)(i := p)\<rparr>"
  shows "rwm_inv n t"
proof (rule rwm_inv_update [OF i(1), where s = s and p = p])
  have "card (owning n s) = 0" using rwm_counts(2) [OF inv] w by simp
  then have "owning n s = {}" by simp
  then show "unat (writers (rw_ctrl t)) = card (if owns_flag p then insert i (owning n s) else owning n s - {i})"
    using p by (simp add: t)
  show "unat (readers (rw_ctrl t)) = card (if is_reading p then insert i (reading n s) else reading n s - {i})"
    using rwm_same_counts(1) [OF inv i(1), of p] i p by (simp add: t)
  show "rwm_pc_ok t (rw_pc s j)" if "j < n" for j
    by (rule rwm_pc_ok_cong [of t s, OF _ _ rwm_invD(1) [OF inv that]])
      (use rwm_no_writer [OF inv w that] is_writing_owns in \<open>auto simp: t\<close>)
  show "rwm_pc_ok t p" using p(3) by (cases p) (simp_all add: rwm_pc_ok_def t)
  show "rw_buf t = rw_last t" if "\<forall>j < n. j \<noteq> i \<longrightarrow> \<not> is_writing (rw_pc s j)"
    using rwm_last_unchanged [OF inv that] i by (simp add: t)
qed (simp_all add: t)

text \<open>A step of a copy, or the end of the drain: the control word stays.\<close>

lemma rwm_local_inv:
  assumes inv: "rwm_inv n s" and i: "i < n"
    and p: "is_reading p = is_reading (rw_pc s i)" "owns_flag p = owns_flag (rw_pc s i)" "rwm_pc_ok t p"
    and t: "rw_ctrl t = rw_ctrl s" "rw_pc t = (rw_pc s)(i := p)" "rw_last t = rw_last s"
    and b: "rw_buf t = rw_buf s \<and> (is_writing (rw_pc s i) \<longrightarrow> is_writing p) \<or>
      is_writing (rw_pc s i) \<and> is_writing p \<and> length (rw_buf t) = length (rw_buf s)"
  shows "rwm_inv n t"
proof (rule rwm_inv_update [OF i, where s = s and p = p])
  show "rwm_pc_ok t (rw_pc s j)" if "j < n" "j \<noteq> i" for j
  proof (cases "rw_buf t = rw_buf s")
    case True
    then show ?thesis using rwm_invD(1) [OF inv that(1)] t
      by (cases "rw_pc s j") (simp_all add: rwm_pc_ok_def)
  next
    case False
    then have w: "is_writing (rw_pc s i)" using b by blast
    then have "readers (rw_ctrl s) = 0"
      using rwm_invD(1) [OF inv i] by (cases "rw_pc s i") (simp_all add: rwm_pc_ok_def)
    then have "\<not> is_reading (rw_pc s j)" using rwm_no_readers [OF inv _ that(1)] by simp
    moreover have "\<not> owns_flag (rw_pc s j)"
      using rwm_other_writer [OF inv i _ that] w is_writing_owns by blast
    ultimately show ?thesis by (cases "rw_pc s j") (simp_all add: rwm_pc_ok_def)
  qed
  show "rw_buf t = rw_last t"
    if "\<forall>j < n. j \<noteq> i \<longrightarrow> \<not> is_writing (rw_pc s j)" "\<not> is_writing p"
    using rwm_last_unchanged [OF inv that(1)] that(2) b t(3) by metis
  show "unat (readers (rw_ctrl t)) = card (if is_reading p then insert i (reading n s) else reading n s - {i})"
    unfolding t(1) by (rule rwm_same_counts(1) [OF inv i p(1)])
  show "unat (writers (rw_ctrl t)) = card (if owns_flag p then insert i (owning n s) else owning n s - {i})"
    unfolding t(1) by (rule rwm_same_counts(2) [OF inv i p(2)])
  show "writers (rw_ctrl t) \<le> 1" unfolding t(1) by (rule rwm_counts(3) [OF inv])
qed (rule t p)+

lemma rwm_write_end_inv:
  assumes inv: "rwm_inv n s" and i: "i < n" "rw_pc s i = Writing ds (length ds)"
    and t: "t = s\<lparr>rw_ctrl := \<lparr>readers = 0, writers = 0\<rparr>, rw_pc := (rw_pc s)(i := RwIdle), rw_last := ds\<rparr>"
  shows "rwm_inv n t"
proof (rule rwm_inv_update [OF i(1), where s = s and p = RwIdle])
  have pc: "length ds = length (rw_buf s) \<and> readers (rw_ctrl s) = 0 \<and>
      take (length ds) (rw_buf s) = take (length ds) ds"
    using rwm_invD(1) [OF inv i(1)] unfolding i(2) rwm_pc_ok_def rwm_pc.case by blast
  then have ok: "rw_buf s = ds" by (metis order_refl take_all)
  have "readers (rw_ctrl s) = 0" using pc by blast
  then have "card (reading n s) = 0" using rwm_counts(1) [OF inv] by simp
  then show "unat (readers (rw_ctrl t)) = card (if is_reading RwIdle then insert i (reading n s) else reading n s - {i})"
    by (simp add: t)
  have "owning n s = {i}" using rwm_invD(3) [OF inv i(1)] i(2) by simp
  then show "unat (writers (rw_ctrl t)) = card (if owns_flag RwIdle then insert i (owning n s) else owning n s - {i})"
    by (simp add: t)
  show "rwm_pc_ok t (rw_pc s j)" if "j < n" for j
    using rwm_invD(1) [OF inv that] by (cases "rw_pc s j") (simp_all add: rwm_pc_ok_def t)
  show "rw_buf t = rw_last t" using ok by (simp add: t)
qed (simp_all add: t rwm_pc_ok_def)

lemma rwm_step_inv:
  assumes n: "n < 65536" and inv: "rwm_inv n s" and step: "rwm_step n s t"
  shows "rwm_inv n t"
  using step
proof cases
  case (read_begin i c)
  show ?thesis by (rule rwm_read_begin_inv [OF n inv read_begin(2-4,1)])
next
  case (read_byte i bs)
  have "take (length bs) (rw_buf s) = bs"
    using rwm_invD(1) [OF inv read_byte(2)] unfolding read_byte(3) rwm_pc_ok_def rwm_pc.case by (rule sym)
  then show ?thesis using read_byte
    by (intro rwm_local_inv [OF inv read_byte(2), where p = "Reading (bs @ [rw_buf s ! length bs])"])
      (auto simp: rwm_pc_ok_def take_Suc_conv_app_nth)
next
  case (read_end i bs ok c)
  show ?thesis by (rule rwm_read_end_inv [OF inv read_end(2,3,5,1)])
next
  case (write_begin i ds c)
  then show ?thesis
    by (intro rwm_take_flag_inv [OF inv write_begin(2,3), where p = "WDraining ds"])
      (auto simp: try_write_begin_def rwm_pc_ok_def split: if_splits)
next
  case (write_drained i ds)
  then show ?thesis using rwm_invD(1) [OF inv write_drained(2)]
    by (intro rwm_local_inv [OF inv write_drained(2), where p = "Writing ds 0"]) (simp_all add: rwm_pc_ok_def)
next
  case (write_stopped i ds)
  then show ?thesis
    by (intro rwm_local_inv [OF inv write_stopped(2), where p = WStuck]) (simp_all add: rwm_pc_ok_def)
next
  case (try_write i ds c)
  then show ?thesis
    by (intro rwm_take_flag_inv [OF inv try_write(2,3), where p = "Writing ds 0"])
      (auto simp: cas_write_def rwm_pc_ok_def split: if_splits)
next
  case (write_byte i ds k)
  then show ?thesis using rwm_invD(1) [OF inv write_byte(2)]
    by (intro rwm_local_inv [OF inv write_byte(2), where p = "Writing ds (Suc k)"])
      (auto simp: rwm_pc_ok_def take_Suc_conv_app_nth)
next
  case (write_end i ds k)
  show ?thesis by (rule rwm_write_end_inv [OF inv write_end(2,3) [unfolded write_end(4)] write_end(1)])
qed

interpretation rwm: invariant_system rwm_init "rwm_step (min n 65535)" "rwm_inv (min n 65535)" for n
proof
  fix s assume "rwm_init s"
  then show "rwm_inv (min n 65535) s"
    by (simp add: rwm_init_def rwm_inv_def reading_def owning_def rwm_pc_ok_def)
next
  fix s t assume "rwm_inv (min n 65535) s" "rwm_step (min n 65535) s t"
  then show "rwm_inv (min n 65535) t" by (rule rwm_step_inv [rotated]) simp
qed

lemma rwm_reachable:
  "n < 65536 \<Longrightarrow> rwm_init s \<Longrightarrow> (rwm_step n)\<^sup>*\<^sup>* s t \<Longrightarrow> rwm_inv n t"
  using rwm.reachable_inv [of s n t] by (simp add: min_def)

lemma rwm_example_run:
  fixes p defines "p \<equiv> \<lambda>_ :: nat. RwIdle"
  shows "(rwm_step 2)\<^sup>*\<^sup>* \<lparr>rw_ctrl = \<lparr>readers = 0, writers = 0\<rparr>, rw_buf = [7], rw_pc = p, rw_last = [7]\<rparr>
     \<lparr>rw_ctrl = \<lparr>readers = 0, writers = 1\<rparr>, rw_buf = [7], rw_pc = p(0 := Writing [9] 0), rw_last = [7]\<rparr>"
    and "(rwm_step 2)\<^sup>*\<^sup>* \<lparr>rw_ctrl = \<lparr>readers = 0, writers = 0\<rparr>, rw_buf = [7], rw_pc = p, rw_last = [7]\<rparr>
     \<lparr>rw_ctrl = \<lparr>readers = 1, writers = 0\<rparr>, rw_buf = [7], rw_pc = p(0 := Reading [7]), rw_last = [7]\<rparr>"
proof -
  let ?s = "\<lparr>rw_ctrl = \<lparr>readers = 0, writers = 0\<rparr>, rw_buf = [7], rw_pc = p, rw_last = [7]\<rparr>"
  let ?r = "\<lparr>rw_ctrl = \<lparr>readers = 1, writers = 0\<rparr>, rw_buf = [7], rw_pc = p(0 := Reading []), rw_last = [7]\<rparr>"
  show "(rwm_step 2)\<^sup>*\<^sup>* ?s
     \<lparr>rw_ctrl = \<lparr>readers = 0, writers = 1\<rparr>, rw_buf = [7], rw_pc = p(0 := Writing [9] 0), rw_last = [7]\<rparr>"
    using rwm_step.try_write [of 0 2 ?s "[9]" "\<lparr>readers = 0, writers = 1\<rparr>"]
    by (simp add: cas_write_def p_def r_into_rtranclp)
  have "rwm_step 2 ?s ?r"
    using rwm_step.read_begin [of 0 2 ?s "\<lparr>readers = 1, writers = 0\<rparr>"]
    by (simp add: try_read_begin_def p_def)
  moreover have "rwm_step 2 ?r (?r\<lparr>rw_pc := p(0 := Reading [7])\<rparr>)"
    using rwm_step.read_byte [of 0 2 ?r "[]"] by simp
  ultimately show "(rwm_step 2)\<^sup>*\<^sup>* ?s
     \<lparr>rw_ctrl = \<lparr>readers = 1, writers = 0\<rparr>, rw_buf = [7], rw_pc = p(0 := Reading [7]), rw_last = [7]\<rparr>"
    by (simp add: converse_rtranclp_into_rtranclp r_into_rtranclp)
qed

section \<open>The object in memory\<close>

lemma rwm_fields_ctrl [simp]:
  "rwm_size (st_rwm m a c) a = rwm_size m a" "rwm_buffer (st_rwm m a c) a = rwm_buffer m a"
  unfolding rwm_size_def rwm_buffer_def
  using span_disjoint_offsets [of 0 4 4 4 a] span_disjoint_offsets [of 0 4 8 8 a]
  by (auto intro!: cell_be32.ld_unchanged [where B = "span a 4"] cell_be64.ld_unchanged [where B = "span a 4"]
      cell_rwm.st_outside)

lemma rwm_fields_memcpy:
  assumes "span a 16 \<inter> span d k = {}"
  shows "ld_rwm (vm_memcpy m d s k) a = ld_rwm m a" "rwm_size (vm_memcpy m d s k) a = rwm_size m a"
    "rwm_buffer (vm_memcpy m d s k) a = rwm_buffer m a"
proof -
  have "span a 4 \<subseteq> span a 16" "span (a + 4) 4 \<subseteq> span a 16" "span (a + 8) 8 \<subseteq> span a 16"
    by (rule span_mono, simp) (rule span_shift, simp)+
  then show "ld_rwm (vm_memcpy m d s k) a = ld_rwm m a" "rwm_size (vm_memcpy m d s k) a = rwm_size m a"
      "rwm_buffer (vm_memcpy m d s k) a = rwm_buffer m a"
    unfolding rwm_size_def rwm_buffer_def using assms
    by (auto intro!: cell_rwm.ld_unchanged [where B = "span d k"] cell_be32.ld_unchanged [where B = "span d k"]
        cell_be64.ld_unchanged [where B = "span d k"] vm_memcpy_outside)
qed

lemma vm_bytes_st_rwm:
  assumes "span a 16 \<inter> span b k = {}"
  shows "vm_bytes (st_rwm m a c) b k = vm_bytes m b k"
  using assms span_mono [of 4 16 a] by (intro vm_bytes_cong cell_rwm.st_outside) auto

lemma rwm_write_alone:
  assumes "rwm \<noteq> 0" "src \<noteq> 0" "vm_aligned rwm 16" and "ld_rwm m rwm = \<lparr>readers = 0, writers = 0\<rparr>"
    and "rwm_buffer m rwm = ucast p"
  shows "cellSyncRwmWrite es1 es2 id id rwm src m =
    Ret CELL_OK (st_rwm (vm_memcpy (st_rwm m rwm \<lparr>readers = 0, writers = 1\<rparr>) p src (unat (rwm_size m rwm)))
      rwm \<lparr>readers = 0, writers = 0\<rparr>)"
  using assms
  by (simp add: cellSyncRwmWrite_def rwm_attempt_def atomic_op_def try_write_begin_def
      spin_until_unblocked spin_then_def rwm_copy_in_def cell_rwm.ld_st)

lemma rwm_read_alone:
  assumes "rwm \<noteq> 0" "dst \<noteq> 0" "vm_aligned rwm 16" and "ld_rwm m rwm = \<lparr>readers = 0, writers = 0\<rparr>"
    and "rwm_buffer m rwm = ucast p" and "span rwm 16 \<inter> span dst (unat (rwm_size m rwm)) = {}"
  shows "cellSyncRwmRead es id id rwm dst m =
    Ret CELL_OK (st_rwm (vm_memcpy (st_rwm m rwm \<lparr>readers = 1, writers = 0\<rparr>) dst p (unat (rwm_size m rwm)))
      rwm \<lparr>readers = 0, writers = 0\<rparr>)"
  using assms
  by (simp add: cellSyncRwmRead_def rwm_attempt_def atomic_op_def try_read_begin_def try_read_end_def
      spin_until_unblocked spin_then_def rwm_copy_out_def cell_rwm.ld_st rwm_fields_memcpy)

text \<open>
  What \<^verbatim>\<open>cellSyncRwmWrite\<close> stored, \<^verbatim>\<open>cellSyncRwmRead\<close> delivers: on an idle object
  whose buffer, descriptor and the caller's buffers do not overlap, both calls return
  \<^verbatim>\<open>CELL_OK\<close>, the destination holds the source bytes and the object is idle again.
\<close>

theorem rwm_write_then_read:
  assumes "rwm \<noteq> 0" "src \<noteq> 0" "dst \<noteq> 0" "vm_aligned rwm 16"
    and idle: "ld_rwm m rwm = \<lparr>readers = 0, writers = 0\<rparr>" and p: "rwm_buffer m rwm = ucast p"
    and k: "unat (rwm_size m rwm) = k"
    and disj: "span rwm 16 \<inter> span src k = {}" "span rwm 16 \<inter> span p k = {}" "span rwm 16 \<inter> span dst k = {}"
  shows "\<exists>m1 m2. cellSyncRwmWrite es1 es2 id id rwm src m = Ret CELL_OK m1 \<and>
    cellSyncRwmRead es3 id id rwm dst m1 = Ret CELL_OK m2 \<and>
    vm_bytes m2 dst k = vm_bytes m src k \<and> ld_rwm m2 rwm = \<lparr>readers = 0, writers = 0\<rparr>"
proof -
  have k32: "k \<le> 2 ^ 32" using unat_u32 [of "rwm_size m rwm"] k by simp
  let ?m1 = "st_rwm (vm_memcpy (st_rwm m rwm \<lparr>readers = 0, writers = 1\<rparr>) p src k) rwm \<lparr>readers = 0, writers = 0\<rparr>"
  let ?m2 = "st_rwm (vm_memcpy (st_rwm ?m1 rwm \<lparr>readers = 1, writers = 0\<rparr>) dst p k) rwm \<lparr>readers = 0, writers = 0\<rparr>"
  have w: "cellSyncRwmWrite es1 es2 id id rwm src m = Ret CELL_OK ?m1"
    using rwm_write_alone [OF assms(1,2,4) idle p] k by simp
  have f: "rwm_size ?m1 rwm = rwm_size m rwm" "rwm_buffer ?m1 rwm = ucast p"
    using p disj(2) by (simp_all add: rwm_fields_memcpy)
  have "cellSyncRwmRead es3 id id rwm dst ?m1 = Ret CELL_OK ?m2"
    using rwm_read_alone [OF assms(1,3,4) cell_rwm.ld_st f(2)] f(1) k disj(3) by simp
  moreover have "vm_bytes ?m2 dst k = vm_bytes m src k"
    using disj k32 by (simp add: vm_bytes_st_rwm vm_bytes_memcpy)
  ultimately show ?thesis using w by (metis cell_rwm.ld_st)
qed

theorem rwm_write_then_read_witness:
  "\<exists>m m1 m2. cellSyncRwmWrite [] [] id id 0x100 0x400 m = Ret CELL_OK m1 \<and>
     cellSyncRwmRead [] id id 0x100 0x600 m1 = Ret CELL_OK m2 \<and> vm_bytes m2 0x600 128 = vm_bytes m 0x400 128 \<and>
     rwm_size m 0x100 = 128"
proof -
  let ?m = "st_be64 (st_be32 (\<lambda>_. 0) 0x104 128) 0x108 0x800"
  have sz: "rwm_size ?m 0x100 = 128"
    unfolding rwm_size_def
    using cell_be32.ld_unchanged [of "span 0x108 8" ?m "st_be32 (\<lambda>_. 0) 0x104 128" "0x104"]
      span_disjoint_offsets [of 0 4 4 8 "0x104"] cell_be64.st_outside cell_be32.ld_st
    by simp
  have idle: "ld_rwm ?m 0x100 = \<lparr>readers = 0, writers = 0\<rparr>"
  proof -
    have "ld_rwm ?m 0x100 = ld_rwm (\<lambda>_. 0) 0x100"
    proof (rule cell_rwm.ld_cong)
      fix x :: addr assume "x \<in> span 0x100 4"
      then have "x \<notin> span 0x108 8" "x \<notin> span 0x104 4"
        using span_disjoint_offsets [of 0 4 4 4 "0x100"] span_disjoint_offsets [of 0 4 8 8 "0x100"] by auto
      then show "?m x = 0" by (simp add: cell_be64.st_outside cell_be32.st_outside)
    qed
    then show ?thesis by (simp add: ld_rwm_def ld_be16_def ld_u8_def word_cat_eq)
  qed
  have p: "rwm_buffer ?m 0x100 = ucast (0x800 :: addr)"
    unfolding rwm_buffer_def using cell_be64.ld_st by simp
  have d: "span 0x100 16 \<inter> span 0x400 128 = {}" "span 0x100 16 \<inter> span 0x800 128 = {}"
      "span 0x100 16 \<inter> span 0x600 128 = {}"
    using span_disjoint_offsets [of "0x100" 16 "0x400" 128 0] span_disjoint_offsets [of "0x100" 16 "0x800" 128 0]
      span_disjoint_offsets [of "0x100" 16 "0x600" 128 0] by simp_all
  obtain m1 m2 where "cellSyncRwmWrite [] [] id id 0x100 0x400 ?m = Ret CELL_OK m1"
      "cellSyncRwmRead [] id id 0x100 0x600 m1 = Ret CELL_OK m2" "vm_bytes m2 0x600 128 = vm_bytes ?m 0x400 128"
    using rwm_write_then_read [of "0x100" "0x400" "0x600" ?m "0x800" 128 "[]" "[]" "[]", OF _ _ _ _ idle p _ d] sz
    by (auto simp: vm_aligned_def)
  with sz show ?thesis by blast
qed

text \<open>
  C6: Readers and writers exclude each other: with fewer than \<open>65536\<close> threads, in every reachable
  state a thread that is writing the buffer is the only one that reads or writes it.
\<close>

theorem rwm_writer_exclusive:
  assumes "n < 65536" and "rwm_init s" and "(rwm_step n)\<^sup>*\<^sup>* s t"
    and "i < n" "is_writing (rw_pc t i)" and "j < n" "j \<noteq> i"
  shows "\<not> is_reading (rw_pc t j) \<and> \<not> is_writing (rw_pc t j)"
proof -
  have inv: "rwm_inv n t" using assms(1-3) by (rule rwm_reachable)
  have "readers (rw_ctrl t) = 0"
    using rwm_invD(1) [OF inv assms(4)] assms(5) by (cases "rw_pc t i") (simp_all add: rwm_pc_ok_def)
  then show ?thesis
    using rwm_no_readers [OF inv _ assms(6)] rwm_other_writer [OF inv assms(4) _ assms(6,7)]
      assms(5) is_writing_owns by blast
qed

theorem rwm_writer_exclusive_witness:
  "\<exists>s t. rwm_init s \<and> (rwm_step 2)\<^sup>*\<^sup>* s t \<and> is_writing (rw_pc t 0) \<and>
     \<not> is_reading (rw_pc t 1) \<and> \<not> is_writing (rw_pc t 1)"
proof -
  let ?s = "\<lparr>rw_ctrl = \<lparr>readers = 0, writers = 0\<rparr>, rw_buf = [7], rw_pc = \<lambda>_. RwIdle, rw_last = [7]\<rparr>"
  let ?t = "\<lparr>rw_ctrl = \<lparr>readers = 0, writers = 1\<rparr>, rw_buf = [7], rw_pc = (\<lambda>_. RwIdle)(0 := Writing [9] 0), rw_last = [7]\<rparr>"
  have init: "rwm_init ?s" by (simp add: rwm_init_def)
  from rwm_writer_exclusive [OF _ init rwm_example_run(1), of 0 1] init rwm_example_run(1)
  show ?thesis by (intro exI [of _ ?s] exI [of _ ?t] conjI) simp_all
qed

text \<open>
  C7: No torn reads: although the copies proceed byte by byte and interleave with every other
  thread, a reader that has copied the whole buffer has exactly the data of the last
  completed write, and its release of the control word succeeds (it never returns
  \<^verbatim>\<open>CELL_SYNC_ERROR_ABORT\<close>).
\<close>

theorem rwm_reads_last_write:
  assumes "n < 65536" and "rwm_init s" and "(rwm_step n)\<^sup>*\<^sup>* s t"
    and "i < n" "rw_pc t i = Reading bs" "length bs = length (rw_buf t)"
  shows "bs = rw_last t \<and> fst (try_read_end (rw_ctrl t))"
proof -
  have inv: "rwm_inv n t" using assms(1-3) by (rule rwm_reachable)
  have r: "readers (rw_ctrl t) \<noteq> 0" using rwm_invD(2) [OF inv assms(4)] assms(5) by simp
  then have "\<not> is_writing (rw_pc t j)" if "j < n" for j
    using rwm_invD(1) [OF inv that] by (cases "rw_pc t j") (simp_all add: rwm_pc_ok_def)
  then have "rw_buf t = rw_last t" using inv by (simp add: rwm_inv_def)
  moreover have "bs = take (length bs) (rw_buf t)"
    using rwm_invD(1) [OF inv assms(4)] unfolding assms(5) rwm_pc_ok_def rwm_pc.case .
  ultimately show ?thesis using r assms(6) by (simp add: try_read_end_def)
qed

theorem rwm_reads_last_write_witness:
  "\<exists>s t. rwm_init s \<and> (rwm_step 2)\<^sup>*\<^sup>* s t \<and> rw_pc t 0 = Reading [7] \<and>
     rw_last t = [7] \<and> fst (try_read_end (rw_ctrl t))"
proof -
  let ?s = "\<lparr>rw_ctrl = \<lparr>readers = 0, writers = 0\<rparr>, rw_buf = [7], rw_pc = \<lambda>_. RwIdle, rw_last = [7]\<rparr>"
  let ?t = "\<lparr>rw_ctrl = \<lparr>readers = 1, writers = 0\<rparr>, rw_buf = [7], rw_pc = (\<lambda>_. RwIdle)(0 := Reading [7]), rw_last = [7]\<rparr>"
  have init: "rwm_init ?s" by (simp add: rwm_init_def)
  from rwm_reads_last_write [OF _ init rwm_example_run(2), of 0 "[7]"] init rwm_example_run(2)
  show ?thesis by (intro exI [of _ ?s] exI [of _ ?t] conjI) simp_all
qed

end
