(* ===== verification/Sync_Queue.thy ===== *)
theory Sync_Queue
  imports Sync_Base
begin

text \<open>
  The bounded queue \<^verbatim>\<open>CellSyncQueue\<close>: a ring buffer of \<open>depth\<close> entries of
  \<open>size\<close> bytes. The control double word packs the next write position, the number of
  entries and one flag each for a push and a pop in progress.
\<close>

section \<open>The control double word and its operations\<close>

text \<open>The bit fields of the two big-endian words: 24 low bits and 8 high bits each.\<close>

record queue_ctrl =
  qnext :: "24 word"
  qpop :: u8
  qcount :: "24 word"
  qpush :: u8

definition ld_queue :: "vmem \<Rightarrow> addr \<Rightarrow> queue_ctrl" where
  "ld_queue m a =
     (case (word_split (ld_be32 m a), word_split (ld_be32 m (a + 4))) of
        ((p, n), (q, c)) \<Rightarrow> \<lparr>qnext = n, qpop = p, qcount = c, qpush = q\<rparr>)"

definition st_queue :: "vmem \<Rightarrow> addr \<Rightarrow> queue_ctrl \<Rightarrow> vmem" where
  "st_queue m a c =
     st_be32 (st_be32 m a (word_cat (qpop c) (qnext c))) (a + 4) (word_cat (qpush c) (qcount c))"

definition queue_zero :: queue_ctrl where
  "queue_zero = \<lparr>qnext = 0, qpop = 0, qcount = 0, qpush = 0\<rparr>"

definition try_push_begin :: "u32 \<Rightarrow> queue_ctrl \<Rightarrow> u32 option \<times> queue_ctrl" where
  "try_push_begin depth c =
     (let count = ucast (qcount c) in
      if qpush c \<noteq> 0 \<or> count + ucast (qpop c) \<ge> depth then (None, c)
      else let position = ucast (qnext c) in
        (Some position,
         c\<lparr>qnext := ucast (if position + 1 \<noteq> depth then position + 1 else 0),
           qcount := ucast (count + 1), qpush := 1\<rparr>))"

definition push_end :: "queue_ctrl \<Rightarrow> unit \<times> queue_ctrl" where
  "push_end c = ((), c\<lparr>qpush := 0\<rparr>)"

definition try_pop_begin :: "u32 \<Rightarrow> queue_ctrl \<Rightarrow> u32 option \<times> queue_ctrl" where
  "try_pop_begin depth c =
     (let count = ucast (qcount c) in
      if qpop c \<noteq> 0 \<or> count \<le> ucast (qpush c) then (None, c)
      else (Some (ucast (qnext c) + depth - count),
            c\<lparr>qpop := 1, qcount := ucast (count - 1)\<rparr>))"

definition try_peek_begin :: "u32 \<Rightarrow> queue_ctrl \<Rightarrow> u32 option \<times> queue_ctrl" where
  "try_peek_begin depth c =
     (let count = ucast (qcount c) in
      if qpop c \<noteq> 0 \<or> count \<le> ucast (qpush c) then (None, c)
      else (Some (ucast (qnext c) + depth - count), c\<lparr>qpop := 1\<rparr>))"

definition pop_end :: "queue_ctrl \<Rightarrow> unit \<times> queue_ctrl" where
  "pop_end c = ((), c\<lparr>qpop := 0\<rparr>)"

definition try_clear_begin_1 :: "queue_ctrl \<Rightarrow> unit option \<times> queue_ctrl" where
  "try_clear_begin_1 c = (if qpop c \<noteq> 0 then (None, c) else (Some (), c\<lparr>qpop := 1\<rparr>))"

definition try_clear_begin_2 :: "queue_ctrl \<Rightarrow> unit option \<times> queue_ctrl" where
  "try_clear_begin_2 c = (if qpush c \<noteq> 0 then (None, c) else (Some (), c\<lparr>qpush := 1\<rparr>))"

definition queue_size :: "vmem \<Rightarrow> addr \<Rightarrow> u32" where
  "queue_size m queue = ld_be32 m (queue + 8)"

definition queue_depth :: "vmem \<Rightarrow> addr \<Rightarrow> u32" where
  "queue_depth m queue = ld_be32 m (queue + 12)"

definition queue_buffer :: "vmem \<Rightarrow> addr \<Rightarrow> u64" where
  "queue_buffer m queue = ld_be64 m (queue + 16)"

text \<open>\<open>None\<close> is the exception \<^verbatim>\<open>Invalid queue pointers\<close>.\<close>

definition check_depth :: "vmem \<Rightarrow> addr \<Rightarrow> u32 option" where
  "check_depth m queue =
     (let c = ld_queue m queue; depth = queue_depth m queue in
      if ucast (qnext c) > depth \<or> ucast (qcount c) > depth then None else Some depth)"

section \<open>The library functions\<close>

text \<open>
  \<open>g0\<close>, \<open>g1\<close> and \<open>g2\<close> are what the other threads do to memory after
  \<open>check_depth\<close>, before the copy and after it.
\<close>

type_synonym gap = "vmem \<Rightarrow> vmem"

definition queue_args_error :: "addr \<Rightarrow> addr \<Rightarrow> CellSyncError option" where
  "queue_args_error queue buffer =
     (if queue = 0 \<or> buffer = 0 then Some CELL_SYNC_ERROR_NULL_POINTER
      else if \<not> vm_aligned queue 32 then Some CELL_SYNC_ERROR_ALIGN else None)"

definition cellSyncQueueInitialize :: "addr \<Rightarrow> addr \<Rightarrow> u32 \<Rightarrow> u32 \<Rightarrow> vmem \<Rightarrow> api" where
  "cellSyncQueueInitialize queue buffer sz depth m =
     (if queue = 0 then Ret (sync_err CELL_SYNC_ERROR_NULL_POINTER) m
      else if sz \<noteq> 0 \<and> buffer = 0 then Ret (sync_err CELL_SYNC_ERROR_NULL_POINTER) m
      else if \<not> vm_aligned queue 32 \<or> \<not> vm_aligned buffer 16 then Ret (sync_err CELL_SYNC_ERROR_ALIGN) m
      else if depth = 0 \<or> sz mod 16 \<noteq> 0 then Ret (sync_err CELL_SYNC_ERROR_INVAL) m
      else
        let m1 = st_queue m queue queue_zero;
            m2 = st_be32 m1 (queue + 8) sz;
            m3 = st_be32 m2 (queue + 12) depth;
            m4 = st_be64 m3 (queue + 16) (ucast buffer)
        in Ret CELL_OK m4)"

text \<open>The copy at \<^verbatim>\<open>&queue->buffer[index * queue->size]\<close> and the end of the operation.\<close>

definition queue_copy_in :: "gap \<Rightarrow> gap \<Rightarrow> addr \<Rightarrow> addr \<Rightarrow> u32 \<Rightarrow> vmem \<Rightarrow> api" where
  "queue_copy_in g1 g2 queue buffer position m =
     (let m1 = g1 m in
      case vm_cast (queue_buffer m1 queue) of
        None \<Rightarrow> Throw m1
      | Some p \<Rightarrow>
          let m2 = vm_memcpy m1 (p + position * queue_size m1 queue) buffer (unat (queue_size m1 queue)) in
          Ret CELL_OK (snd (atomic_op ld_queue st_queue push_end queue (g2 m2))))"

definition queue_copy_out :: "gap \<Rightarrow> gap \<Rightarrow> addr \<Rightarrow> addr \<Rightarrow> u32 \<Rightarrow> u32 \<Rightarrow> vmem \<Rightarrow> api" where
  "queue_copy_out g1 g2 queue buffer depth position m =
     (let m1 = g1 m in
      case vm_cast (queue_buffer m1 queue) of
        None \<Rightarrow> Throw m1
      | Some p \<Rightarrow>
          let m2 = vm_memcpy m1 buffer (p + position mod depth * queue_size m1 queue)
                     (unat (queue_size m1 queue)) in
          Ret CELL_OK (snd (atomic_op ld_queue st_queue pop_end queue (g2 m2))))"

definition cellSyncQueuePush :: "gap \<Rightarrow> env \<Rightarrow> gap \<Rightarrow> gap \<Rightarrow> addr \<Rightarrow> addr \<Rightarrow> vmem \<Rightarrow> api" where
  "cellSyncQueuePush g0 es g1 g2 queue buffer m =
     (case queue_args_error queue buffer of Some e \<Rightarrow> Ret (sync_err e) m | None \<Rightarrow>
      case check_depth m queue of None \<Rightarrow> Throw m | Some depth \<Rightarrow>
        spin_then (spin_until (atomic_op ld_queue st_queue (try_push_begin depth) queue) es (g0 m))
          (\<lambda>position m1. queue_copy_in g1 g2 queue buffer position m1))"

definition cellSyncQueueTryPush :: "gap \<Rightarrow> gap \<Rightarrow> gap \<Rightarrow> addr \<Rightarrow> addr \<Rightarrow> vmem \<Rightarrow> api" where
  "cellSyncQueueTryPush g0 g1 g2 queue buffer m =
     (case queue_args_error queue buffer of Some e \<Rightarrow> Ret (sync_err e) m | None \<Rightarrow>
      case check_depth m queue of None \<Rightarrow> Throw m | Some depth \<Rightarrow>
        case atomic_op ld_queue st_queue (try_push_begin depth) queue (g0 m) of
          (None, m1) \<Rightarrow> Ret (sync_err CELL_SYNC_ERROR_BUSY) m1
        | (Some position, m1) \<Rightarrow> queue_copy_in g1 g2 queue buffer position m1)"

definition cellSyncQueuePop :: "gap \<Rightarrow> env \<Rightarrow> gap \<Rightarrow> gap \<Rightarrow> addr \<Rightarrow> addr \<Rightarrow> vmem \<Rightarrow> api" where
  "cellSyncQueuePop g0 es g1 g2 queue buffer m =
     (case queue_args_error queue buffer of Some e \<Rightarrow> Ret (sync_err e) m | None \<Rightarrow>
      case check_depth m queue of None \<Rightarrow> Throw m | Some depth \<Rightarrow>
        spin_then (spin_until (atomic_op ld_queue st_queue (try_pop_begin depth) queue) es (g0 m))
          (\<lambda>position m1. queue_copy_out g1 g2 queue buffer depth position m1))"

definition cellSyncQueueTryPop :: "gap \<Rightarrow> gap \<Rightarrow> gap \<Rightarrow> addr \<Rightarrow> addr \<Rightarrow> vmem \<Rightarrow> api" where
  "cellSyncQueueTryPop g0 g1 g2 queue buffer m =
     (case queue_args_error queue buffer of Some e \<Rightarrow> Ret (sync_err e) m | None \<Rightarrow>
      case check_depth m queue of None \<Rightarrow> Throw m | Some depth \<Rightarrow>
        case atomic_op ld_queue st_queue (try_pop_begin depth) queue (g0 m) of
          (None, m1) \<Rightarrow> Ret (sync_err CELL_SYNC_ERROR_BUSY) m1
        | (Some position, m1) \<Rightarrow> queue_copy_out g1 g2 queue buffer depth position m1)"

definition cellSyncQueuePeek :: "gap \<Rightarrow> env \<Rightarrow> gap \<Rightarrow> gap \<Rightarrow> addr \<Rightarrow> addr \<Rightarrow> vmem \<Rightarrow> api" where
  "cellSyncQueuePeek g0 es g1 g2 queue buffer m =
     (case queue_args_error queue buffer of Some e \<Rightarrow> Ret (sync_err e) m | None \<Rightarrow>
      case check_depth m queue of None \<Rightarrow> Throw m | Some depth \<Rightarrow>
        spin_then (spin_until (atomic_op ld_queue st_queue (try_peek_begin depth) queue) es (g0 m))
          (\<lambda>position m1. queue_copy_out g1 g2 queue buffer depth position m1))"

definition cellSyncQueueTryPeek :: "gap \<Rightarrow> gap \<Rightarrow> gap \<Rightarrow> addr \<Rightarrow> addr \<Rightarrow> vmem \<Rightarrow> api" where
  "cellSyncQueueTryPeek g0 g1 g2 queue buffer m =
     (case queue_args_error queue buffer of Some e \<Rightarrow> Ret (sync_err e) m | None \<Rightarrow>
      case check_depth m queue of None \<Rightarrow> Throw m | Some depth \<Rightarrow>
        case atomic_op ld_queue st_queue (try_peek_begin depth) queue (g0 m) of
          (None, m1) \<Rightarrow> Ret (sync_err CELL_SYNC_ERROR_BUSY) m1
        | (Some position, m1) \<Rightarrow> queue_copy_out g1 g2 queue buffer depth position m1)"

definition cellSyncQueueSize :: "gap \<Rightarrow> addr \<Rightarrow> vmem \<Rightarrow> api" where
  "cellSyncQueueSize g0 queue m =
     (if queue = 0 then Ret (sync_err CELL_SYNC_ERROR_NULL_POINTER) m
      else if \<not> vm_aligned queue 32 then Ret (sync_err CELL_SYNC_ERROR_ALIGN) m
      else case check_depth m queue of None \<Rightarrow> Throw m
        | Some _ \<Rightarrow> Ret (ucast (qcount (ld_queue (g0 m) queue)) AND 0xFFFFFF) (g0 m))"

definition cellSyncQueueClear :: "gap \<Rightarrow> env \<Rightarrow> gap \<Rightarrow> env \<Rightarrow> gap \<Rightarrow> addr \<Rightarrow> vmem \<Rightarrow> api" where
  "cellSyncQueueClear g0 es1 g1 es2 g2 queue m =
     (if queue = 0 then Ret (sync_err CELL_SYNC_ERROR_NULL_POINTER) m
      else if \<not> vm_aligned queue 32 then Ret (sync_err CELL_SYNC_ERROR_ALIGN) m
      else case check_depth m queue of None \<Rightarrow> Throw m
        | Some _ \<Rightarrow>
          spin_then (spin_until (atomic_op ld_queue st_queue try_clear_begin_1 queue) es1 (g0 m))
            (\<lambda>_ m1. spin_then (spin_until (atomic_op ld_queue st_queue try_clear_begin_2 queue) es2 (g1 m1))
               (\<lambda>_ m2. Ret CELL_OK (st_queue (g2 m2) queue queue_zero))))"

text \<open>The object that \<^verbatim>\<open>cellSyncQueueInitialize\<close> lays out.\<close>

definition queue_object :: "vmem \<Rightarrow> addr \<Rightarrow> queue_ctrl \<Rightarrow> u32 \<Rightarrow> u32 \<Rightarrow> u64 \<Rightarrow> vmem" where
  "queue_object m queue c sz depth buffer =
     st_be64 (st_be32 (st_be32 (st_queue m queue c) (queue + 8) sz) (queue + 12) depth) (queue + 16) buffer"

section \<open>Several threads on one queue\<close>

text \<open>
  Every atomic operation on the control word is one step and so is the copy of an entry
  between it and the caller's buffer. \<open>q_log\<close> records the copies and the completed pushes
  and clears in the order they happen. A thread stopped while it waits for the pusher in
  \<^verbatim>\<open>cellSyncQueueClear\<close> leaves the pop flag set (\<open>QHalted\<close>).
\<close>

datatype 'a queue_pc =
    QIdle | Pushing u32 'a | Pushed 'a | Popping u32 | Peeking u32 | Copied | ClearWait | Clearing | QHalted

datatype 'a queue_event = EvPush 'a | EvPop 'a | EvPeek 'a | EvClear

record 'a queue_sys =
  q_ctrl :: queue_ctrl
  q_buf :: "nat \<Rightarrow> 'a"
  q_pc :: "nat \<Rightarrow> 'a queue_pc"
  q_log :: "'a queue_event list"

inductive queue_step :: "u32 \<Rightarrow> 'a queue_sys \<Rightarrow> 'a queue_sys \<Rightarrow> bool" for d where
  do_push_begin: "q_pc s i = QIdle \<Longrightarrow> try_push_begin d (q_ctrl s) = (Some pos, c) \<Longrightarrow>
     queue_step d s (s\<lparr>q_ctrl := c, q_pc := (q_pc s)(i := Pushing pos v)\<rparr>)"
| do_push_copy: "q_pc s i = Pushing pos v \<Longrightarrow>
     queue_step d s (s\<lparr>q_buf := (q_buf s)(unat pos := v), q_pc := (q_pc s)(i := Pushed v)\<rparr>)"
| do_push_end: "q_pc s i = Pushed v \<Longrightarrow> push_end (q_ctrl s) = (u, c) \<Longrightarrow>
     queue_step d s (s\<lparr>q_ctrl := c, q_pc := (q_pc s)(i := QIdle), q_log := q_log s @ [EvPush v]\<rparr>)"
| do_pop_begin: "q_pc s i = QIdle \<Longrightarrow> try_pop_begin d (q_ctrl s) = (Some pos, c) \<Longrightarrow>
     queue_step d s (s\<lparr>q_ctrl := c, q_pc := (q_pc s)(i := Popping pos)\<rparr>)"
| do_pop_copy: "q_pc s i = Popping pos \<Longrightarrow>
     queue_step d s (s\<lparr>q_pc := (q_pc s)(i := Copied), q_log := q_log s @ [EvPop (q_buf s (unat (pos mod d)))]\<rparr>)"
| do_peek_begin: "q_pc s i = QIdle \<Longrightarrow> try_peek_begin d (q_ctrl s) = (Some pos, c) \<Longrightarrow>
     queue_step d s (s\<lparr>q_ctrl := c, q_pc := (q_pc s)(i := Peeking pos)\<rparr>)"
| do_peek_copy: "q_pc s i = Peeking pos \<Longrightarrow>
     queue_step d s (s\<lparr>q_pc := (q_pc s)(i := Copied), q_log := q_log s @ [EvPeek (q_buf s (unat (pos mod d)))]\<rparr>)"
| do_pop_end: "q_pc s i = Copied \<Longrightarrow> pop_end (q_ctrl s) = (u, c) \<Longrightarrow>
     queue_step d s (s\<lparr>q_ctrl := c, q_pc := (q_pc s)(i := QIdle)\<rparr>)"
| do_clear_1: "q_pc s i = QIdle \<Longrightarrow> try_clear_begin_1 (q_ctrl s) = (Some w, c) \<Longrightarrow>
     queue_step d s (s\<lparr>q_ctrl := c, q_pc := (q_pc s)(i := ClearWait)\<rparr>)"
| do_clear_stop: "q_pc s i = ClearWait \<Longrightarrow> try_clear_begin_2 (q_ctrl s) = (None, c) \<Longrightarrow>
     queue_step d s (s\<lparr>q_ctrl := c, q_pc := (q_pc s)(i := QHalted)\<rparr>)"
| do_clear_2: "q_pc s i = ClearWait \<Longrightarrow> try_clear_begin_2 (q_ctrl s) = (Some w, c) \<Longrightarrow>
     queue_step d s (s\<lparr>q_ctrl := c, q_pc := (q_pc s)(i := Clearing)\<rparr>)"
| do_clear_end: "q_pc s i = Clearing \<Longrightarrow>
     queue_step d s (s\<lparr>q_ctrl := queue_zero, q_pc := (q_pc s)(i := QIdle), q_log := q_log s @ [EvClear]\<rparr>)"

definition queue_init :: "'a queue_sys \<Rightarrow> bool" where
  "queue_init s \<longleftrightarrow> q_ctrl s = queue_zero \<and> (\<forall>i. q_pc s i = QIdle) \<and> q_log s = []"

text \<open>The contract: what a log of events does to an unbounded first-in-first-out queue.\<close>

fun fifo_event :: "'a queue_event \<Rightarrow> 'a list \<Rightarrow> 'a list option" where
  "fifo_event (EvPush v) xs = Some (xs @ [v])"
| "fifo_event (EvPop v) (x # xs) = (if v = x then Some xs else None)"
| "fifo_event (EvPop v) [] = None"
| "fifo_event (EvPeek v) (x # xs) = (if v = x then Some (x # xs) else None)"
| "fifo_event (EvPeek v) [] = None"
| "fifo_event EvClear xs = Some []"

fun fifo_replay :: "'a queue_event list \<Rightarrow> 'a list \<Rightarrow> 'a list option" where
  "fifo_replay [] xs = Some xs"
| "fifo_replay (e # es) xs = Option.bind (fifo_event e xs) (fifo_replay es)"

fun holds_push :: "'a queue_pc \<Rightarrow> bool" where
  "holds_push (Pushing pos v) = True"
| "holds_push (Pushed v) = True"
| "holds_push Clearing = True"
| "holds_push _ = False"

fun holds_pop :: "'a queue_pc \<Rightarrow> bool" where
  "holds_pop (Popping pos) = True"
| "holds_pop (Peeking pos) = True"
| "holds_pop Copied = True"
| "holds_pop ClearWait = True"
| "holds_pop Clearing = True"
| "holds_pop QHalted = True"
| "holds_pop _ = False"

fun is_pushing :: "'a queue_pc \<Rightarrow> bool" where
  "is_pushing (Pushing pos v) = True"
| "is_pushing (Pushed v) = True"
| "is_pushing _ = False"

fun is_popping :: "'a queue_pc \<Rightarrow> bool" where
  "is_popping (Popping pos) = True"
| "is_popping _ = False"

definition exclusive :: "('p \<Rightarrow> bool) \<Rightarrow> (nat \<Rightarrow> 'p) \<Rightarrow> bool" where
  "exclusive P f \<longleftrightarrow> (\<forall>i j. P (f i) \<longrightarrow> P (f j) \<longrightarrow> i = j)"

text \<open>Entries in the ring: counted ones and the one a pop has uncounted but not copied yet.\<close>

definition in_ring :: "'a queue_sys \<Rightarrow> nat" where
  "in_ring s = unat (qcount (q_ctrl s)) + (if \<exists>i. is_popping (q_pc s i) then 1 else 0)"

definition complete :: "'a queue_sys \<Rightarrow> nat" where
  "complete s = in_ring s - (if \<exists>i. is_pushing (q_pc s i) then 1 else 0)"

definition ring_slot :: "nat \<Rightarrow> nat \<Rightarrow> nat \<Rightarrow> nat \<Rightarrow> nat" where
  "ring_slot d next tot k = (next + (d - tot) + k) mod d"

definition ring_list :: "(nat \<Rightarrow> 'a) \<Rightarrow> nat \<Rightarrow> nat \<Rightarrow> nat \<Rightarrow> nat \<Rightarrow> 'a list" where
  "ring_list buf d next tot len = map (\<lambda>k. buf (ring_slot d next tot k)) [0..<len]"

definition queue_abs :: "u32 \<Rightarrow> 'a queue_sys \<Rightarrow> 'a list" where
  "queue_abs d s = ring_list (q_buf s) (unat d) (unat (qnext (q_ctrl s))) (in_ring s) (complete s)"

definition queue_pc_ok :: "u32 \<Rightarrow> 'a queue_sys \<Rightarrow> 'a queue_pc \<Rightarrow> bool" where
  "queue_pc_ok d s p =
     (let nx = unat (qnext (q_ctrl s)); slot = ring_slot (unat d) nx (in_ring s) in
      case p of
        Pushing pos v \<Rightarrow> 0 < in_ring s \<and> unat pos = slot (in_ring s - 1)
      | Pushed v \<Rightarrow> 0 < in_ring s \<and> q_buf s (slot (in_ring s - 1)) = v
      | Popping pos \<Rightarrow> 0 < complete s \<and> unat (pos mod d) = slot 0
      | Peeking pos \<Rightarrow> 0 < complete s \<and> unat (pos mod d) = slot 0
      | _ \<Rightarrow> True)"

definition queue_inv :: "u32 \<Rightarrow> 'a queue_sys \<Rightarrow> bool" where
  "queue_inv d s \<longleftrightarrow>
     unat (qnext (q_ctrl s)) < unat d \<and>
     in_ring s \<le> unat d \<and>
     ((\<exists>i. is_pushing (q_pc s i)) \<longrightarrow> 0 < unat (qcount (q_ctrl s))) \<and>
     exclusive holds_push (q_pc s) \<and> exclusive holds_pop (q_pc s) \<and>
     qpush (q_ctrl s) = (if \<exists>i. holds_push (q_pc s i) then 1 else 0) \<and>
     qpop (q_ctrl s) = (if \<exists>i. holds_pop (q_pc s i) then 1 else 0) \<and>
     (\<forall>i. queue_pc_ok d s (q_pc s i)) \<and>
     fifo_replay (q_log s) [] = Some (queue_abs d s)"

text \<open>The depths the bit fields can count: the others are mapped to depth one below.\<close>

definition small_depth :: "u32 \<Rightarrow> u32" where
  "small_depth d = (if d \<noteq> 0 \<and> unat d < 2 ^ 24 then d else 1)"

section \<open>Ring arithmetic\<close>

lemma ring_slot_advance:
  assumes "nx < d" and "tot < d"
  shows "ring_slot d (if nx + 1 = d then 0 else nx + 1) (tot + 1) k = ring_slot d nx tot k"
proof -
  have "(if nx + 1 = d then 0 else nx + 1) = (nx + 1) mod d" using assms by simp
  then have "ring_slot d (if nx + 1 = d then 0 else nx + 1) (tot + 1) k =
      (nx + 1 + (d - (tot + 1) + k)) mod d"
    by (simp only: ring_slot_def add.assoc mod_add_left_eq)
  also have "nx + 1 + (d - (tot + 1) + k) = nx + (d - tot) + k" using assms by simp
  finally show ?thesis by (simp add: ring_slot_def)
qed

lemma ring_slot_drop:
  "0 < tot \<Longrightarrow> tot \<le> d \<Longrightarrow> ring_slot d nx (tot - 1) k = ring_slot d nx tot (Suc k)"
proof -
  assume "0 < tot" "tot \<le> d"
  then have "nx + (d - (tot - 1)) + k = nx + (d - tot) + Suc k" by simp
  then show ?thesis by (simp only: ring_slot_def)
qed

lemma mod_add_inj:
  assumes "(a + j) mod d = (a + k) mod d" and "j < d" and "k < (d :: nat)"
  shows "j = k"
proof -
  have "int (a + j) mod int d = int (a + k) mod int d" using assms(1) by (metis zmod_int)
  then have "int d dvd int j - int k" by (simp add: mod_eq_dvd_iff)
  then show ?thesis
    using assms(2,3) zdvd_not_zless [of "int j - int k" "int d"] zdvd_not_zless [of "int k - int j" "int d"]
    by (cases j k rule: linorder_cases) (auto simp: dvd_diff_commute)
qed

lemma ring_slot_inj: "ring_slot d nx tot j = ring_slot d nx tot k \<Longrightarrow> j < d \<Longrightarrow> k < d \<Longrightarrow> j = k"
  unfolding ring_slot_def by (rule mod_add_inj)

lemma length_ring_list [simp]: "length (ring_list buf d nx tot len) = len"
  by (simp add: ring_list_def)

lemma ring_list_advance:
  "nx < d \<Longrightarrow> tot < d \<Longrightarrow>
   ring_list buf d (if nx + 1 = d then 0 else nx + 1) (tot + 1) len = ring_list buf d nx tot len"
  by (simp only: ring_list_def ring_slot_advance)

lemma ring_list_write:
  assumes "len \<le> k" and "k < d"
  shows "ring_list (buf(ring_slot d nx tot k := v)) d nx tot len = ring_list buf d nx tot len"
proof -
  have "ring_slot d nx tot x \<noteq> ring_slot d nx tot k" if "x < len" for x
    using ring_slot_inj [of d nx tot x k] that assms by auto
  then show ?thesis by (simp add: ring_list_def)
qed

lemma ring_list_snoc:
  "ring_list buf d nx tot (Suc len) = ring_list buf d nx tot len @ [buf (ring_slot d nx tot len)]"
  by (simp add: ring_list_def)

lemma ring_list_Cons:
  assumes "0 < tot" "tot \<le> d" "0 < len"
  shows "ring_list buf d nx tot len = buf (ring_slot d nx tot 0) # ring_list buf d nx (tot - 1) (len - 1)"
proof -
  obtain l where l: "len = Suc l" using assms(3) by (cases len) auto
  have "ring_list buf d nx tot (Suc l) =
      buf (ring_slot d nx tot 0) # map (\<lambda>k. buf (ring_slot d nx tot (Suc k))) [0..<l]"
    by (simp add: ring_list_def upt_conv_Cons map_Suc_upt [symmetric] del: upt_Suc)
  also have "map (\<lambda>k. buf (ring_slot d nx tot (Suc k))) [0..<l] = ring_list buf d nx (tot - 1) l"
    by (simp only: ring_list_def ring_slot_drop [OF assms(1,2)])
  finally show ?thesis using l by simp
qed

section \<open>The operations as numbers\<close>

lemma unat_ucast_up24: "unat (ucast (c :: 24 word) :: u32) = unat c"
  using unat_bound [of c] by (simp add: unsigned_ucast_eq take_bit_nat_eq_self)

lemma unat_ucast_up8: "unat (ucast (c :: u8) :: u32) = unat c"
  using unat_bound [of c] by (simp add: unsigned_ucast_eq take_bit_nat_eq_self)

lemma unat_ucast_down24: "unat (x :: u32) < 2 ^ 24 \<Longrightarrow> unat (ucast x :: 24 word) = unat x"
  by (simp add: unsigned_ucast_eq take_bit_nat_eq_self)

lemma unat_u24: "unat (c :: 24 word) < 16777216"
  using unat_bound [of c] by simp

lemma try_push_begin_Some:
  assumes "try_push_begin d c = (Some pos, c')" and d: "unat d < 2 ^ 24"
    and nx: "unat (qnext c) < unat d" and ct: "unat (qcount c) \<le> unat d"
  shows "qpush c = 0" "unat (qcount c) + unat (qpop c) < unat d" "unat pos = unat (qnext c)"
    "unat (qnext c') = (if unat (qnext c) + 1 = unat d then 0 else unat (qnext c) + 1)"
    "unat (qcount c') = unat (qcount c) + 1" "qpush c' = 1" "qpop c' = qpop c"
proof -
  let ?n = "ucast (qnext c) :: u32" and ?k = "ucast (qcount c) :: u32"
  have n1: "unat (?n + 1) = unat (qnext c) + 1"
    using nx d by (subst unat_add_small) (simp_all add: unat_ucast_up24)
  have k1: "unat (?k + 1) = unat (qcount c) + 1"
    using ct d by (subst unat_add_small) (simp_all add: unat_ucast_up24)
  have kp: "unat (?k + ucast (qpop c)) = unat (qcount c) + unat (qpop c)"
    using ct d unat_bound [of "qpop c"] by (subst unat_add_small) (simp_all add: unat_ucast_up24 unat_ucast_up8)
  have g: "qpush c = 0" "\<not> ?k + ucast (qpop c) \<ge> d" "pos = ?n"
    "c' = c\<lparr>qnext := ucast (if ?n + 1 \<noteq> d then ?n + 1 else 0), qcount := ucast (?k + 1), qpush := 1\<rparr>"
    using assms(1) by (auto simp: try_push_begin_def Let_def split: if_splits)
  show "qpush c = 0" "unat pos = unat (qnext c)" "qpush c' = 1" "qpop c' = qpop c"
    using g by (simp_all add: unat_ucast_up24)
  show lt: "unat (qcount c) + unat (qpop c) < unat d"
    using g(2) kp by (simp add: word_le_nat_alt)
  show "unat (qcount c') = unat (qcount c) + 1"
    using g(4) k1 lt d by (simp add: unat_ucast_down24)
  have "?n + 1 = d \<longleftrightarrow> unat (qnext c) + 1 = unat d"
    using n1 by (simp add: word_unat_eq_iff)
  then show "unat (qnext c') = (if unat (qnext c) + 1 = unat d then 0 else unat (qnext c) + 1)"
    using g(4) n1 nx d by (simp add: unat_ucast_down24)
qed

lemma pop_position:
  fixes d :: u32
  assumes d: "unat d < 2 ^ 24" and nx: "unat (qnext c) < unat d" and ct: "unat (qcount c) \<le> unat d"
  shows "unat ((ucast (qnext c) + d - ucast (qcount c)) mod d :: u32) =
    ring_slot (unat d) (unat (qnext c)) (unat (qcount c)) 0"
proof -
  have a: "unat (ucast (qnext c) + d :: u32) = unat (qnext c) + unat d"
    using nx d by (subst unat_add_small) (simp_all add: unat_ucast_up24)
  have "unat (ucast (qnext c) + d - ucast (qcount c)) = unat (qnext c) + unat d - unat (qcount c)"
    using a ct by (subst unat_sub) (simp_all add: word_le_nat_alt unat_ucast_up24)
  then show ?thesis using ct by (simp add: unat_mod ring_slot_def)
qed

lemma try_pop_begin_Some:
  assumes "try_pop_begin d c = (Some pos, c')"
  shows "qpop c = 0" "unat (qpush c) < unat (qcount c)" "pos = ucast (qnext c) + d - ucast (qcount c)"
    "unat (qcount c') = unat (qcount c) - 1" "qnext c' = qnext c" "qpush c' = qpush c" "qpop c' = 1"
proof -
  let ?k = "ucast (qcount c) :: u32"
  have g: "qpop c = 0" "\<not> ?k \<le> ucast (qpush c)" "pos = ucast (qnext c) + d - ?k"
    "c' = c\<lparr>qpop := 1, qcount := ucast (?k - 1)\<rparr>"
    using assms by (auto simp: try_pop_begin_def Let_def split: if_splits)
  show lt: "unat (qpush c) < unat (qcount c)"
    using g(2) by (simp add: word_le_nat_alt unat_ucast_up24 unat_ucast_up8)
  then have "?k \<noteq> 0" using unat_ucast_up24 [of "qcount c"] by (auto simp: unat_eq_zero)
  then have "unat (?k - 1) = unat (qcount c) - 1" by (simp add: unat_minus_one unat_ucast_up24)
  then show "unat (qcount c') = unat (qcount c) - 1"
    using g(4) unat_u24 [of "qcount c"] by (simp add: unat_ucast_down24)
qed (use assms in \<open>auto simp: try_pop_begin_def Let_def split: if_splits\<close>)

lemma try_peek_begin_Some:
  assumes "try_peek_begin d c = (Some pos, c')"
  shows "qpop c = 0" "unat (qpush c) < unat (qcount c)" "pos = ucast (qnext c) + d - ucast (qcount c)"
    "c' = c\<lparr>qpop := 1\<rparr>"
  using assms
  by (auto simp: try_peek_begin_def Let_def word_le_nat_alt unat_ucast_up24 unat_ucast_up8 split: if_splits)

section \<open>Holders of the flags\<close>

lemma holder_keep:
  "Q p = Q (f i) \<Longrightarrow> (\<exists>j. Q ((f(i := p)) j)) \<longleftrightarrow> (\<exists>j. Q (f j))"
  by (metis fun_upd_other fun_upd_same)

lemma exclusive_keep: "exclusive P f \<Longrightarrow> P p = P (f i) \<Longrightarrow> exclusive P (f(i := p))"
  by (auto simp: exclusive_def)

lemma holder_change:
  assumes "exclusive P f" and "P (f i) \<or> \<not> (\<exists>j. P (f j))" and "\<And>x. Q x \<Longrightarrow> P x"
  shows "(\<exists>j. Q ((f(i := p)) j)) \<longleftrightarrow> Q p"
  using assms unfolding exclusive_def by (metis fun_upd_other fun_upd_same)

lemma exclusive_change:
  assumes "exclusive P f" and "P (f i) \<or> \<not> (\<exists>j. P (f j))"
  shows "exclusive P (f(i := p))"
  using assms unfolding exclusive_def by (metis fun_upd_other)

lemma pushing_holds: "is_pushing x \<Longrightarrow> holds_push x"
  by (cases x) simp_all

lemma popping_holds: "is_popping x \<Longrightarrow> holds_pop x"
  by (cases x) simp_all

lemma queue_invD:
  assumes "queue_inv d s"
  shows "unat (qnext (q_ctrl s)) < unat d" "in_ring s \<le> unat d"
    "(\<exists>i. is_pushing (q_pc s i)) \<Longrightarrow> 0 < unat (qcount (q_ctrl s))"
    "exclusive holds_push (q_pc s)" "exclusive holds_pop (q_pc s)"
    "qpush (q_ctrl s) = (if \<exists>i. holds_push (q_pc s i) then 1 else 0)"
    "qpop (q_ctrl s) = (if \<exists>i. holds_pop (q_pc s i) then 1 else 0)"
    "queue_pc_ok d s (q_pc s i)" "fifo_replay (q_log s) [] = Some (queue_abs d s)"
  using assms unfolding queue_inv_def by blast+

lemma queue_count_le:
  assumes "queue_inv d s"
  shows "unat (qcount (q_ctrl s)) \<le> unat d"
  using queue_invD(2) [OF assms] by (simp add: in_ring_def)

lemma fifo_replay_append:
  "fifo_replay (es @ fs) xs = Option.bind (fifo_replay es xs) (fifo_replay fs)"
  by (induction es xs rule: fifo_replay.induct) (auto split: bind_split)

text \<open>Steps that leave the ring alone: only the flags and the program counter change.\<close>

lemma queue_quiet:
  assumes "q_pc t = (q_pc s)(i := p)" and "qnext (q_ctrl t) = qnext (q_ctrl s)"
    and "qcount (q_ctrl t) = qcount (q_ctrl s)" and "q_buf t = q_buf s"
    and "is_pushing p = is_pushing (q_pc s i)" and "is_popping p = is_popping (q_pc s i)"
  shows "in_ring t = in_ring s" "complete t = complete s" "queue_abs d t = queue_abs d s"
    "queue_pc_ok d t x = queue_pc_ok d s x"
    "(\<exists>j. is_pushing (q_pc t j)) \<longleftrightarrow> (\<exists>j. is_pushing (q_pc s j))"
proof -
  show e: "(\<exists>j. is_pushing (q_pc t j)) \<longleftrightarrow> (\<exists>j. is_pushing (q_pc s j))"
    unfolding assms(1) by (rule holder_keep) (rule assms)
  have "(\<exists>j. is_popping (q_pc t j)) \<longleftrightarrow> (\<exists>j. is_popping (q_pc s j))"
    unfolding assms(1) by (rule holder_keep) (rule assms)
  then show r: "in_ring t = in_ring s" using assms by (simp add: in_ring_def)
  then show c: "complete t = complete s" using e by (simp add: complete_def)
  show "queue_abs d t = queue_abs d s" using assms r c by (simp add: queue_abs_def)
  show "queue_pc_ok d t x = queue_pc_ok d s x"
    using assms r c by (simp add: queue_pc_ok_def cong: queue_pc.case_cong)
qed

lemma queue_quiet_inv:
  assumes inv: "queue_inv d s"
    and t: "q_pc t = (q_pc s)(i := p)" "qnext (q_ctrl t) = qnext (q_ctrl s)"
      "qcount (q_ctrl t) = qcount (q_ctrl s)" "q_buf t = q_buf s"
    and p: "is_pushing p = is_pushing (q_pc s i)" "is_popping p = is_popping (q_pc s i)"
    and hpush: "holds_push p = holds_push (q_pc s i) \<and> qpush (q_ctrl t) = qpush (q_ctrl s) \<or>
      (holds_push (q_pc s i) \<or> qpush (q_ctrl s) = 0) \<and> qpush (q_ctrl t) = (if holds_push p then 1 else 0)"
    and hpop: "holds_pop p = holds_pop (q_pc s i) \<and> qpop (q_ctrl t) = qpop (q_ctrl s) \<or>
      (holds_pop (q_pc s i) \<or> qpop (q_ctrl s) = 0) \<and> qpop (q_ctrl t) = (if holds_pop p then 1 else 0)"
    and ok: "queue_pc_ok d s p" and log: "fifo_replay (q_log t) [] = Some (queue_abs d s)"
  shows "queue_inv d t"
proof -
  note q = queue_quiet [OF t p]
  note D = queue_invD [OF inv]
  have push: "exclusive holds_push (q_pc t) \<and> qpush (q_ctrl t) = (if \<exists>i. holds_push (q_pc t i) then 1 else 0)"
    using hpush
  proof
    assume "holds_push p = holds_push (q_pc s i) \<and> qpush (q_ctrl t) = qpush (q_ctrl s)"
    then show ?thesis unfolding t(1)
      using exclusive_keep [OF D(4)] holder_keep [of holds_push p "q_pc s" i] D(6) by simp
  next
    assume *: "(holds_push (q_pc s i) \<or> qpush (q_ctrl s) = 0) \<and> qpush (q_ctrl t) = (if holds_push p then 1 else 0)"
    then have "holds_push (q_pc s i) \<or> \<not> (\<exists>j. holds_push (q_pc s j))"
      using D(6) by (auto split: if_splits)
    from exclusive_change [OF D(4) this] holder_change [OF D(4) this, of holds_push] * show ?thesis
      unfolding t(1) by simp
  qed
  have pop: "exclusive holds_pop (q_pc t) \<and> qpop (q_ctrl t) = (if \<exists>i. holds_pop (q_pc t i) then 1 else 0)"
    using hpop
  proof
    assume "holds_pop p = holds_pop (q_pc s i) \<and> qpop (q_ctrl t) = qpop (q_ctrl s)"
    then show ?thesis unfolding t(1)
      using exclusive_keep [OF D(5)] holder_keep [of holds_pop p "q_pc s" i] D(7) by simp
  next
    assume *: "(holds_pop (q_pc s i) \<or> qpop (q_ctrl s) = 0) \<and> qpop (q_ctrl t) = (if holds_pop p then 1 else 0)"
    then have "holds_pop (q_pc s i) \<or> \<not> (\<exists>j. holds_pop (q_pc s j))"
      using D(7) by (auto split: if_splits)
    from exclusive_change [OF D(5) this] holder_change [OF D(5) this, of holds_pop] * show ?thesis
      unfolding t(1) by simp
  qed
  have "queue_pc_ok d t (q_pc t j)" for j
    using q(4) ok D(8) by (cases "j = i") (simp_all add: t(1))
  then show ?thesis
    unfolding queue_inv_def using push pop q D log t by simp
qed

section \<open>The steps that move entries\<close>

lemma queue_push_begin_inv:
  assumes d: "unat d < 2 ^ 24" and inv: "queue_inv d s" and i: "q_pc s i = QIdle"
    and op: "try_push_begin d (q_ctrl s) = (Some pos, c)"
    and t: "t = s\<lparr>q_ctrl := c, q_pc := (q_pc s)(i := Pushing pos v)\<rparr>"
  shows "queue_inv d t"
proof -
  note D = queue_invD [OF inv]
  note o = try_push_begin_Some [OF op d D(1) queue_count_le [OF inv]]
  have none: "\<not> (\<exists>j. holds_push (q_pc s j))" using o(1) D(6) by (auto split: if_splits)
  then have nop: "\<not> (\<exists>j. is_pushing (q_pc s j))" using pushing_holds by blast
  have pc: "q_pc t = (q_pc s)(i := Pushing pos v)" by (simp add: t)
  have E: "\<exists>j. is_pushing (q_pc t j)" "\<exists>j. holds_push (q_pc t j)"
    unfolding pc by (rule exI [of _ i], simp)+
  have O: "(\<exists>j. is_popping (q_pc t j)) \<longleftrightarrow> (\<exists>j. is_popping (q_pc s j))"
      "(\<exists>j. holds_pop (q_pc t j)) \<longleftrightarrow> (\<exists>j. holds_pop (q_pc s j))"
    unfolding pc by (rule holder_keep, simp add: i)+
  have le: "in_ring s \<le> unat (qcount (q_ctrl s)) + unat (qpop (q_ctrl s))"
    using D(7) popping_holds by (auto simp: in_ring_def)
  have r: "in_ring t = in_ring s + 1" using O o(5) by (simp add: in_ring_def t)
  have cs: "complete s = in_ring s" using nop by (simp add: complete_def)
  have ct: "complete t = in_ring s" using E(1) r by (simp add: complete_def)
  have lt: "in_ring s < unat d" using le o(2) by linarith
  have adv: "ring_slot (unat d) (unat (qnext c)) (in_ring t) = ring_slot (unat d) (unat (qnext (q_ctrl s))) (in_ring s)"
      "ring_list (q_buf s) (unat d) (unat (qnext c)) (in_ring t) =
       ring_list (q_buf s) (unat d) (unat (qnext (q_ctrl s))) (in_ring s)"
    unfolding o(4) r by (rule ext, rule ring_slot_advance [OF D(1) lt]) (rule ext, rule ring_list_advance [OF D(1) lt])
  have ok: "queue_pc_ok d t (q_pc t j)" for j
  proof (cases "j = i")
    case True
    have "ring_slot (unat d) (unat (qnext (q_ctrl s))) (in_ring s) (in_ring s) = unat (qnext (q_ctrl s))"
      using lt D(1) by (simp add: ring_slot_def)
    then show ?thesis using True o(3) r adv(1) by (simp add: queue_pc_ok_def Let_def t)
  next
    case False
    then have "queue_pc_ok d s (q_pc s j)" "\<not> is_pushing (q_pc s j)" using D(8) nop by auto
    then show ?thesis using False r cs ct adv(1)
      by (cases "q_pc s j") (simp_all add: queue_pc_ok_def Let_def t)
  qed
  have "queue_abs d t = queue_abs d s"
    using cs ct adv(2) by (simp add: queue_abs_def t)
  moreover have "exclusive holds_push (q_pc t)"
    unfolding pc by (rule exclusive_change [OF D(4)]) (use none in simp)
  moreover have "exclusive holds_pop (q_pc t)"
    unfolding pc by (rule exclusive_keep [OF D(5)]) (simp add: i)
  moreover have "unat (qnext (q_ctrl t)) < unat d" using o(4) D(1) by (simp add: t)
  ultimately show ?thesis
    unfolding queue_inv_def using ok E O o D(7,9) lt r by (simp add: t)
qed

lemma queue_push_copy_inv:
  assumes inv: "queue_inv d s" and i: "q_pc s i = Pushing pos v"
    and t: "t = s\<lparr>q_buf := (q_buf s)(unat pos := v), q_pc := (q_pc s)(i := Pushed v)\<rparr>"
  shows "queue_inv d t"
proof -
  note D = queue_invD [OF inv]
  have pc: "q_pc t = (q_pc s)(i := Pushed v)" by (simp add: t)
  have E: "(\<exists>j. is_pushing (q_pc t j)) \<longleftrightarrow> (\<exists>j. is_pushing (q_pc s j))"
      "(\<exists>j. holds_push (q_pc t j)) \<longleftrightarrow> (\<exists>j. holds_push (q_pc s j))"
      "(\<exists>j. is_popping (q_pc t j)) \<longleftrightarrow> (\<exists>j. is_popping (q_pc s j))"
      "(\<exists>j. holds_pop (q_pc t j)) \<longleftrightarrow> (\<exists>j. holds_pop (q_pc s j))"
    unfolding pc by (rule holder_keep, simp add: i)+
  have r: "in_ring t = in_ring s" "complete t = complete s" using E by (simp_all add: in_ring_def complete_def t)
  have some: "\<exists>j. is_pushing (q_pc s j)" by (rule exI [of _ i]) (simp add: i)
  then have c: "complete s = in_ring s - 1" by (auto simp: complete_def)
  have pos: "0 < in_ring s" "unat pos = ring_slot (unat d) (unat (qnext (q_ctrl s))) (in_ring s) (in_ring s - 1)"
    using D(8) [of i] by (simp_all add: queue_pc_ok_def Let_def i)
  have lt: "in_ring s - 1 < unat d" using D(2) pos(1) by linarith
  have ok: "queue_pc_ok d t (q_pc t j)" for j
  proof (cases "j = i")
    case True
    then show ?thesis using pos r by (simp add: queue_pc_ok_def Let_def t)
  next
    case False
    then have "\<not> is_pushing (q_pc s j)"
      using D(4) i pushing_holds unfolding exclusive_def by (metis holds_push.simps(1))
    then show ?thesis using False D(8) [of j] r
      by (cases "q_pc s j") (simp_all add: queue_pc_ok_def Let_def t)
  qed
  have "queue_abs d t = queue_abs d s"
    using ring_list_write [of "complete s" "in_ring s - 1" "unat d"] c lt pos r by (simp add: queue_abs_def t)
  moreover have "exclusive holds_push (q_pc t)" "exclusive holds_pop (q_pc t)"
    unfolding pc by (rule exclusive_keep [OF D(4)], simp add: i) (rule exclusive_keep [OF D(5)], simp add: i)
  ultimately show ?thesis
    unfolding queue_inv_def using ok E D r by (simp add: t)
qed

lemma queue_push_end_inv:
  assumes inv: "queue_inv d s" and i: "q_pc s i = Pushed v"
    and t: "t = s\<lparr>q_ctrl := (q_ctrl s)\<lparr>qpush := 0\<rparr>, q_pc := (q_pc s)(i := QIdle), q_log := q_log s @ [EvPush v]\<rparr>"
  shows "queue_inv d t"
proof -
  note D = queue_invD [OF inv]
  have pc: "q_pc t = (q_pc s)(i := QIdle)" by (simp add: t)
  have h: "holds_push (q_pc s i) \<or> \<not> (\<exists>j. holds_push (q_pc s j))" by (simp add: i)
  have "(\<exists>j. is_pushing (q_pc t j)) \<longleftrightarrow> is_pushing (q_pc t i)"
    unfolding pc fun_upd_same by (rule holder_change [OF D(4) h]) (rule pushing_holds)
  moreover have "(\<exists>j. holds_push (q_pc t j)) \<longleftrightarrow> holds_push (q_pc t i)"
    unfolding pc fun_upd_same by (rule holder_change [OF D(4) h])
  ultimately have E: "\<not> (\<exists>j. is_pushing (q_pc t j))" "\<not> (\<exists>j. holds_push (q_pc t j))"
    by (simp_all only: pc fun_upd_same is_pushing.simps holds_push.simps not_False_eq_True)
  have O: "(\<exists>j. is_popping (q_pc t j)) \<longleftrightarrow> (\<exists>j. is_popping (q_pc s j))"
      "(\<exists>j. holds_pop (q_pc t j)) \<longleftrightarrow> (\<exists>j. holds_pop (q_pc s j))"
    unfolding pc by (rule holder_keep, simp add: i)+
  have some: "\<exists>j. is_pushing (q_pc s j)" by (rule exI [of _ i]) (simp add: i)
  have last: "0 < in_ring s" "q_buf s (ring_slot (unat d) (unat (qnext (q_ctrl s))) (in_ring s) (in_ring s - 1)) = v"
    using D(8) [of i] by (simp_all add: queue_pc_ok_def Let_def i)
  have r: "in_ring t = in_ring s" using O by (simp add: in_ring_def t)
  have c: "complete t = Suc (complete s)" "complete s = in_ring s - 1"
    using some E(1) r last(1) by (auto simp: complete_def)
  have ok: "queue_pc_ok d t (q_pc t j)" for j
  proof (cases "j = i")
    case False
    then have "\<not> is_pushing (q_pc s j)" using E(1) pc by (metis fun_upd_other)
    then show ?thesis using False D(8) [of j] r c
      by (cases "q_pc s j") (simp_all add: queue_pc_ok_def Let_def t)
  qed (simp add: queue_pc_ok_def t)
  have "queue_abs d t = queue_abs d s @ [v]"
    unfolding queue_abs_def r c(1) using last(2) c(2) by (simp add: t ring_list_snoc)
  then have "fifo_replay (q_log t) [] = Some (queue_abs d t)"
    using D(9) by (simp add: t fifo_replay_append)
  moreover have "exclusive holds_push (q_pc t)" "exclusive holds_pop (q_pc t)"
    unfolding pc by (rule exclusive_change [OF D(4) h]) (rule exclusive_keep [OF D(5)], simp add: i)
  ultimately show ?thesis
    unfolding queue_inv_def using ok E O D r by (simp add: t)
qed

lemma queue_pop_begin_inv:
  assumes d: "unat d < 2 ^ 24" and inv: "queue_inv d s" and i: "q_pc s i = QIdle"
    and op: "try_pop_begin d (q_ctrl s) = (Some pos, c)"
    and t: "t = s\<lparr>q_ctrl := c, q_pc := (q_pc s)(i := Popping pos)\<rparr>"
  shows "queue_inv d t"
proof -
  note D = queue_invD [OF inv]
  note o = try_pop_begin_Some [OF op]
  have none: "\<not> (\<exists>j. holds_pop (q_pc s j))" using o(1) D(7) by (auto split: if_splits)
  then have nop: "\<not> (\<exists>j. is_popping (q_pc s j))" using popping_holds by blast
  have pc: "q_pc t = (q_pc s)(i := Popping pos)" by (simp add: t)
  have O: "\<exists>j. is_popping (q_pc t j)" "\<exists>j. holds_pop (q_pc t j)"
    unfolding pc by (rule exI [of _ i], simp)+
  have E: "(\<exists>j. is_pushing (q_pc t j)) \<longleftrightarrow> (\<exists>j. is_pushing (q_pc s j))"
      "(\<exists>j. holds_push (q_pc t j)) \<longleftrightarrow> (\<exists>j. holds_push (q_pc s j))"
    unfolding pc by (rule holder_keep, simp add: i)+
  have r: "in_ring t = in_ring s" "in_ring s = unat (qcount (q_ctrl s))"
    using O(1) nop o(2,4) by (simp_all add: in_ring_def t)
  have c: "complete t = complete s" using E(1) r by (simp add: complete_def)
  have pushing: "unat (qpush (q_ctrl s)) = 1" if "\<exists>j. is_pushing (q_pc s j)"
    using that D(6) pushing_holds by auto
  have c0: "0 < complete s"
    using o(2) r(2) pushing by (cases "\<exists>j. is_pushing (q_pc s j)") (simp_all add: complete_def)
  have ok: "queue_pc_ok d t (q_pc t j)" for j
  proof (cases "j = i")
    case True
    then show ?thesis
      using pop_position [OF d D(1)] queue_count_le [OF inv] o(3,5) r c c0 by (simp add: queue_pc_ok_def Let_def t)
  next
    case False
    then have "queue_pc_ok d s (q_pc s j)" using D(8) by auto
    then show ?thesis using False r(1) c o(5)
      by (cases "q_pc s j") (simp_all add: queue_pc_ok_def Let_def t)
  qed
  have "queue_abs d t = queue_abs d s" using r(1) c o(5) by (simp add: queue_abs_def t)
  moreover have "exclusive holds_push (q_pc t)" "exclusive holds_pop (q_pc t)"
    unfolding pc by (rule exclusive_keep [OF D(4)], simp add: i) (rule exclusive_change [OF D(5)], use none in simp)
  moreover have "0 < unat (qcount c)" if "\<exists>j. is_pushing (q_pc s j)"
    using pushing [OF that] o(2,4) by simp
  ultimately show ?thesis
    unfolding queue_inv_def using ok E O o D r(1) by (simp add: t)
qed

lemma queue_pop_copy_inv:
  assumes inv: "queue_inv d s" and i: "q_pc s i = Popping pos"
    and t: "t = s\<lparr>q_pc := (q_pc s)(i := Copied), q_log := q_log s @ [EvPop (q_buf s (unat (pos mod d)))]\<rparr>"
  shows "queue_inv d t"
proof -
  note D = queue_invD [OF inv]
  have pc: "q_pc t = (q_pc s)(i := Copied)" by (simp add: t)
  have h: "holds_pop (q_pc s i) \<or> \<not> (\<exists>j. holds_pop (q_pc s j))" by (simp add: i)
  have "(\<exists>j. is_popping (q_pc t j)) \<longleftrightarrow> is_popping (q_pc t i)"
    unfolding pc fun_upd_same by (rule holder_change [OF D(5) h]) (rule popping_holds)
  then have O: "\<not> (\<exists>j. is_popping (q_pc t j))"
    by (simp only: pc fun_upd_same is_popping.simps not_False_eq_True)
  have E: "(\<exists>j. is_pushing (q_pc t j)) \<longleftrightarrow> (\<exists>j. is_pushing (q_pc s j))"
      "(\<exists>j. holds_push (q_pc t j)) \<longleftrightarrow> (\<exists>j. holds_push (q_pc s j))"
      "(\<exists>j. holds_pop (q_pc t j)) \<longleftrightarrow> (\<exists>j. holds_pop (q_pc s j))"
    unfolding pc by (rule holder_keep, simp add: i)+
  have some: "\<exists>j. is_popping (q_pc s j)" by (rule exI [of _ i]) (simp add: i)
  have r: "in_ring s = in_ring t + 1" using O some by (simp add: in_ring_def t)
  have c: "complete t = complete s - 1" using E(1) r by (simp add: complete_def)
  have first: "0 < complete s" "unat (pos mod d) = ring_slot (unat d) (unat (qnext (q_ctrl s))) (in_ring s) 0"
    using D(8) [of i] by (simp_all add: queue_pc_ok_def Let_def i)
  have le: "in_ring s \<le> unat d" by (rule D)
  have ring: "0 < in_ring s" using r by simp
  have "ring_list (q_buf s) (unat d) (unat (qnext (q_ctrl s))) (in_ring s) (complete s) =
      q_buf s (unat (pos mod d)) # ring_list (q_buf s) (unat d) (unat (qnext (q_ctrl s))) (in_ring t) (complete t)"
    using ring_list_Cons [OF ring le first(1)] first(2) r c by simp
  then have "queue_abs d s = q_buf s (unat (pos mod d)) # queue_abs d t"
    by (simp add: queue_abs_def t)
  then have log: "fifo_replay (q_log t) [] = Some (queue_abs d t)"
    using D(9) by (simp add: t fifo_replay_append)
  have slot: "ring_slot (unat d) nx (in_ring t) k = ring_slot (unat d) nx (in_ring s) (Suc k)" for nx k
    using ring_slot_drop [OF ring le] r by simp
  have ok: "queue_pc_ok d t (q_pc t j)" for j
  proof (cases "j = i")
    case False
    then have np: "\<not> holds_pop (q_pc s j)"
      using D(5) i unfolding exclusive_def by (metis holds_pop.simps(1))
    have "0 < in_ring t" if "is_pushing (q_pc s j)"
      using that D(3) O by (auto simp: in_ring_def t)
    moreover have "ring_slot (unat d) nx (in_ring t) (in_ring t - 1) = ring_slot (unat d) nx (in_ring s) (in_ring s - 1)"
      if "0 < in_ring t" for nx using slot [of nx "in_ring t - 1"] that r by simp
    moreover have "q_pc t j = q_pc s j" "q_ctrl t = q_ctrl s" "q_buf t = q_buf s" using False by (simp_all add: t)
    ultimately show ?thesis using D(8) [of j] np
      by (cases "q_pc s j") (simp_all add: queue_pc_ok_def Let_def)
  qed (simp add: queue_pc_ok_def t)
  have "exclusive holds_push (q_pc t)" "exclusive holds_pop (q_pc t)"
    unfolding pc by (rule exclusive_keep [OF D(4)], simp add: i) (rule exclusive_change [OF D(5) h])
  then show ?thesis
    unfolding queue_inv_def using ok E log D r by (simp add: t)
qed

lemma queue_clear_end_inv:
  assumes inv: "queue_inv d s" and d: "d \<noteq> 0" and i: "q_pc s i = Clearing"
    and t: "t = s\<lparr>q_ctrl := queue_zero, q_pc := (q_pc s)(i := QIdle), q_log := q_log s @ [EvClear]\<rparr>"
  shows "queue_inv d t"
proof -
  note D = queue_invD [OF inv]
  have none: "\<not> holds_push (q_pc t j)" "\<not> holds_pop (q_pc t j)" for j
    using D(4,5) i unfolding exclusive_def t by (cases "j = i"; simp; metis holds_push.simps(3) holds_pop.simps(5))+
  then have np: "\<not> is_pushing (q_pc t j)" "\<not> is_popping (q_pc t j)" for j
    using pushing_holds popping_holds by blast+
  then have r: "in_ring t = 0" "complete t = 0" by (simp_all add: in_ring_def complete_def t queue_zero_def)
  have "queue_pc_ok d t (q_pc t j)" for j
    using none [of j] by (cases "q_pc t j") (simp_all add: queue_pc_ok_def)
  moreover have "fifo_replay (q_log t) [] = Some (queue_abs d t)"
    using D(9) r by (simp add: t fifo_replay_append queue_abs_def ring_list_def)
  moreover have "unat d > 0" using d by (simp add: unat_gt_0)
  ultimately show ?thesis
    unfolding queue_inv_def using none np r by (simp add: exclusive_def) (simp add: t queue_zero_def)
qed

lemma queue_step_inv:
  assumes d: "unat d < 2 ^ 24" and d0: "d \<noteq> 0" and inv: "queue_inv d s" and step: "queue_step d s t"
  shows "queue_inv d t"
  using step
proof cases
  case (do_push_begin i pos c v)
  show ?thesis by (rule queue_push_begin_inv [OF d inv do_push_begin(2,3,1)])
next
  case (do_push_copy i pos v)
  show ?thesis by (rule queue_push_copy_inv [OF inv do_push_copy(2,1)])
next
  case (do_push_end i v u c)
  then have "c = (q_ctrl s)\<lparr>qpush := 0\<rparr>" by (simp add: push_end_def)
  then show ?thesis using queue_push_end_inv [OF inv do_push_end(2)] do_push_end(1) by simp
next
  case (do_pop_begin i pos c)
  show ?thesis by (rule queue_pop_begin_inv [OF d inv do_pop_begin(2,3,1)])
next
  case (do_pop_copy i pos)
  show ?thesis by (rule queue_pop_copy_inv [OF inv do_pop_copy(2,1)])
next
  case (do_peek_begin i pos c)
  note D = queue_invD [OF inv] and o = try_peek_begin_Some [OF do_peek_begin(3)]
  have none: "\<not> (\<exists>j. is_popping (q_pc s j))" using o(1) D(7) popping_holds by (auto split: if_splits)
  then have r: "in_ring s = unat (qcount (q_ctrl s))" by (simp add: in_ring_def)
  have "unat (qpush (q_ctrl s)) = 1" if "\<exists>j. is_pushing (q_pc s j)"
    using that D(6) pushing_holds by auto
  then have "0 < complete s"
    using o(2) r by (cases "\<exists>j. is_pushing (q_pc s j)") (simp_all add: complete_def)
  then have "queue_pc_ok d s (Peeking pos)"
    using pop_position [OF d D(1)] queue_count_le [OF inv] o(3) r by (simp add: queue_pc_ok_def)
  then show ?thesis using D(9) o do_peek_begin(2)
    by (intro queue_quiet_inv [OF inv, where p = "Peeking pos" and i = i]) (simp_all add: do_peek_begin(1))
next
  case (do_peek_copy i pos)
  note D = queue_invD [OF inv]
  have ok: "0 < complete s" "unat (pos mod d) = ring_slot (unat d) (unat (qnext (q_ctrl s))) (in_ring s) 0"
    using D(8) [of i] by (simp_all add: queue_pc_ok_def Let_def do_peek_copy(2))
  moreover have "0 < in_ring s" using ok(1) by (simp add: complete_def)
  ultimately have "\<exists>xs. queue_abs d s = q_buf s (unat (pos mod d)) # xs"
    using ring_list_Cons [of "in_ring s" "unat d" "complete s" "q_buf s"] D(2) by (simp add: queue_abs_def)
  then have "fifo_replay (q_log t) [] = Some (queue_abs d s)"
    using D(9) by (auto simp: do_peek_copy(1) fifo_replay_append)
  then show ?thesis using do_peek_copy(2)
    by (intro queue_quiet_inv [OF inv, where p = Copied and i = i])
      (simp_all add: do_peek_copy(1) queue_pc_ok_def)
next
  case (do_pop_end i u c)
  then show ?thesis using queue_invD(9) [OF inv]
    by (intro queue_quiet_inv [OF inv, where p = QIdle and i = i]) (auto simp: pop_end_def queue_pc_ok_def)
next
  case (do_clear_1 i w c)
  then show ?thesis using queue_invD(9) [OF inv]
    by (intro queue_quiet_inv [OF inv, where p = ClearWait and i = i])
      (auto simp: try_clear_begin_1_def queue_pc_ok_def split: if_splits)
next
  case (do_clear_stop i c)
  then show ?thesis using queue_invD(9) [OF inv]
    by (intro queue_quiet_inv [OF inv, where p = QHalted and i = i])
      (auto simp: try_clear_begin_2_def queue_pc_ok_def split: if_splits)
next
  case (do_clear_2 i w c)
  then show ?thesis using queue_invD(9) [OF inv]
    by (intro queue_quiet_inv [OF inv, where p = Clearing and i = i])
      (auto simp: try_clear_begin_2_def queue_pc_ok_def split: if_splits)
next
  case (do_clear_end i)
  show ?thesis by (rule queue_clear_end_inv [OF inv d0 do_clear_end(2,1)])
qed

interpretation queue: invariant_system queue_init "queue_step (small_depth d)" "queue_inv (small_depth d)" for d
proof
  fix s :: "'a queue_sys" assume "queue_init s"
  moreover have "0 < unat (small_depth d)" by (simp add: small_depth_def unat_gt_0)
  ultimately show "queue_inv (small_depth d) s"
    by (simp add: queue_init_def queue_inv_def queue_zero_def in_ring_def complete_def exclusive_def
        queue_pc_ok_def queue_abs_def ring_list_def)
next
  fix s t :: "'a queue_sys"
  assume "queue_inv (small_depth d) s" "queue_step (small_depth d) s t"
  then show "queue_inv (small_depth d) t"
    by (rule queue_step_inv [rotated 2]) (simp_all add: small_depth_def)
qed

lemma queue_reachable:
  assumes "d \<noteq> 0" and "unat d < 2 ^ 24" and "queue_init s" and "(queue_step d)\<^sup>*\<^sup>* s t"
  shows "queue_inv d t"
  using queue.reachable_inv [OF assms(3), of d t] assms by (simp add: small_depth_def)

lemma queue_example_run:
  fixes p b defines "p \<equiv> \<lambda>_ :: nat. QIdle"
    and "b \<equiv> \<lambda>_ :: nat. 0 :: nat"
  shows "(queue_step 2)\<^sup>*\<^sup>* \<lparr>q_ctrl = queue_zero, q_buf = b, q_pc = p, q_log = []\<rparr>
     \<lparr>q_ctrl = \<lparr>qnext = 0, qpop = 1, qcount = 1, qpush = 1\<rparr>, q_buf = b(0 := 7),
      q_pc = p(0 := Pushing 1 8, 1 := Popping 0), q_log = [EvPush 7]\<rparr>"
proof -
  let ?s0 = "\<lparr>q_ctrl = queue_zero, q_buf = b, q_pc = p, q_log = []\<rparr>"
  let ?c1 = "\<lparr>qnext = 1, qpop = 0, qcount = 1, qpush = 1\<rparr>"
  let ?s1 = "\<lparr>q_ctrl = ?c1, q_buf = b, q_pc = p(0 := Pushing 0 7), q_log = []\<rparr>"
  let ?s2 = "\<lparr>q_ctrl = ?c1, q_buf = b(0 := 7), q_pc = p(0 := Pushed 7), q_log = []\<rparr>"
  let ?s3 = "\<lparr>q_ctrl = ?c1\<lparr>qpush := 0\<rparr>, q_buf = b(0 := 7), q_pc = p, q_log = [EvPush 7]\<rparr>"
  let ?s4 = "\<lparr>q_ctrl = \<lparr>qnext = 0, qpop = 0, qcount = 2, qpush = 1\<rparr>, q_buf = b(0 := 7),
      q_pc = p(0 := Pushing 1 8), q_log = [EvPush 7]\<rparr>"
  let ?s5 = "\<lparr>q_ctrl = \<lparr>qnext = 0, qpop = 1, qcount = 1, qpush = 1\<rparr>, q_buf = b(0 := 7),
      q_pc = p(0 := Pushing 1 8, 1 := Popping 0), q_log = [EvPush 7]\<rparr>"
  have "queue_step 2 ?s0 ?s1"
    using queue_step.do_push_begin [of ?s0 0 2 0 ?c1 7]
    by (simp add: p_def try_push_begin_def queue_zero_def)
  moreover have "queue_step 2 ?s1 ?s2"
    using queue_step.do_push_copy [of ?s1 0 0 7 2] by simp
  moreover have "queue_step 2 ?s2 ?s3"
    using queue_step.do_push_end [of ?s2 0 7 "()" "?c1\<lparr>qpush := 0\<rparr>" 2]
    by (simp add: push_end_def) (simp add: p_def fun_upd_def)
  moreover have "queue_step 2 ?s3 ?s4"
    using queue_step.do_push_begin [of ?s3 0 2 1 "\<lparr>qnext = 0, qpop = 0, qcount = 2, qpush = 1\<rparr>" 8]
    by (simp add: p_def try_push_begin_def word_le_nat_alt)
  moreover have "queue_step 2 ?s4 ?s5"
    using queue_step.do_pop_begin [of ?s4 1 2 0 "\<lparr>qnext = 0, qpop = 1, qcount = 1, qpush = 1\<rparr>"]
    by (simp add: p_def try_pop_begin_def word_le_nat_alt)
  ultimately show ?thesis
    by (meson rtranclp.rtrancl_into_rtrancl rtranclp.rtrancl_refl)
qed

text \<open>
  C8: The queue is linearisable: for every depth the 24-bit fields can hold, whatever the
  threads do and however their operations interleave, the pushes, pops, peeks and clears
  in the order they took effect are a legal history of a first-in-first-out queue, and
  it never holds more than \<open>depth\<close> entries.
\<close>

theorem queue_linearisable:
  assumes "d \<noteq> 0" and "unat d < 2 ^ 24" and "queue_init s" and "(queue_step d)\<^sup>*\<^sup>* s t"
  shows "\<exists>xs. fifo_replay (q_log t) [] = Some xs \<and> length xs \<le> unat d"
proof -
  have inv: "queue_inv d t" using assms by (rule queue_reachable)
  have "complete t \<le> in_ring t" by (simp add: complete_def)
  then show ?thesis using queue_invD(2,9) [OF inv] by (simp add: queue_abs_def)
qed

theorem queue_linearisable_witness:
  "\<exists>s t. queue_init s \<and> (queue_step 2)\<^sup>*\<^sup>* s t \<and> q_log t = [EvPush (7 :: nat)] \<and>
     (\<exists>xs. fifo_replay (q_log t) [] = Some xs \<and> length xs \<le> 2)"
proof -
  let ?s = "\<lparr>q_ctrl = queue_zero, q_buf = \<lambda>_. 0, q_pc = \<lambda>_. QIdle, q_log = []\<rparr> :: nat queue_sys"
  have init: "queue_init ?s" by (simp add: queue_init_def)
  let ?t = "\<lparr>q_ctrl = \<lparr>qnext = 0, qpop = 1, qcount = 1, qpush = 1\<rparr>, q_buf = (\<lambda>_. 0)(0 := 7),
      q_pc = (\<lambda>_. QIdle)(0 := Pushing 1 8, 1 := Popping 0), q_log = [EvPush 7]\<rparr> :: nat queue_sys"
  have "\<exists>xs. fifo_replay (q_log ?t) [] = Some xs \<and> length xs \<le> unat (2 :: u32)"
    by (rule queue_linearisable [OF _ _ init queue_example_run]) simp_all
  then show ?thesis using init queue_example_run
    by (intro exI [of _ ?s] exI [of _ ?t] conjI) simp_all
qed

text \<open>
  C9: A push never overwrites the entry a pop or peek in progress is copying: the two threads work
  on different slots of the ring.
\<close>

theorem queue_push_pop_disjoint:
  assumes "d \<noteq> 0" and "unat d < 2 ^ 24" and "queue_init s" and "(queue_step d)\<^sup>*\<^sup>* s t"
    and push: "q_pc t i = Pushing pos v" and pop: "q_pc t j = Popping pos' \<or> q_pc t j = Peeking pos'"
  shows "unat pos \<noteq> unat (pos' mod d)"
proof -
  have inv: "queue_inv d t" using assms(1-4) by (rule queue_reachable)
  note D = queue_invD [OF inv]
  let ?slot = "ring_slot (unat d) (unat (qnext (q_ctrl t))) (in_ring t)"
  have p: "unat pos = ?slot (in_ring t - 1)" using D(8) [of i] push by (simp add: queue_pc_ok_def Let_def)
  have q: "unat (pos' mod d) = ?slot 0" "0 < complete t"
    using D(8) [of j] pop by (auto simp: queue_pc_ok_def Let_def)
  have "\<exists>k. is_pushing (q_pc t k)" by (rule exI [of _ i]) (simp add: push)
  then have "0 < in_ring t - 1" using q(2) by (auto simp: complete_def)
  moreover have "in_ring t - 1 < unat d" using D(2) calculation by linarith
  ultimately have "?slot (in_ring t - 1) \<noteq> ?slot 0"
    using ring_slot_inj [of "unat d" "unat (qnext (q_ctrl t))" "in_ring t" "in_ring t - 1" 0] by linarith
  then show ?thesis using p q(1) by simp
qed

theorem queue_push_pop_disjoint_witness:
  "\<exists>s t. queue_init s \<and> (queue_step 2)\<^sup>*\<^sup>* s t \<and> q_pc t 0 = Pushing 1 (8 :: nat) \<and>
     q_pc t 1 = Popping 0 \<and> unat (1 :: u32) \<noteq> unat (0 mod 2 :: u32)"
proof -
  let ?s = "\<lparr>q_ctrl = queue_zero, q_buf = \<lambda>_. 0, q_pc = \<lambda>_. QIdle, q_log = []\<rparr> :: nat queue_sys"
  let ?t = "\<lparr>q_ctrl = \<lparr>qnext = 0, qpop = 1, qcount = 1, qpush = 1\<rparr>, q_buf = (\<lambda>_. 0)(0 := 7),
      q_pc = (\<lambda>_. QIdle)(0 := Pushing 1 8, 1 := Popping 0), q_log = [EvPush 7]\<rparr> :: nat queue_sys"
  have init: "queue_init ?s" by (simp add: queue_init_def)
  have "unat (1 :: u32) \<noteq> unat (0 mod 2 :: u32)"
    by (rule queue_push_pop_disjoint [OF _ _ init queue_example_run, of 0 1 8 1]) simp_all
  then show ?thesis using init queue_example_run
    by (intro exI [of _ ?s] exI [of _ ?t] conjI) simp_all
qed

section \<open>The object in memory\<close>

lemma split_cat_8_24: "word_split (word_cat (h :: u8) (l :: 24 word) :: u32) = (h, l)"
  by (rule word_split_cat) simp

lemma cat_split_8_24: "word_split (w :: u32) = (h :: u8, l :: 24 word) \<Longrightarrow> word_cat h l = w"
  using word_cat_split [where 'a = 8 and 'b = 24 and 'c = 32, of w] by simp

interpretation cell_queue: vm_cell ld_queue st_queue 8
proof -
  have c: "vm_cell (\<lambda>m a. (\<lambda>p. case (word_split (fst p), word_split (snd p)) of
        ((p, n), (q, c)) \<Rightarrow> \<lparr>qnext = n, qpop = p, qcount = c, qpush = q\<rparr>) (ld_be32 m a, ld_be32 m (a + 4)))
      (\<lambda>m a v. (\<lambda>m a v. st_be32 (st_be32 m a (fst v)) (a + 4) (snd v)) m a
         ((\<lambda>c. (word_cat (qpop c) (qnext c), word_cat (qpush c) (qcount c))) v)) (4 + 4)"
    by (rule vm_cell_rename [OF vm_cell_pair [OF cell_be32.vm_cell_axioms cell_be32.vm_cell_axioms, of 4]])
      (auto simp: split_cat_8_24 cat_split_8_24 split: prod.splits)
  then show "vm_cell ld_queue st_queue 8"
    by (simp add: ld_queue_def [abs_def] st_queue_def [abs_def])
qed

lemma queue_fields_ctrl [simp]:
  "queue_size (st_queue m a c) a = queue_size m a" "queue_depth (st_queue m a c) a = queue_depth m a"
  "queue_buffer (st_queue m a c) a = queue_buffer m a"
  unfolding queue_size_def queue_depth_def queue_buffer_def
  using span_disjoint_offsets [of 0 8 8 4 a] span_disjoint_offsets [of 0 8 12 4 a]
    span_disjoint_offsets [of 0 8 16 8 a]
  by (auto intro!: cell_be32.ld_unchanged [where B = "span a 8"] cell_be64.ld_unchanged [where B = "span a 8"]
      cell_queue.st_outside)

lemma queue_fields_memcpy:
  assumes "span a 32 \<inter> span x k = {}"
  shows "ld_queue (vm_memcpy m x y k) a = ld_queue m a" "queue_size (vm_memcpy m x y k) a = queue_size m a"
    "queue_depth (vm_memcpy m x y k) a = queue_depth m a" "queue_buffer (vm_memcpy m x y k) a = queue_buffer m a"
proof -
  have "span a 8 \<subseteq> span a 32" "span (a + 8) 4 \<subseteq> span a 32" "span (a + 12) 4 \<subseteq> span a 32"
      "span (a + 16) 8 \<subseteq> span a 32"
    by (rule span_mono, simp) (rule span_shift, simp)+
  then show "ld_queue (vm_memcpy m x y k) a = ld_queue m a" "queue_size (vm_memcpy m x y k) a = queue_size m a"
    "queue_depth (vm_memcpy m x y k) a = queue_depth m a" "queue_buffer (vm_memcpy m x y k) a = queue_buffer m a"
    unfolding queue_size_def queue_depth_def queue_buffer_def using assms
    by (auto intro!: cell_queue.ld_unchanged [where B = "span x k"] cell_be32.ld_unchanged [where B = "span x k"]
        cell_be64.ld_unchanged [where B = "span x k"] vm_memcpy_outside)
qed

lemma vm_bytes_st_queue:
  assumes "span a 32 \<inter> span b k = {}"
  shows "vm_bytes (st_queue m a c) b k = vm_bytes m b k"
  using assms span_mono [of 8 32 a] by (intro vm_bytes_cong cell_queue.st_outside) auto

lemma queue_object_fields:
  "ld_queue (queue_object m a c sz depth b) a = c" "queue_size (queue_object m a c sz depth b) a = sz"
  "queue_depth (queue_object m a c sz depth b) a = depth" "queue_buffer (queue_object m a c sz depth b) a = b"
proof -
  have disj: "span a 8 \<inter> span (a + 8) 4 = {}" "span a 8 \<inter> span (a + 12) 4 = {}" "span a 8 \<inter> span (a + 16) 8 = {}"
      "span (a + 8) 4 \<inter> span (a + 12) 4 = {}" "span (a + 8) 4 \<inter> span (a + 16) 8 = {}"
      "span (a + 12) 4 \<inter> span (a + 16) 8 = {}"
    using span_disjoint_offsets [of 0 8 8 4 a] span_disjoint_offsets [of 0 8 12 4 a]
      span_disjoint_offsets [of 0 8 16 8 a] span_disjoint_offsets [of 8 4 12 4 a]
      span_disjoint_offsets [of 8 4 16 8 a] span_disjoint_offsets [of 12 4 16 8 a] by simp_all
  show "ld_queue (queue_object m a c sz depth b) a = c"
    unfolding queue_object_def
    by (simp add: cell_queue.ld_unchanged [OF cell_be64.st_outside disj(3)] cell_queue.ld_st
        cell_queue.ld_unchanged [OF cell_be32.st_outside disj(2)] cell_queue.ld_unchanged [OF cell_be32.st_outside disj(1)])
  show "queue_size (queue_object m a c sz depth b) a = sz" "queue_depth (queue_object m a c sz depth b) a = depth"
      "queue_buffer (queue_object m a c sz depth b) a = b"
    unfolding queue_object_def queue_size_def queue_depth_def queue_buffer_def
    by (simp_all add: cell_be32.ld_unchanged [OF cell_be64.st_outside disj(5)] cell_be32.ld_st cell_be64.ld_st
        cell_be32.ld_unchanged [OF cell_be64.st_outside disj(6)] cell_be32.ld_unchanged [OF cell_be32.st_outside disj(4)])
qed

lemma queue_push_alone:
  assumes "queue_args_error queue src = None" and "check_depth m queue = Some d"
    and "try_push_begin d (ld_queue m queue) = (Some pos, c)" and "queue_buffer m queue = ucast p"
    and "span queue 32 \<inter> span (p + pos * queue_size m queue) (unat (queue_size m queue)) = {}"
  shows "cellSyncQueuePush id es id id queue src m =
    Ret CELL_OK (st_queue (vm_memcpy (st_queue m queue c) (p + pos * queue_size m queue) src (unat (queue_size m queue)))
      queue (c\<lparr>qpush := 0\<rparr>))"
  using assms
  by (simp add: cellSyncQueuePush_def atomic_op_def spin_until_unblocked spin_then_def queue_copy_in_def
      queue_fields_memcpy cell_queue.ld_st push_end_def)

lemma queue_pop_alone:
  assumes "queue_args_error queue dst = None" and "check_depth m queue = Some d"
    and "try_pop_begin d (ld_queue m queue) = (Some pos, c)" and "queue_buffer m queue = ucast p"
    and "span queue 32 \<inter> span dst (unat (queue_size m queue)) = {}"
  shows "cellSyncQueuePop id es id id queue dst m =
    Ret CELL_OK (st_queue (vm_memcpy (st_queue m queue c) dst (p + pos mod d * queue_size m queue)
      (unat (queue_size m queue))) queue (c\<lparr>qpop := 0\<rparr>))"
  using assms
  by (simp add: cellSyncQueuePop_def atomic_op_def spin_until_unblocked spin_then_def queue_copy_out_def
      queue_fields_memcpy cell_queue.ld_st pop_end_def)

lemma queue_push_pop_ctrl:
  assumes d: "unat d < 2 ^ 24" and nx: "unat (qnext c) < unat d"
    and "qcount c = 0" "qpush c = 0" "qpop c = 0"
  obtains c1 pos2 c2 where "try_push_begin d c = (Some (ucast (qnext c)), c1)"
    "unat (qnext c1) < unat d" "unat (qcount c1) \<le> unat d"
    "try_pop_begin d (c1\<lparr>qpush := 0\<rparr>) = (Some pos2, c2)" "pos2 mod d = ucast (qnext c)"
    "qcount c2 = 0"
proof -
  define c1 where "c1 = snd (try_push_begin d c)"
  have d0: "d \<noteq> 0" using nx by auto
  then have push: "try_push_begin d c = (Some (ucast (qnext c)), c1)"
    using assms by (simp add: c1_def try_push_begin_def Let_def)
  have o: "unat (qnext c1) = (if unat (qnext c) + 1 = unat d then 0 else unat (qnext c) + 1)"
      "unat (qcount c1) = 1" "qpop c1 = 0"
    using try_push_begin_Some [OF push d nx] assms by simp_all
  define k where "k = c1\<lparr>qpush := 0\<rparr>"
  have k: "qnext k = qnext c1" "unat (qcount k) = 1" "qpop k = 0" "qpush k = 0" using o by (simp_all add: k_def)
  have "\<exists>pos2 c2. try_pop_begin d k = (Some pos2, c2)"
    using k by (simp add: try_pop_begin_def Let_def word_le_nat_alt unat_ucast_up24)
  then obtain pos2 c2 where pop: "try_pop_begin d k = (Some pos2, c2)" by blast
  note q = try_pop_begin_Some [OF pop]
  have lt: "unat (qnext k) < unat d" using o(1) nx k(1) by simp
  have "unat (pos2 mod d) = ring_slot (unat d) (unat (qnext k)) 1 0"
    using pop_position [OF d lt, of] k(2) q(3) nx by simp
  also have "\<dots> = ring_slot (unat d) (unat (qnext c)) 0 0"
    using ring_slot_advance [OF nx, of 0 0] nx o(1) k(1) by simp
  also have "\<dots> = unat (qnext c)" using nx by (simp add: ring_slot_def)
  finally have "pos2 mod d = ucast (qnext c)" by (simp add: word_unat_eq_iff unat_ucast_up24)
  moreover have "qcount c2 = 0" using q(4) k(2) by (simp add: unat_eq_zero)
  ultimately show ?thesis using that [of c1 pos2 c2] push lt k(1) pop o(2) nx by (simp add: k_def)
qed

text \<open>
  What \<^verbatim>\<open>cellSyncQueuePush\<close> stored in an empty queue, \<^verbatim>\<open>cellSyncQueuePop\<close> delivers, at
  every position of the ring: both calls return \<^verbatim>\<open>CELL_OK\<close>, the destination holds the source
  bytes and the queue is empty again.
\<close>

theorem queue_push_then_pop:
  assumes q: "queue_args_error queue src = None" "queue_args_error queue dst = None"
    and c: "ld_queue m queue = c" "qcount c = 0" "qpush c = 0" "qpop c = 0"
    and d: "queue_depth m queue = d" "unat d < 2 ^ 24" "unat (qnext c) < unat d"
    and p: "queue_buffer m queue = ucast p" and k: "unat (queue_size m queue) = k"
    and disj: "span queue 32 \<inter> span src k = {}" "span queue 32 \<inter> span dst k = {}"
      "span queue 32 \<inter> span (p + ucast (qnext c) * queue_size m queue) k = {}"
  shows "\<exists>m1 m2. cellSyncQueuePush id es1 id id queue src m = Ret CELL_OK m1 \<and>
    cellSyncQueuePop id es2 id id queue dst m1 = Ret CELL_OK m2 \<and>
    vm_bytes m2 dst k = vm_bytes m src k \<and> qcount (ld_queue m2 queue) = 0"
proof -
  have k32: "k \<le> 2 ^ 32" using unat_bound [of "queue_size m queue"] k by simp
  obtain c1 pos2 c2 where o: "try_push_begin d c = (Some (ucast (qnext c)), c1)"
      "unat (qnext c1) < unat d" "unat (qcount c1) \<le> unat d"
      "try_pop_begin d (c1\<lparr>qpush := 0\<rparr>) = (Some pos2, c2)" "pos2 mod d = ucast (qnext c)" "qcount c2 = 0"
    using queue_push_pop_ctrl [OF d(2,3) c(2-4)] by metis
  let ?x = "p + ucast (qnext c) * queue_size m queue"
  let ?m1 = "st_queue (vm_memcpy (st_queue m queue c1) ?x src k) queue (c1\<lparr>qpush := 0\<rparr>)"
  let ?m2 = "st_queue (vm_memcpy (st_queue ?m1 queue c2) dst ?x k) queue (c2\<lparr>qpop := 0\<rparr>)"
  have "check_depth m queue = Some d"
    using c d by (simp add: check_depth_def word_less_nat_alt unat_ucast_up24 Let_def)
  then have w: "cellSyncQueuePush id es1 id id queue src m = Ret CELL_OK ?m1"
    using queue_push_alone [OF q(1) _ _ p] o(1) c(1) disj(3) k by simp
  have f: "queue_size ?m1 queue = queue_size m queue" "queue_depth ?m1 queue = d"
      "queue_buffer ?m1 queue = ucast p" "ld_queue ?m1 queue = c1\<lparr>qpush := 0\<rparr>"
    using disj(3) d p by (simp_all add: queue_fields_memcpy cell_queue.ld_st)
  have "check_depth ?m1 queue = Some d"
    unfolding check_depth_def f Let_def using o(2,3) by (simp add: word_less_nat_alt unat_ucast_up24)
  then have "cellSyncQueuePop id es2 id id queue dst ?m1 = Ret CELL_OK ?m2"
    using queue_pop_alone [OF q(2) _ _ f(3)] o(4) disj(2) k by (simp only: f o(5) refl)
  moreover have "vm_bytes ?m2 dst k = vm_bytes m src k"
    using disj k32 by (simp add: vm_bytes_st_queue vm_bytes_memcpy)
  moreover have "qcount (ld_queue ?m2 queue) = 0" by (simp add: cell_queue.ld_st o(6))
  ultimately show ?thesis using w by blast
qed

theorem queue_push_then_pop_witness:
  "\<exists>m m1 m2. qnext (ld_queue m 0x100) = 1 \<and> queue_depth m 0x100 = 2 \<and>
    cellSyncQueuePush id [] id id 0x100 0x400 m = Ret CELL_OK m1 \<and>
    cellSyncQueuePop id [] id id 0x100 0x600 m1 = Ret CELL_OK m2 \<and> vm_bytes m2 0x600 16 = vm_bytes m 0x400 16"
proof -
  let ?m = "queue_object (\<lambda>_. 0) 0x100 \<lparr>qnext = 1, qpop = 0, qcount = 0, qpush = 0\<rparr> 16 2 0x800"
  have d: "span 0x100 32 \<inter> span 0x400 16 = {}" "span 0x100 32 \<inter> span 0x600 16 = {}"
      "span 0x100 32 \<inter> span 0x810 16 = {}"
    using span_disjoint_offsets [of "0x100" 32 "0x400" 16 0] span_disjoint_offsets [of "0x100" 32 "0x600" 16 0]
      span_disjoint_offsets [of "0x100" 32 "0x810" 16 0] by simp_all
  obtain m1 m2 where "cellSyncQueuePush id [] id id 0x100 0x400 ?m = Ret CELL_OK m1"
      "cellSyncQueuePop id [] id id 0x100 0x600 m1 = Ret CELL_OK m2" "vm_bytes m2 0x600 16 = vm_bytes ?m 0x400 16"
    using queue_push_then_pop [of "0x100" "0x400" "0x600" ?m _ 2 "0x800" 16 "[]" "[]", OF _ _ queue_object_fields(1)]
      d by (auto simp: queue_object_fields queue_args_error_def vm_aligned_def)
  then show ?thesis by (intro exI [of _ ?m] exI [of _ m1] exI [of _ m2]) (simp add: queue_object_fields)
qed

text \<open>
  C31: \<^verbatim>\<open>cellSyncQueueInitialize\<close> accepts depths that the 24-bit count cannot represent: with a depth
  of \<open>2 ^ 24\<close> the push that fills the queue wraps the count to zero, so a full queue is
  reported empty.
\<close>

theorem queue_count_wraps:
  "(\<exists>m'. cellSyncQueueInitialize 0x100 0x200 16 0x1000000 m = Ret CELL_OK m' \<and>
      queue_depth m' 0x100 = 0x1000000) \<and>
   (\<exists>c. try_push_begin 0x1000000 \<lparr>qnext = 0xFFFFFF, qpop = 0, qcount = 0xFFFFFF, qpush = 0\<rparr> =
      (Some 0xFFFFFF, c) \<and> qcount c = 0 \<and> fst (try_pop_begin 0x1000000 (snd (push_end c))) = None)"
proof
  show "\<exists>m'. cellSyncQueueInitialize 0x100 0x200 16 0x1000000 m = Ret CELL_OK m' \<and>
      queue_depth m' 0x100 = 0x1000000"
  proof -
    have "queue_depth (st_be64 (st_be32 m1 (0x100 + 12) 0x1000000) (0x100 + 16) p) 0x100 = 0x1000000" for m1 p
      unfolding queue_depth_def
      using cell_be32.ld_unchanged [of "span 0x110 8" "st_be64 (st_be32 m1 0x10C 0x1000000) 0x110 p"
          "st_be32 m1 0x10C 0x1000000" "0x10C"] span_disjoint_offsets [of 0 4 4 8 "0x10C"]
        cell_be64.st_outside cell_be32.ld_st by simp
    then show ?thesis by (simp add: cellSyncQueueInitialize_def vm_aligned_def)
  qed
  show "\<exists>c. try_push_begin 0x1000000 \<lparr>qnext = 0xFFFFFF, qpop = 0, qcount = 0xFFFFFF, qpush = 0\<rparr> =
      (Some 0xFFFFFF, c) \<and> qcount c = 0 \<and> fst (try_pop_begin 0x1000000 (snd (push_end c))) = None"
    by (simp add: try_push_begin_def try_pop_begin_def push_end_def word_le_nat_alt)
qed

end
