(* ===== verification/Sync_LFQueue.thy ===== *)
theory Sync_LFQueue
  imports Sync_Base
begin

text \<open>
  The lock-free queue \<^verbatim>\<open>CellSyncLFQueue\<close>. Producers reserve an index by advancing
  \<open>m_h8\<close>, fill the entry and complete it; completed entries may finish out of order and
  are kept in the 16-bit map \<open>m_h6\<close> relative to the published index \<open>m_h5\<close>.
  Consumers do the same with \<open>m_h4\<close>, \<open>m_h2\<close> and \<open>m_h1\<close>. Indices run over
  twice the depth so that a full queue and an empty one differ.

  One iteration of each retry loop reads its inputs from one memory; the functions in the
  environment list are what the other threads do before its compare-and-swaps. When the list is
  used up the call is still looping (\<open>Blocked\<close>). Signed intermediate values are
  mathematical integers.
\<close>

section \<open>Layout\<close>

record pop1_t =
  m_h1 :: u16
  m_h2 :: u16
  m_h3 :: u16
  m_h4 :: u16

record push1_t =
  m_h5 :: u16
  m_h6 :: u16
  m_h7 :: u16
  m_h8 :: u16

definition ld_pop1 :: "vmem \<Rightarrow> addr \<Rightarrow> pop1_t" where
  "ld_pop1 m a = \<lparr>m_h1 = ld_be16 m a, m_h2 = ld_be16 m (a + 2), m_h3 = ld_be16 m (a + 4), m_h4 = ld_be16 m (a + 6)\<rparr>"

definition st_pop1 :: "vmem \<Rightarrow> addr \<Rightarrow> pop1_t \<Rightarrow> vmem" where
  "st_pop1 m a v = st_be16 (st_be16 (st_be16 (st_be16 m a (m_h1 v)) (a + 2) (m_h2 v)) (a + 4) (m_h3 v)) (a + 6) (m_h4 v)"

definition ld_push1 :: "vmem \<Rightarrow> addr \<Rightarrow> push1_t" where
  "ld_push1 m a = \<lparr>m_h5 = ld_be16 m a, m_h6 = ld_be16 m (a + 2), m_h7 = ld_be16 m (a + 4), m_h8 = ld_be16 m (a + 6)\<rparr>"

definition st_push1 :: "vmem \<Rightarrow> addr \<Rightarrow> push1_t \<Rightarrow> vmem" where
  "st_push1 m a v = st_be16 (st_be16 (st_be16 (st_be16 m a (m_h5 v)) (a + 2) (m_h6 v)) (a + 4) (m_h7 v)) (a + 6) (m_h8 v)"

text \<open>\<^verbatim>\<open>pop3_t\<close> and \<^verbatim>\<open>push3_t\<close>: the first halves, index and completion map.\<close>

definition ld_half :: "vmem \<Rightarrow> addr \<Rightarrow> u16 \<times> u16" where
  "ld_half m a = (ld_be16 m a, ld_be16 m (a + 2))"

definition st_half :: "vmem \<Rightarrow> addr \<Rightarrow> u16 \<times> u16 \<Rightarrow> vmem" where
  "st_half m a v = st_be16 (st_be16 m a (fst v)) (a + 2) (snd v)"

definition lf_push1 :: "addr \<Rightarrow> addr" where "lf_push1 q = q + 0x8"
definition lf_size :: "addr \<Rightarrow> addr" where "lf_size q = q + 0x10"
definition lf_depth :: "addr \<Rightarrow> addr" where "lf_depth q = q + 0x14"
definition lf_buffer :: "addr \<Rightarrow> addr" where "lf_buffer q = q + 0x18"
definition lf_bs :: "addr \<Rightarrow> addr" where "lf_bs q = q + 0x20"
definition lf_direction :: "addr \<Rightarrow> addr" where "lf_direction q = q + 0x24"
definition lf_v1 :: "addr \<Rightarrow> addr" where "lf_v1 q = q + 0x28"
definition lf_init :: "addr \<Rightarrow> addr" where "lf_init q = q + 0x2C"
definition lf_push2 :: "addr \<Rightarrow> addr" where "lf_push2 q = q + 0x30"
definition lf_hs1 :: "addr \<Rightarrow> addr" where "lf_hs1 q = q + 0x32"
definition lf_pop2 :: "addr \<Rightarrow> addr" where "lf_pop2 q = q + 0x50"
definition lf_hs2 :: "addr \<Rightarrow> addr" where "lf_hs2 q = q + 0x52"
definition lf_eaSignal :: "addr \<Rightarrow> addr" where "lf_eaSignal q = q + 0x70"
definition lf_v2 :: "addr \<Rightarrow> addr" where "lf_v2 q = q + 0x78"
definition lf_eq_id :: "addr \<Rightarrow> addr" where "lf_eq_id q = q + 0x7C"

definition CELL_SYNC_QUEUE_SPU2PPU :: u32 where "CELL_SYNC_QUEUE_SPU2PPU = 1"
definition CELL_SYNC_QUEUE_PPU2SPU :: u32 where "CELL_SYNC_QUEUE_PPU2SPU = 2"
definition CELL_SYNC_QUEUE_ANY2ANY :: u32 where "CELL_SYNC_QUEUE_ANY2ANY = 3"

text \<open>\<^verbatim>\<open>compare_and_swap_test\<close> on a cell.\<close>

definition vm_cas ::
  "(vmem \<Rightarrow> addr \<Rightarrow> 'v) \<Rightarrow> (vmem \<Rightarrow> addr \<Rightarrow> 'v \<Rightarrow> vmem) \<Rightarrow> addr \<Rightarrow> 'v \<Rightarrow> 'v \<Rightarrow> vmem \<Rightarrow> bool \<times> vmem"
where
  "vm_cas ld st a old new m = (if ld m a = old then (True, st m a new) else (False, m))"

section \<open>Initialisation\<close>

definition syncLFQueueInitialize :: "addr \<Rightarrow> addr \<Rightarrow> u32 \<Rightarrow> u32 \<Rightarrow> u32 \<Rightarrow> addr \<Rightarrow> vmem \<Rightarrow> vmem" where
  "syncLFQueueInitialize queue buffer sz depth direction eaSignal m =
     (let m = st_be32 m (lf_size queue) sz;
          m = st_be32 m (lf_depth queue) depth;
          m = st_be64 m (lf_buffer queue) (ucast buffer);
          m = st_be32 m (lf_direction queue) direction;
          m = vm_memset m (lf_hs1 queue) 0 30;
          m = vm_memset m (lf_hs2 queue) 0 30;
          m = st_be64 m (lf_eaSignal queue) (ucast eaSignal);
          m = (if direction = CELL_SYNC_QUEUE_ANY2ANY then
                 let m = st_pop1 m queue \<lparr>m_h1 = 0, m_h2 = 0, m_h3 = 0, m_h4 = 0\<rparr>;
                     m = st_push1 m (lf_push1 queue) \<lparr>m_h5 = 0, m_h6 = 0, m_h7 = 0, m_h8 = 0\<rparr>;
                     m = st_be64 m (lf_buffer queue) (ld_be64 m (lf_buffer queue) OR 1);
                     m = st_u8 m (lf_bs queue) 0xFF;
                     m = st_u8 m (lf_bs queue + 1) 0xFF;
                     m = st_be32 m (lf_v1 queue) 0xFFFFFFFF;
                     m = st_be16 m (lf_push2 queue) 0xFFFF
                 in st_be16 m (lf_pop2 queue) 0xFFFF
               else
                 let m = st_pop1 m queue \<lparr>m_h1 = 0, m_h2 = 0, m_h3 = m_h3 (ld_pop1 m queue), m_h4 = 0\<rparr>;
                     m = st_push1 m (lf_push1 queue)
                           \<lparr>m_h5 = 0, m_h6 = 0, m_h7 = m_h7 (ld_push1 m (lf_push1 queue)), m_h8 = 0\<rparr>;
                     m = st_u8 m (lf_bs queue) 0xFF;
                     m = st_u8 m (lf_bs queue + 1) 0xFF;
                     m = st_u8 m (lf_bs queue + 2) 0xFF;
                     m = st_u8 m (lf_bs queue + 3) 0xFF;
                     m = st_be32 m (lf_v1 queue) 0;
                     m = st_be16 m (lf_push2 queue) 0
                 in st_be16 m (lf_pop2 queue) 0);
          m = st_be32 m (lf_v2 queue) 0
      in st_be32 m (lf_eq_id queue) 0)"

text \<open>
  The loop that reserves \<open>init\<close>: \<open>RFail\<close> is an early return, \<open>RHave\<close> carries the
  value of \<^verbatim>\<open>old_value\<close> after the successful swap.
\<close>

datatype lf_reserve = RFail CellSyncError vmem | RHave u32 vmem | RLoop vmem

fun lf_reserve_init :: "int \<Rightarrow> addr \<Rightarrow> (vmem \<Rightarrow> vmem) list \<Rightarrow> vmem \<Rightarrow> lf_reserve" where
  "lf_reserve_init sdk_ver queue [] m = RLoop m"
| "lf_reserve_init sdk_ver queue (e # es) m =
     (let old = ld_be32 m (lf_init queue) in
      if old \<noteq> 0 \<and> sdk_ver > 0x17FFFF \<and> old \<noteq> 2 then RFail CELL_SYNC_ERROR_STAT m
      else if old = 0 \<and> sdk_ver > 0x17FFFF \<and> (\<exists>b \<in> set (vm_bytes m queue 128). b \<noteq> 0)
      then RFail CELL_SYNC_ERROR_STAT m
      else
        let new = (if old \<noteq> 0 then old else 1) in
        case vm_cas ld_be32 st_be32 (lf_init queue) old new (e m) of
          (True, m') \<Rightarrow> RHave new m'
        | (False, m') \<Rightarrow> lf_reserve_init sdk_ver queue es m')"

definition lf_init_error :: "addr \<Rightarrow> addr \<Rightarrow> u32 \<Rightarrow> u32 \<Rightarrow> u32 \<Rightarrow> CellSyncError option" where
  "lf_init_error queue buffer sz depth direction =
     (if queue = 0 then Some CELL_SYNC_ERROR_NULL_POINTER
      else if sz \<noteq> 0 \<and> buffer = 0 then Some CELL_SYNC_ERROR_NULL_POINTER
      else if sz \<noteq> 0 \<and> (sz > 0x4000 \<or> sz mod 16 \<noteq> 0) then Some CELL_SYNC_ERROR_INVAL
      else if depth = 0 \<or> depth > 0x7FFF \<or> direction > 3 then Some CELL_SYNC_ERROR_INVAL
      else if \<not> vm_aligned queue 128 \<or> \<not> vm_aligned buffer 16 then Some CELL_SYNC_ERROR_ALIGN
      else None)"

definition lf_init_finish :: "int \<Rightarrow> addr \<Rightarrow> addr \<Rightarrow> u32 \<Rightarrow> u32 \<Rightarrow> u32 \<Rightarrow> addr \<Rightarrow> lf_reserve \<Rightarrow> api" where
  "lf_init_finish sdk_ver queue buffer sz depth direction eaSignal r =
     (case r of
        RFail e m1 \<Rightarrow> Ret (sync_err e) m1
      | RLoop m1 \<Rightarrow> Blocked m1
      | RHave old_value m1 \<Rightarrow>
          if old_value = 2 then
            if ld_be32 m1 (lf_size queue) \<noteq> sz \<or> ld_be32 m1 (lf_depth queue) \<noteq> depth \<or>
               ld_be64 m1 (lf_buffer queue) \<noteq> ucast buffer
            then Ret (sync_err CELL_SYNC_ERROR_INVAL) m1
            else if sdk_ver > 0x17FFFF \<and>
               (ld_be64 m1 (lf_eaSignal queue) \<noteq> ucast eaSignal \<or> ld_be32 m1 (lf_direction queue) \<noteq> direction)
            then Ret (sync_err CELL_SYNC_ERROR_INVAL) m1
            else Ret CELL_OK m1
          else
            Ret CELL_OK (st_be32 (syncLFQueueInitialize queue buffer sz depth direction eaSignal m1) (lf_init queue) 0))"

text \<open>
  \<open>sdk\<close> is what \<^verbatim>\<open>process_get_sdk_version\<close> answers: its return code and the
  version.
\<close>

definition cellSyncLFQueueInitialize ::
  "error_code \<times> int \<Rightarrow> (vmem \<Rightarrow> vmem) list \<Rightarrow> addr \<Rightarrow> addr \<Rightarrow> u32 \<Rightarrow> u32 \<Rightarrow> u32 \<Rightarrow> addr \<Rightarrow> vmem \<Rightarrow> api"
where
  "cellSyncLFQueueInitialize sdk es queue buffer sz depth direction eaSignal m =
     (case lf_init_error queue buffer sz depth direction of Some e \<Rightarrow> Ret (sync_err e) m | None \<Rightarrow>
      if fst sdk \<noteq> 0 then Ret (fst sdk) m
      else
        let sdk_ver = (if snd sdk = -1 then 0x460000 else snd sdk) in
        lf_init_finish sdk_ver queue buffer sz depth direction eaSignal (lf_reserve_init sdk_ver queue es m))"

section \<open>Reserving an index\<close>

text \<open>\<^verbatim>\<open>if (x < 0) x += depth * 2\<close>.\<close>

definition lf_wrap :: "int \<Rightarrow> int \<Rightarrow> int" where
  "lf_wrap depth x = (if x < 0 then x + depth * 2 else x)"

text \<open>\<^verbatim>\<open>std::bit_cast<s32>(queue->m_bs) == -1\<close>.\<close>

definition lf_bs_unset :: "vmem \<Rightarrow> addr \<Rightarrow> bool" where
  "lf_bs_unset m queue \<longleftrightarrow> ld_be32 m (lf_bs queue) = 0xFFFFFFFF"

text \<open>
  What one pass through the body decides before its compare-and-swap: return a code, go
  round again, wait on the event queue without swapping, or try to install a new control
  word with a result code, having stored the reserved index.
\<close>

datatype 'c lf_decision = LFReturn error_code | LFAgain | LFWait | LFSwap 'c error_code "int option"

definition lf_push_decide :: "int \<Rightarrow> bool \<Rightarrow> u32 \<Rightarrow> u32 \<Rightarrow> bool \<Rightarrow> u16 \<Rightarrow> push1_t \<Rightarrow> push1_t lf_decision" where
  "lf_push_decide depth var1 isBlocking useEventQueue bs_unset h1 old =
     (let push = (if var1 then old\<lparr>m_h7 := 0\<rparr> else old) in
      if isBlocking \<noteq> 0 \<and> useEventQueue \<noteq> 0 \<and> bs_unset then LFReturn (sync_err CELL_SYNC_ERROR_STAT)
      else if useEventQueue \<noteq> 0 \<and> (uint (m_h5 push) \<noteq> sint (m_h8 push) \<or> m_h7 push \<noteq> 0)
      then LFSwap push (sync_err CELL_SYNC_ERROR_BUSY) None
      else if lf_wrap depth (sint (m_h8 push) - uint h1) < depth then
        LFSwap (push\<lparr>m_h8 := if sint (m_h8 push) + 1 \<ge> depth * 2 then 0 else m_h8 push + 1\<rparr>)
          CELL_OK (Some (sint (m_h8 push)))
      else if isBlocking = 0 then LFReturn (sync_err CELL_SYNC_ERROR_AGAIN)
      else if useEventQueue = 0 then LFAgain
      else if isBlocking \<noteq> 3 then LFWait
      else LFSwap (push\<lparr>m_h7 := 3\<rparr>) CELL_OK None)"

definition lf_pop_decide :: "int \<Rightarrow> bool \<Rightarrow> u32 \<Rightarrow> u32 \<Rightarrow> bool \<Rightarrow> u16 \<Rightarrow> pop1_t \<Rightarrow> pop1_t lf_decision" where
  "lf_pop_decide depth var1 isBlocking useEventQueue bs_unset h5 old =
     (let pop = (if var1 then old\<lparr>m_h3 := 0\<rparr> else old) in
      if isBlocking \<noteq> 0 \<and> useEventQueue \<noteq> 0 \<and> bs_unset then LFReturn (sync_err CELL_SYNC_ERROR_STAT)
      else if useEventQueue \<noteq> 0 \<and> (uint (m_h1 pop) \<noteq> sint (m_h4 pop) \<or> m_h3 pop \<noteq> 0)
      then LFSwap pop (sync_err CELL_SYNC_ERROR_BUSY) None
      else if lf_wrap depth (uint h5 - sint (m_h4 pop)) > 0 then
        LFSwap (pop\<lparr>m_h4 := if sint (m_h4 pop) + 1 \<ge> depth * 2 then 0 else m_h4 pop + 1\<rparr>)
          CELL_OK (Some (sint (m_h4 pop)))
      else if isBlocking = 0 then LFReturn (sync_err CELL_SYNC_ERROR_AGAIN)
      else if useEventQueue = 0 then LFAgain
      else if isBlocking \<noteq> 3 then LFWait
      else LFSwap (pop\<lparr>m_h3 := 3\<rparr>) CELL_OK None)"

text \<open>
  The two nested loops. \<open>recv\<close> is \<^verbatim>\<open>sys_event_queue_receive\<close>: the code it returns
  for an event queue id and the memory when it returns; a code other than
  \<^verbatim>\<open>CELL_OK\<close> fails the \<^verbatim>\<open>ensure\<close>.
\<close>

definition lf_store_pointer :: "addr \<Rightarrow> int option \<Rightarrow> vmem \<Rightarrow> vmem" where
  "lf_store_pointer pointer p m = (case p of None \<Rightarrow> m | Some i \<Rightarrow> st_be32 m pointer (word_of_int i))"

fun lf_get_push_loop ::
  "(u32 \<Rightarrow> vmem \<Rightarrow> error_code \<times> vmem) \<Rightarrow> int \<Rightarrow> addr \<Rightarrow> addr \<Rightarrow> u32 \<Rightarrow> u32 \<Rightarrow> bool \<Rightarrow> (vmem \<Rightarrow> vmem) list \<Rightarrow> vmem \<Rightarrow> api"
where
  "lf_get_push_loop recv depth queue pointer isBlocking useEventQueue var1 [] m = Blocked m"
| "lf_get_push_loop recv depth queue pointer isBlocking useEventQueue var1 (e # es) m =
     (let old = ld_push1 m (lf_push1 queue);
          wait = (\<lambda>m1. case recv (ld_be32 m1 (lf_eq_id queue)) m1 of (r, m2) \<Rightarrow>
             if r \<noteq> CELL_OK then Throw m2
             else lf_get_push_loop recv depth queue pointer isBlocking useEventQueue True es m2)
      in
      case lf_push_decide depth var1 isBlocking useEventQueue
          (lf_bs_unset m queue) (m_h1 (ld_pop1 m queue)) old of
        LFReturn r \<Rightarrow> Ret r m
      | LFAgain \<Rightarrow> lf_get_push_loop recv depth queue pointer isBlocking useEventQueue var1 es (e m)
      | LFWait \<Rightarrow> wait m
      | LFSwap push res p \<Rightarrow>
          case vm_cas ld_push1 st_push1 (lf_push1 queue) old push (e (lf_store_pointer pointer p m)) of
            (True, m1) \<Rightarrow> if m_h7 push = 0 \<or> res \<noteq> 0 then Ret res m1 else wait m1
          | (False, m1) \<Rightarrow> lf_get_push_loop recv depth queue pointer isBlocking useEventQueue var1 es m1)"

definition cellSyncLFQueueGetPushPointer ::
  "(u32 \<Rightarrow> vmem \<Rightarrow> error_code \<times> vmem) \<Rightarrow> (vmem \<Rightarrow> vmem) list \<Rightarrow> addr \<Rightarrow> addr \<Rightarrow> u32 \<Rightarrow> u32 \<Rightarrow> vmem \<Rightarrow> api"
where
  "cellSyncLFQueueGetPushPointer recv es queue pointer isBlocking useEventQueue m =
     (if ld_be32 m (lf_direction queue) \<noteq> CELL_SYNC_QUEUE_PPU2SPU then Ret (sync_err CELL_SYNC_ERROR_PERM) m
      else lf_get_push_loop recv (sint (ld_be32 m (lf_depth queue))) queue pointer isBlocking useEventQueue False es m)"

definition cellSyncLFQueueGetPushPointer2 :: "addr \<Rightarrow> addr \<Rightarrow> u32 \<Rightarrow> u32 \<Rightarrow> vmem \<Rightarrow> api" where
  "cellSyncLFQueueGetPushPointer2 queue pointer isBlocking useEventQueue m = Ret CELL_OK m"

fun lf_get_pop_loop ::
  "(u32 \<Rightarrow> vmem \<Rightarrow> error_code \<times> vmem) \<Rightarrow> int \<Rightarrow> addr \<Rightarrow> addr \<Rightarrow> u32 \<Rightarrow> u32 \<Rightarrow> bool \<Rightarrow> (vmem \<Rightarrow> vmem) list \<Rightarrow> vmem \<Rightarrow> api"
where
  "lf_get_pop_loop recv depth queue pointer isBlocking useEventQueue var1 [] m = Blocked m"
| "lf_get_pop_loop recv depth queue pointer isBlocking useEventQueue var1 (e # es) m =
     (let old = ld_pop1 m queue;
          wait = (\<lambda>m1. case recv (ld_be32 m1 (lf_eq_id queue)) m1 of (r, m2) \<Rightarrow>
             if r \<noteq> CELL_OK then Throw m2
             else lf_get_pop_loop recv depth queue pointer isBlocking useEventQueue True es m2)
      in
      case lf_pop_decide depth var1 isBlocking useEventQueue
          (lf_bs_unset m queue) (m_h5 (ld_push1 m (lf_push1 queue))) old of
        LFReturn r \<Rightarrow> Ret r m
      | LFAgain \<Rightarrow> lf_get_pop_loop recv depth queue pointer isBlocking useEventQueue var1 es (e m)
      | LFWait \<Rightarrow> wait m
      | LFSwap pop res p \<Rightarrow>
          case vm_cas ld_pop1 st_pop1 queue old pop (e (lf_store_pointer pointer p m)) of
            (True, m1) \<Rightarrow> if m_h3 pop = 0 \<or> res \<noteq> 0 then Ret res m1 else wait m1
          | (False, m1) \<Rightarrow> lf_get_pop_loop recv depth queue pointer isBlocking useEventQueue var1 es m1)"

definition cellSyncLFQueueGetPopPointer ::
  "(u32 \<Rightarrow> vmem \<Rightarrow> error_code \<times> vmem) \<Rightarrow> (vmem \<Rightarrow> vmem) list \<Rightarrow> addr \<Rightarrow> addr \<Rightarrow> u32 \<Rightarrow> u32 \<Rightarrow> u32 \<Rightarrow> vmem \<Rightarrow> api"
where
  "cellSyncLFQueueGetPopPointer recv es queue pointer isBlocking arg4 useEventQueue m =
     (if ld_be32 m (lf_direction queue) \<noteq> CELL_SYNC_QUEUE_SPU2PPU then Ret (sync_err CELL_SYNC_ERROR_PERM) m
      else lf_get_pop_loop recv (sint (ld_be32 m (lf_depth queue))) queue pointer isBlocking useEventQueue False es m)"

definition cellSyncLFQueueGetPopPointer2 :: "addr \<Rightarrow> addr \<Rightarrow> u32 \<Rightarrow> u32 \<Rightarrow> vmem \<Rightarrow> api" where
  "cellSyncLFQueueGetPopPointer2 queue pointer isBlocking useEventQueue m = Ret CELL_OK m"

section \<open>Completing an index\<close>

text \<open>
  \<^verbatim>\<open>std::countl_zero<u32>((u16)~w) - 16\<close>: the number of leading ones of a 16-bit word.
\<close>

definition leading_ones :: "u16 \<Rightarrow> nat" where
  "leading_ones w = length (takeWhile (\<lambda>i. bit w (15 - i)) [0..<16])"

text \<open>\<^verbatim>\<open>1 slw (15 - var1)\<close>; a shift count outside the register is taken modulo 32.\<close>

definition lf_mark :: "int \<Rightarrow> u16" where
  "lf_mark var1 = (if (15 - var1) AND 0x30 \<noteq> 0 then 0 else word_of_int (2 ^ nat ((15 - var1) mod 32)))"

text \<open>The new index and completion map after entry \<open>pointer\<close> is finished.\<close>

definition lf_advance :: "int \<Rightarrow> int \<Rightarrow> u16 \<times> u16 \<Rightarrow> u16 \<times> u16" where
  "lf_advance depth pointer c =
     (case c of (h, bits) \<Rightarrow>
      let w = lf_mark (lf_wrap depth (pointer - uint h)) OR bits;
          var9 = leading_ones w;
          var5 = (if var9 = 16 then 0 else push_bit var9 w);
          var3 = uint h + int var9
      in (word_of_int (if var3 \<ge> depth * 2 then var3 - depth * 2 else var3), var5))"

definition pack_hi :: "u16 \<Rightarrow> int" where "pack_hi pack = uint ((drop_bit 10 pack) AND 0x1F)"
definition pack_mid :: "u16 \<Rightarrow> int" where "pack_mid pack = uint ((drop_bit 5 pack) AND 0x1F)"
definition pack_lo :: "u16 \<Rightarrow> int" where "pack_lo pack = uint (pack AND 0x1F)"

definition lf_wrap30 :: "int \<Rightarrow> int" where
  "lf_wrap30 x = (if x < 0 then x + 0x1E else x)"

text \<open>
  The waiting-consumer ring in \<open>pack\<close>: the slot to signal and the new \<open>pack\<close>, or
  \<open>None\<close> when nobody is signalled; \<open>False\<close> is a failed \<^verbatim>\<open>ensure\<close>.
\<close>

definition lf_signal :: "nat \<Rightarrow> int \<Rightarrow> bool \<Rightarrow> u16 \<Rightarrow> bool \<times> (int \<times> u16) option" where
  "lf_signal var9 var2 noQueueFull pack =
     (let var4 = lf_wrap30 (pack_hi pack - pack_mid pack) in
      if noQueueFull \<or> var2 + var4 > 15 \<or> pack_hi pack = pack_lo pack then (True, None)
      else
        let var8 = lf_wrap30 (pack_lo pack - pack_hi pack);
            var11 = (if pack_hi pack \<ge> 15 then pack_hi pack - 15 else pack_hi pack);
            var12 = (if pack_hi pack = 0x1D then 0 else push_bit 10 (word_of_int (pack_hi pack + 1)))
        in (\<not> (var9 > 1 \<and> (var8 > 1 \<or> var8 < 0)) \<or> 16 - var2 \<le> 1, Some (var11, (pack AND 0x83FF) OR var12)))"

text \<open>
  One iteration of \<^verbatim>\<open>_cellSyncLFQueueCompletePushPointer\<close> and
  \<^verbatim>\<open>_cellSyncLFQueueCompletePopPointer\<close>: \<open>mine\<close> is the half word with index and
  map, \<open>packs\<close> the cell of the packed waiters, \<open>hs\<close> their table, \<open>var2\<close> the number
  of entries the other side holds. \<open>e1\<close> and \<open>e2\<close> are the other threads before the
  first and the second swap; \<open>sig\<close> is the guest callback, \<open>None\<close> when null.
  \<open>strict\<close> is the additional \<^verbatim>\<open>ensure((var2 + var4 < 16))\<close> of the push side.
\<close>

datatype lf_pass = PDone api | PAgain vmem

definition lf_complete_pass ::
  "(addr \<Rightarrow> u32 \<Rightarrow> vmem \<Rightarrow> error_code \<times> vmem) option \<Rightarrow> bool \<Rightarrow> bool \<Rightarrow> int \<Rightarrow> int \<Rightarrow> int \<Rightarrow>
   addr \<Rightarrow> addr \<Rightarrow> addr \<Rightarrow> addr \<Rightarrow> (vmem \<Rightarrow> vmem) \<Rightarrow> (vmem \<Rightarrow> vmem) \<Rightarrow> vmem \<Rightarrow> lf_pass"
where
  "lf_complete_pass sig strict noQueueFull depth pointer var2 queue mine packs hs e1 e2 m =
     (let old = ld_be16 m packs;
          old2 = ld_half m mine;
          new = lf_advance depth pointer old2;
          var9 = leading_ones (lf_mark (lf_wrap depth (pointer - uint (fst old2))) OR snd old2)
      in
      case lf_signal var9 var2 noQueueFull old of
        (False, _) \<Rightarrow> PDone (Throw m)
      | (True, target) \<Rightarrow>
          let pack' = (case target of None \<Rightarrow> old | Some (_, p) \<Rightarrow> p);
              var6 = (case target of None \<Rightarrow> 0 | Some (i, _) \<Rightarrow> ld_be16 m (hs + 2 * word_of_int i))
          in
          case vm_cas ld_be16 st_be16 packs old pack' (e1 m) of
            (False, m1) \<Rightarrow> PAgain m1
          | (True, m1) \<Rightarrow>
              if strict \<and> \<not> var2 + lf_wrap30 (pack_hi old - pack_mid old) < 16 then PDone (Throw m1)
              else case target of
                Some _ \<Rightarrow>
                  (case vm_cas ld_half st_half mine old2 new (e2 m1) of
                     (False, m2) \<Rightarrow> PDone (Throw m2)
                   | (True, m2) \<Rightarrow>
                       (case sig of None \<Rightarrow> PDone (Throw m2)
                        | Some f \<Rightarrow>
                            (case vm_cast (ld_be64 m2 (lf_eaSignal queue)) of None \<Rightarrow> PDone (Throw m2)
                             | Some ea \<Rightarrow> (case f ea (ucast var6) m2 of (r, m3) \<Rightarrow> PDone (Ret r m3)))))
              | None \<Rightarrow>
                  let m2 = e2 m1; pack = ld_be16 m2 packs in
                  if pack_lo pack = pack_hi pack then
                    (case vm_cas ld_half st_half mine old2 new m2 of
                       (True, m3) \<Rightarrow> PDone (Ret CELL_OK m3)
                     | (False, m3) \<Rightarrow> PAgain m3)
                  else PAgain m2)"

fun lf_complete_push_loop ::
  "(addr \<Rightarrow> u32 \<Rightarrow> vmem \<Rightarrow> error_code \<times> vmem) option \<Rightarrow> int \<Rightarrow> int \<Rightarrow> addr \<Rightarrow>
   ((vmem \<Rightarrow> vmem) \<times> (vmem \<Rightarrow> vmem)) list \<Rightarrow> vmem \<Rightarrow> api"
where
  "lf_complete_push_loop sig depth pointer queue [] m = Blocked m"
| "lf_complete_push_loop sig depth pointer queue ((e1, e2) # es) m =
     (let pop = ld_pop1 m queue;
          var2 = lf_wrap depth (sint (m_h4 pop) - uint (m_h1 pop))
      in case lf_complete_pass sig True False depth pointer var2 queue (lf_push1 queue) (lf_push2 queue)
           (lf_hs1 queue) e1 e2 m of
        PDone r \<Rightarrow> r
      | PAgain m1 \<Rightarrow> lf_complete_push_loop sig depth pointer queue es m1)"

definition cellSyncLFQueueCompletePushPointer ::
  "(addr \<Rightarrow> u32 \<Rightarrow> vmem \<Rightarrow> error_code \<times> vmem) option \<Rightarrow> ((vmem \<Rightarrow> vmem) \<times> (vmem \<Rightarrow> vmem)) list \<Rightarrow>
   addr \<Rightarrow> int \<Rightarrow> vmem \<Rightarrow> api"
where
  "cellSyncLFQueueCompletePushPointer fpSendSignal es queue pointer m =
     (if ld_be32 m (lf_direction queue) \<noteq> CELL_SYNC_QUEUE_PPU2SPU then Ret (sync_err CELL_SYNC_ERROR_PERM) m
      else lf_complete_push_loop fpSendSignal (sint (ld_be32 m (lf_depth queue))) pointer queue es m)"

definition cellSyncLFQueueCompletePushPointer2 :: "addr \<Rightarrow> int \<Rightarrow> vmem \<Rightarrow> api" where
  "cellSyncLFQueueCompletePushPointer2 queue pointer m = Ret CELL_OK m"

fun lf_complete_pop_loop ::
  "(addr \<Rightarrow> u32 \<Rightarrow> vmem \<Rightarrow> error_code \<times> vmem) option \<Rightarrow> bool \<Rightarrow> int \<Rightarrow> int \<Rightarrow> addr \<Rightarrow>
   ((vmem \<Rightarrow> vmem) \<times> (vmem \<Rightarrow> vmem)) list \<Rightarrow> vmem \<Rightarrow> api"
where
  "lf_complete_pop_loop sig noQueueFull depth pointer queue [] m = Blocked m"
| "lf_complete_pop_loop sig noQueueFull depth pointer queue ((e1, e2) # es) m =
     (let push = ld_push1 m (lf_push1 queue);
          var2 = lf_wrap depth (sint (m_h8 push) - uint (m_h5 push))
      in case lf_complete_pass sig False noQueueFull depth pointer var2 queue queue (lf_pop2 queue)
           (lf_hs2 queue) e1 e2 m of
        PDone r \<Rightarrow> r
      | PAgain m1 \<Rightarrow> lf_complete_pop_loop sig noQueueFull depth pointer queue es m1)"

definition cellSyncLFQueueCompletePopPointer ::
  "(addr \<Rightarrow> u32 \<Rightarrow> vmem \<Rightarrow> error_code \<times> vmem) option \<Rightarrow> ((vmem \<Rightarrow> vmem) \<times> (vmem \<Rightarrow> vmem)) list \<Rightarrow>
   addr \<Rightarrow> int \<Rightarrow> u32 \<Rightarrow> vmem \<Rightarrow> api"
where
  "cellSyncLFQueueCompletePopPointer fpSendSignal es queue pointer noQueueFull m =
     (if ld_be32 m (lf_direction queue) \<noteq> CELL_SYNC_QUEUE_SPU2PPU then Ret (sync_err CELL_SYNC_ERROR_PERM) m
      else lf_complete_pop_loop fpSendSignal (noQueueFull \<noteq> 0) (sint (ld_be32 m (lf_depth queue))) pointer queue es m)"

definition cellSyncLFQueueCompletePopPointer2 :: "addr \<Rightarrow> int \<Rightarrow> u32 \<Rightarrow> vmem \<Rightarrow> api" where
  "cellSyncLFQueueCompletePopPointer2 queue pointer noQueueFull m = Ret CELL_OK m"

section \<open>Pushing and popping\<close>

text \<open>
  The loop around the reservation ends with the first result that is not \<open>AGAIN\<close>; a
  non-blocking call makes one attempt. \<open>position\<close> is the guest stack variable. The offset of
  an entry is a product of two \<^verbatim>\<open>s32\<close>, taken at 32 bits and sign-extended before it is
  added to the buffer address.
\<close>

definition lf_slot :: "int \<Rightarrow> int \<Rightarrow> int" where
  "lf_slot depth pos = (if pos \<ge> depth then pos - depth else pos)"

definition lf_entry_addr :: "vmem \<Rightarrow> addr \<Rightarrow> addr \<Rightarrow> addr option" where
  "lf_entry_addr m queue position =
     (let depth = sint (ld_be32 m (lf_depth queue)); pos = sint (ld_be32 m position) in
      vm_cast ((ld_be64 m (lf_buffer queue) AND NOT 1) +
        word_of_int (sint (ld_be32 m (lf_size queue) * word_of_int (lf_slot depth pos)))))"

fun lf_reserve_loop :: "(vmem \<Rightarrow> api) \<Rightarrow> u32 \<Rightarrow> (bool \<times> (vmem \<Rightarrow> vmem)) list \<Rightarrow> vmem \<Rightarrow> api \<times> bool" where
  "lf_reserve_loop get isBlocking [] m = (Blocked m, False)"
| "lf_reserve_loop get isBlocking ((stopped, e) # es) m =
     (case get m of
        Ret r m1 \<Rightarrow>
          if isBlocking = 0 \<or> r \<noteq> sync_err CELL_SYNC_ERROR_AGAIN then (Ret r m1, r = 0)
          else if stopped then (Ret 0 m1, False) else lf_reserve_loop get isBlocking es (e m1)
      | other \<Rightarrow> (other, False))"

definition lf_body_error :: "addr \<Rightarrow> addr \<Rightarrow> CellSyncError option" where
  "lf_body_error queue buffer =
     (if queue = 0 \<or> buffer = 0 then Some CELL_SYNC_ERROR_NULL_POINTER
      else if \<not> vm_aligned queue 128 \<or> \<not> vm_aligned buffer 16 then Some CELL_SYNC_ERROR_ALIGN else None)"

definition cellSyncLFQueuePushBody ::
  "(u32 \<Rightarrow> vmem \<Rightarrow> error_code \<times> vmem) \<Rightarrow> (bool \<times> (vmem \<Rightarrow> vmem)) list \<Rightarrow> (vmem \<Rightarrow> vmem) list \<Rightarrow>
   ((vmem \<Rightarrow> vmem) \<times> (vmem \<Rightarrow> vmem)) list \<Rightarrow> addr \<Rightarrow> addr \<Rightarrow> addr \<Rightarrow> u32 \<Rightarrow> vmem \<Rightarrow> api"
where
  "cellSyncLFQueuePushBody recv es0 es1 es2 position queue buffer isBlocking m =
     (case lf_body_error queue buffer of Some e \<Rightarrow> Ret (sync_err e) m | None \<Rightarrow>
      let get = (\<lambda>m. if ld_be32 m (lf_direction queue) \<noteq> CELL_SYNC_QUEUE_ANY2ANY
                     then cellSyncLFQueueGetPushPointer recv es1 queue position isBlocking 0 m
                     else cellSyncLFQueueGetPushPointer2 queue position isBlocking 0 m) in
      case lf_reserve_loop get isBlocking es0 m of
        (r, False) \<Rightarrow> r
      | (Ret _ m1, True) \<Rightarrow>
          (case lf_entry_addr m1 queue position of None \<Rightarrow> Throw m1
           | Some a \<Rightarrow>
               let pos = sint (ld_be32 m1 position);
                   m2 = vm_memcpy m1 a buffer (unat (ld_be32 m1 (lf_size queue)))
               in if ld_be32 m2 (lf_direction queue) \<noteq> CELL_SYNC_QUEUE_ANY2ANY
                  then cellSyncLFQueueCompletePushPointer None es2 queue pos m2
                  else cellSyncLFQueueCompletePushPointer2 queue pos m2)
      | (r, True) \<Rightarrow> r)"

definition cellSyncLFQueuePopBody ::
  "(u32 \<Rightarrow> vmem \<Rightarrow> error_code \<times> vmem) \<Rightarrow> (bool \<times> (vmem \<Rightarrow> vmem)) list \<Rightarrow> (vmem \<Rightarrow> vmem) list \<Rightarrow>
   ((vmem \<Rightarrow> vmem) \<times> (vmem \<Rightarrow> vmem)) list \<Rightarrow> addr \<Rightarrow> addr \<Rightarrow> addr \<Rightarrow> u32 \<Rightarrow> vmem \<Rightarrow> api"
where
  "cellSyncLFQueuePopBody recv es0 es1 es2 position queue buffer isBlocking m =
     (case lf_body_error queue buffer of Some e \<Rightarrow> Ret (sync_err e) m | None \<Rightarrow>
      let get = (\<lambda>m. if ld_be32 m (lf_direction queue) \<noteq> CELL_SYNC_QUEUE_ANY2ANY
                     then cellSyncLFQueueGetPopPointer recv es1 queue position isBlocking 0 0 m
                     else cellSyncLFQueueGetPopPointer2 queue position isBlocking 0 m) in
      case lf_reserve_loop get isBlocking es0 m of
        (r, False) \<Rightarrow> r
      | (Ret _ m1, True) \<Rightarrow>
          (case lf_entry_addr m1 queue position of None \<Rightarrow> Throw m1
           | Some a \<Rightarrow>
               let pos = sint (ld_be32 m1 position);
                   m2 = vm_memcpy m1 buffer a (unat (ld_be32 m1 (lf_size queue)))
               in if ld_be32 m2 (lf_direction queue) \<noteq> CELL_SYNC_QUEUE_ANY2ANY
                  then cellSyncLFQueueCompletePopPointer None es2 queue pos 0 m2
                  else cellSyncLFQueueCompletePopPointer2 queue pos 0 m2)
      | (r, True) \<Rightarrow> r)"

section \<open>Clearing and inspecting\<close>

fun lf_clear_loop :: "addr \<Rightarrow> (vmem \<Rightarrow> vmem) list \<Rightarrow> vmem \<Rightarrow> api" where
  "lf_clear_loop queue [] m = Blocked m"
| "lf_clear_loop queue (e # es) m =
     (let old = ld_pop1 m queue;
          push = ld_push1 m (lf_push1 queue);
          any = (ld_be32 m (lf_direction queue) = CELL_SYNC_QUEUE_ANY2ANY);
          var1 = (if any then m_h7 push else ld_be16 m (lf_pop2 queue));
          var2 = (if any then m_h3 old else ld_be16 m (lf_pop2 queue))
      in
      if sint (m_h4 old) \<noteq> uint (m_h1 old) \<or> sint (m_h8 push) \<noteq> uint (m_h5 push) \<or>
         pack_hi var2 \<noteq> pack_lo var2 \<or> pack_hi var1 \<noteq> pack_lo var1
      then Ret (sync_err CELL_SYNC_ERROR_BUSY) m
      else
        let new = \<lparr>m_h1 = m_h5 push, m_h2 = m_h6 push, m_h3 = m_h7 push, m_h4 = m_h8 push\<rparr> in
        case vm_cas ld_pop1 st_pop1 queue old new (e m) of
          (True, m1) \<Rightarrow> Ret CELL_OK m1
        | (False, m1) \<Rightarrow> lf_clear_loop queue es m1)"

definition cellSyncLFQueueClear :: "(vmem \<Rightarrow> vmem) list \<Rightarrow> addr \<Rightarrow> vmem \<Rightarrow> api" where
  "cellSyncLFQueueClear es queue m =
     (if queue = 0 then Ret (sync_err CELL_SYNC_ERROR_NULL_POINTER) m
      else if \<not> vm_aligned queue 128 then Ret (sync_err CELL_SYNC_ERROR_ALIGN) m
      else lf_clear_loop queue es m)"

fun lf_size_loop :: "addr \<Rightarrow> addr \<Rightarrow> (vmem \<Rightarrow> vmem) list \<Rightarrow> vmem \<Rightarrow> api" where
  "lf_size_loop queue sz [] m = Blocked m"
| "lf_size_loop queue sz (e # es) m =
     (let old = ld_half m queue;
          var1 = ucast (m_h1 (ld_pop1 m queue)) :: u32;
          var2 = ucast (m_h5 (ld_push1 m (lf_push1 queue))) :: u32
      in
      case vm_cas ld_half st_half queue old old (e m) of
        (True, m1) \<Rightarrow>
          Ret CELL_OK (st_be32 m1 sz
            (if var1 \<le> var2 then var2 - var1 else var2 - var1 + ld_be32 m1 (lf_depth queue) * 2))
      | (False, m1) \<Rightarrow> lf_size_loop queue sz es m1)"

definition lf_query_error :: "addr \<Rightarrow> addr \<Rightarrow> CellSyncError option" where
  "lf_query_error queue out =
     (if queue = 0 \<or> out = 0 then Some CELL_SYNC_ERROR_NULL_POINTER
      else if \<not> vm_aligned queue 128 then Some CELL_SYNC_ERROR_ALIGN else None)"

definition cellSyncLFQueueSize :: "(vmem \<Rightarrow> vmem) list \<Rightarrow> addr \<Rightarrow> addr \<Rightarrow> vmem \<Rightarrow> api" where
  "cellSyncLFQueueSize es queue sz m =
     (case lf_query_error queue sz of Some e \<Rightarrow> Ret (sync_err e) m | None \<Rightarrow> lf_size_loop queue sz es m)"

definition cellSyncLFQueueDepth :: "addr \<Rightarrow> addr \<Rightarrow> vmem \<Rightarrow> api" where
  "cellSyncLFQueueDepth queue depth m =
     (case lf_query_error queue depth of Some e \<Rightarrow> Ret (sync_err e) m
      | None \<Rightarrow> Ret CELL_OK (st_be32 m depth (ld_be32 m (lf_depth queue))))"

text \<open>\<^verbatim>\<open>*ppSignal = queue->m_eaSignal\<close> narrows the 64-bit pointer.\<close>

definition cellSyncLFQueueGetSignalAddress :: "addr \<Rightarrow> addr \<Rightarrow> vmem \<Rightarrow> api" where
  "cellSyncLFQueueGetSignalAddress queue ppSignal m =
     (case lf_query_error queue ppSignal of Some e \<Rightarrow> Ret (sync_err e) m
      | None \<Rightarrow>
          (case vm_cast (ld_be64 m (lf_eaSignal queue)) of None \<Rightarrow> Throw m
           | Some ea \<Rightarrow> Ret CELL_OK (st_be32 m ppSignal ea)))"

definition cellSyncLFQueueGetDirection :: "addr \<Rightarrow> addr \<Rightarrow> vmem \<Rightarrow> api" where
  "cellSyncLFQueueGetDirection queue direction m =
     (case lf_query_error queue direction of Some e \<Rightarrow> Ret (sync_err e) m
      | None \<Rightarrow> Ret CELL_OK (st_be32 m direction (ld_be32 m (lf_direction queue))))"

definition cellSyncLFQueueGetEntrySize :: "addr \<Rightarrow> addr \<Rightarrow> vmem \<Rightarrow> api" where
  "cellSyncLFQueueGetEntrySize queue entry_size m =
     (case lf_query_error queue entry_size of Some e \<Rightarrow> Ret (sync_err e) m
      | None \<Rightarrow> Ret CELL_OK (st_be32 m entry_size (ld_be32 m (lf_size queue))))"

definition cellSyncLFQueueAttachLv2EventQueue :: "addr \<Rightarrow> u32 \<Rightarrow> addr \<Rightarrow> vmem \<Rightarrow> api" where
  "cellSyncLFQueueAttachLv2EventQueue spus num queue m = Ret CELL_OK m"

definition cellSyncLFQueueDetachLv2EventQueue :: "addr \<Rightarrow> u32 \<Rightarrow> addr \<Rightarrow> vmem \<Rightarrow> api" where
  "cellSyncLFQueueDetachLv2EventQueue spus num queue m = Ret CELL_OK m"

text \<open>The fields of an object, for building memories.\<close>

definition lf_object :: "vmem \<Rightarrow> addr \<Rightarrow> pop1_t \<Rightarrow> push1_t \<Rightarrow> u32 \<Rightarrow> u32 \<Rightarrow> u64 \<Rightarrow> u32 \<Rightarrow> u16 \<Rightarrow> vmem" where
  "lf_object m q pop push sz depth buffer direction pack =
     st_be16 (st_be32 (st_be64 (st_be32 (st_be32 (st_push1 (st_pop1 m (q + 0) pop) (lf_push1 q) push)
       (lf_size q) sz) (lf_depth q) depth) (lf_buffer q) buffer) (lf_direction q) direction) (lf_push2 q) pack"

section \<open>The contract of the completion map\<close>

text \<open>The finished entries behind the published index, as distances from it.\<close>

definition pending :: "u16 \<Rightarrow> nat set" where
  "pending w = {k. k < 16 \<and> bit w (15 - k)}"

text \<open>How many entries in a row, from distance 0 on, are finished.\<close>

definition run_length :: "nat set \<Rightarrow> nat" where
  "run_length S = (LEAST n. n \<notin> S)"

section \<open>The completion map\<close>

lemma pending_or: "pending (v OR w) = pending v \<union> pending w"
  by (auto simp: pending_def bit_or_iff)

lemma pending_mark:
  assumes "k < 16"
  shows "pending (lf_mark (int k)) = {k}"
proof -
  have "(15 - int k) AND 0x30 = 0"
  proof -
    have "k \<in> set [0..<16]" using assms by simp
    then show ?thesis by (simp add: upt_rec) (auto)
  qed
  moreover have "nat ((15 - int k) mod 32) = 15 - k" using assms by (simp add: nat_diff_distrib)
  ultimately have "lf_mark (int k) = 2 ^ (15 - k)" by (simp add: lf_mark_def)
  then show ?thesis using assms by (auto simp: pending_def bit_exp_iff)
qed

lemma leading_ones_run: "leading_ones w = run_length (pending w)"
proof -
  let ?P = "\<lambda>i. bit w (15 - i)" and ?n = "leading_ones w"
  have n: "?n \<le> 16" using length_takeWhile_le [of ?P "[0..<16]"] by (simp add: leading_ones_def)
  have below: "j \<in> pending w" if "j < ?n" for j
  proof -
    have "takeWhile ?P [0..<16] ! j \<in> set (takeWhile ?P [0..<16])"
      using that by (simp add: leading_ones_def)
    moreover have "takeWhile ?P [0..<16] ! j = j"
      using that n by (subst takeWhile_nth) (simp_all add: leading_ones_def)
    ultimately show ?thesis using set_takeWhileD [of j ?P "[0..<16]"] by (simp add: pending_def)
  qed
  have "?n \<notin> pending w"
    using nth_length_takeWhile [of ?P "[0..<16]"] n
    by (cases "?n < 16") (auto simp: pending_def leading_ones_def)
  then show ?thesis
    unfolding run_length_def using below by (intro Least_equality [symmetric]) (auto simp: not_less [symmetric])
qed

lemma run_length_le: "S \<subseteq> {..<n} \<Longrightarrow> run_length S \<le> n"
  unfolding run_length_def by (rule Least_le) auto

lemma pending_shift:
  assumes "n \<le> 16"
  shows "pending (if n = 16 then 0 else push_bit n w) = {j. j + n \<in> pending w}"
proof (cases "n = 16")
  case True
  then show ?thesis by (auto simp: pending_def)
next
  case False
  then have n: "n < 16" using assms by simp
  have "j < 16 \<and> bit (push_bit n w) (15 - j) \<longleftrightarrow> j + n < 16 \<and> bit w (15 - (j + n))" for j
  proof (cases "j + n < 16")
    case True
    then show ?thesis using n by (auto simp: bit_push_bit_iff)
  next
    case False
    then show ?thesis by (auto simp: bit_push_bit_iff)
  qed
  then show ?thesis using False by (simp add: pending_def)
qed

lemma lf_wrap_mod:
  assumes "0 \<le> x" "x < 2 * depth" and "0 \<le> h" "h < 2 * depth"
  shows "lf_wrap depth (x - h) = (x - h) mod (2 * depth)"
proof (cases "x < h")
  case True
  have "(x - h) mod (2 * depth) = (x - h + 2 * depth) mod (2 * depth)" by simp
  also have "\<dots> = x - h + 2 * depth" using True assms by (intro mod_pos_pos_trivial) simp_all
  finally show ?thesis using True by (simp add: lf_wrap_def)
qed (use assms in \<open>simp add: lf_wrap_def\<close>)

lemma lf_reduce:
  assumes "0 \<le> x" and "x < 4 * (depth :: int)"
  shows "(if x \<ge> depth * 2 then x - depth * 2 else x) = x mod (2 * depth)"
proof (cases "x \<ge> depth * 2")
  case True
  have "x mod (2 * depth) = (x - 2 * depth) mod (2 * depth)" by (rule minus_mod_self2 [symmetric])
  also have "\<dots> = x - 2 * depth" using True assms by (intro mod_pos_pos_trivial) simp_all
  finally show ?thesis using True by simp
qed (use assms in simp)

lemma lf_distance:
  assumes "0 \<le> h" "h < 2 * depth" and "int k < 2 * depth"
  shows "lf_wrap depth ((h + int k) mod (2 * depth) - h) = int k"
proof -
  have "lf_wrap depth ((h + int k) mod (2 * depth) - h) = ((h + int k) mod (2 * depth) - h) mod (2 * depth)"
    using assms by (intro lf_wrap_mod) simp_all
  also have "\<dots> = int k mod (2 * depth)" by (simp add: mod_diff_left_eq)
  finally show ?thesis using assms by simp
qed

lemma lf_advance_spec:
  fixes h bits :: u16
  assumes "0 < depth" "depth \<le> 0x7FFF" and "uint h < 2 * depth" and "k < 16"
    and "insert k (pending bits) \<subseteq> {..<nat depth}"
    and "lf_advance depth ((uint h + int k) mod (2 * depth)) (h, bits) = (h', bits')"
  shows "uint h' = (uint h + int (run_length (insert k (pending bits)))) mod (2 * depth) \<and>
    pending bits' = {j. j + run_length (insert k (pending bits)) \<in> insert k (pending bits)}"
proof -
  let ?S = "insert k (pending bits)" and ?n = "run_length (insert k (pending bits))"
  let ?w = "lf_mark (int k) OR bits"
  have "k < nat depth" using assms(5) by simp
  then have "int k < 2 * depth" by linarith
  then have k: "lf_wrap depth ((uint h + int k) mod (2 * depth) - uint h) = int k"
    using assms(3) by (intro lf_distance) simp_all
  have S: "pending ?w = ?S" using assms(4) by (simp add: pending_or pending_mark)
  then have n: "leading_ones ?w = ?n" by (simp add: leading_ones_run)
  have le: "int ?n \<le> depth" using run_length_le [OF assms(5)] assms(1) by linarith
  have "?S \<subseteq> {..<16}" using S by (auto simp: pending_def)
  then have n16: "?n \<le> 16" by (rule run_length_le)
  have r: "h' = word_of_int (if uint h + int ?n \<ge> depth * 2 then uint h + int ?n - depth * 2 else uint h + int ?n)"
    "bits' = (if ?n = 16 then 0 else push_bit ?n ?w)"
    using assms(6) unfolding lf_advance_def prod.case Let_def k n by (auto simp only: prod.inject)
  have m: "(if uint h + int ?n \<ge> depth * 2 then uint h + int ?n - depth * 2 else uint h + int ?n) =
      (uint h + int ?n) mod (2 * depth)"
    using le assms(1,3) by (intro lf_reduce) (simp, linarith)
  have "0 \<le> (uint h + int ?n) mod (2 * depth)" using assms(1) by (intro pos_mod_sign) simp
  moreover have "(uint h + int ?n) mod (2 * depth) < 2 * depth" using assms(1) by (intro pos_mod_bound) simp
  then have "(uint h + int ?n) mod (2 * depth) < 2 ^ 16"
    by (rule less_le_trans) (use assms(2) in simp)
  ultimately have "uint h' = (uint h + int ?n) mod (2 * depth)"
    unfolding r(1) m uint_word_of_int_eq by (intro take_bit_int_eq_self) simp_all
  moreover have "pending bits' = {j. j + ?n \<in> ?S}"
    unfolding r(2) using pending_shift [OF n16, of ?w] S by simp
  ultimately show ?thesis by blast
qed

text \<open>
  Completing an entry publishes exactly the finished ones: whatever order producers finish in,
  completing the entry at distance \<open>k\<close> adds it to the set of finished entries, moves the
  published index over the longest run of finished entries and keeps the rest in the map
  relative to the new index.
\<close>

theorem lf_advance_publishes_run:
  fixes h bits :: u16
  assumes "0 < depth" "depth \<le> 0x7FFF" and "uint h < 2 * depth" and "k < 16"
    and "insert k (pending bits) \<subseteq> {..<nat depth}"
    and "lf_advance depth ((uint h + int k) mod (2 * depth)) (h, bits) = (h', bits')"
  shows "uint h' = (uint h + int (run_length (insert k (pending bits)))) mod (2 * depth) \<and>
    pending bits' = {j. j + run_length (insert k (pending bits)) \<in> insert k (pending bits)}"
  using assms by (rule lf_advance_spec)

theorem lf_advance_publishes_run_witness:
  "\<exists>h' bits'. lf_advance 4 ((7 + 0) mod 8) (7, lf_mark 1 OR lf_mark 2) = (h', bits') \<and>
     uint h' = (7 + int (run_length {0, 1, 2})) mod 8 \<and> uint h' = 2 \<and> pending bits' = {}"
proof -
  have p: "pending (lf_mark 1 OR lf_mark 2) = {1, 2}"
    using pending_mark [of 1] pending_mark [of 2] by (auto simp: pending_or)
  have r: "run_length {0, 1, 2} = 3" "run_length {0, Suc 0, 2} = 3"
    unfolding run_length_def by (rule Least_equality; auto)+
  obtain h' bits' where a: "lf_advance 4 ((uint (7 :: u16) + int 0) mod (2 * 4)) (7, lf_mark 1 OR lf_mark 2) = (h', bits')"
    by force
  have "uint h' = (uint (7 :: u16) + int 3) mod (2 * 4)" "pending bits' = {j. j + 3 \<in> {0, 1, 2}}"
    using lf_advance_publishes_run [OF _ _ _ _ _ a] by (simp_all add: p r)
  moreover have "{j. j + 3 \<in> {0, 1, 2 :: nat}} = {}" by auto
  ultimately show ?thesis using a by (simp add: r)
qed

section \<open>Reservation\<close>

lemma pending_empty: "pending w = {} \<Longrightarrow> w = 0"
proof (rule bit_eqI)
  fix n assume "pending w = {}" and "possible_bit TYPE(u16) n"
  then have "n < 16" "15 - n \<notin> pending w" by (simp_all add: possible_bit_def)
  then show "bit w n \<longleftrightarrow> bit 0 n" by (simp add: pending_def)
qed

lemma sint_u16_small: "uint (w :: u16) < 0x8000 \<Longrightarrow> sint w = uint w"
proof -
  assume "uint w < 0x8000"
  moreover have "- (2 ^ 15) \<le> uint w" by (rule order_trans [OF _ uint_ge_0]) simp
  ultimately have "signed_take_bit 15 (uint w) = uint w"
    by (intro signed_take_bit_int_eq_self) simp_all
  then show ?thesis by (simp add: sint_uint)
qed

lemma sint_u16_large:
  assumes "0x8000 \<le> uint (w :: u16)"
  shows "sint w = uint w - 0x10000"
proof -
  have "(uint w + 32768) mod 65536 = (uint w + 32768 - 65536) mod 65536" by (rule minus_mod_self2 [symmetric])
  also have "\<dots> = uint w - 32768"
    using assms uint_bounded [of w] by (subst mod_pos_pos_trivial) simp_all
  finally show ?thesis
    by (simp add: sint_uint signed_take_bit_eq_take_bit_shift take_bit_eq_mod)
qed

lemma lf_index_step:
  assumes "0 < d" and "d \<le> 0x4000" and "uint (w :: u16) = int r mod (2 * d)"
  shows "(if sint w + 1 \<ge> d * 2 then 0 else w + 1) = word_of_int (int (Suc r) mod (2 * d))"
proof -
  have lt: "uint w < 2 * d" using assms(1,3) by simp
  then have s: "sint w = uint w" using assms(2) by (intro sint_u16_small) linarith
  have m: "int (Suc r) mod (2 * d) = (uint w + 1) mod (2 * d)"
    by (simp add: assms(3) mod_add_right_eq add.commute)
  show ?thesis
  proof (cases "uint w + 1 \<ge> d * 2")
    case True
    then have "uint w + 1 = 2 * d" using lt by linarith
    then show ?thesis using s m by simp
  next
    case False
    then have "(uint w + 1) mod (2 * d) = uint w + 1" using lt by (intro mod_pos_pos_trivial) simp_all
    then show ?thesis using s m False by (simp add: word_of_int_uint)
  qed
qed

lemma lf_counter_distance:
  assumes "0 < d" and "a \<le> b" and "b < a + nat (2 * d)"
  shows "lf_wrap d (int b mod (2 * d) - int a mod (2 * d)) = int b - int a"
proof -
  have "lf_wrap d (int b mod (2 * d) - int a mod (2 * d)) = (int b mod (2 * d) - int a mod (2 * d)) mod (2 * d)"
    using assms(1) by (intro lf_wrap_mod) simp_all
  also have "\<dots> = (int b - int a) mod (2 * d)" by (simp add: mod_diff_eq)
  also have "\<dots> = int b - int a" using assms by (intro mod_pos_pos_trivial) linarith+
  finally show ?thesis .
qed

lemma lf_push_reserves_spec:
  assumes "0 < depth" "depth \<le> 0x4000" and "c \<le> r" "r \<le> c + nat depth"
    and "uint h1 = int c mod (2 * depth)" and "uint (m_h8 old) = int r mod (2 * depth)"
  shows "lf_push_decide depth False isBlocking 0 bs_unset h1 old =
    (if r < c + nat depth
     then LFSwap (old\<lparr>m_h8 := word_of_int (int (Suc r) mod (2 * depth))\<rparr>) CELL_OK (Some (int r mod (2 * depth)))
     else if isBlocking = 0 then LFReturn (sync_err CELL_SYNC_ERROR_AGAIN) else LFAgain)"
proof -
  have "uint (m_h8 old) < 2 * depth" using assms(1,6) by simp
  then have s: "sint (m_h8 old) = int r mod (2 * depth)"
    using assms(2,6) by (subst sint_u16_small) linarith+
  have "lf_wrap depth (int r mod (2 * depth) - int c mod (2 * depth)) = int r - int c"
    using assms(1,3,4) by (intro lf_counter_distance) linarith+
  moreover have "int r - int c < depth \<longleftrightarrow> r < c + nat depth" using assms(1) by linarith
  ultimately show ?thesis
    using lf_index_step [OF assms(1,2,6)] by (simp add: lf_push_decide_def Let_def s assms(5))
qed

text \<open>
  Producers reserve indices in order and never more than \<open>depth\<close> ahead of the consumers: with
  a depth of at most \<open>0x4000\<close>, and \<open>c\<close> entries released by consumers and \<open>r\<close> reserved
  by producers so far, the reservation takes index \<open>r\<close> if \<open>r < c + depth\<close>; otherwise
  it reports \<^verbatim>\<open>CELL_SYNC_ERROR_AGAIN\<close> or goes round the loop again.
\<close>

theorem lf_push_reserves_next:
  assumes "0 < depth" "depth \<le> 0x4000" and "c \<le> r" "r \<le> c + nat depth"
    and "uint h1 = int c mod (2 * depth)" and "uint (m_h8 old) = int r mod (2 * depth)"
  shows "lf_push_decide depth False isBlocking 0 bs_unset h1 old =
    (if r < c + nat depth
     then LFSwap (old\<lparr>m_h8 := word_of_int (int (Suc r) mod (2 * depth))\<rparr>) CELL_OK (Some (int r mod (2 * depth)))
     else if isBlocking = 0 then LFReturn (sync_err CELL_SYNC_ERROR_AGAIN) else LFAgain)"
  using assms by (rule lf_push_reserves_spec)

theorem lf_push_reserves_next_witness:
  "lf_push_decide 2 False 0 0 True 3 \<lparr>m_h5 = 0, m_h6 = 0, m_h7 = 0, m_h8 = 0\<rparr> =
     LFSwap \<lparr>m_h5 = 0, m_h6 = 0, m_h7 = 0, m_h8 = 1\<rparr> CELL_OK (Some 0)"
  using lf_push_reserves_next [of 2 3 4 3 "\<lparr>m_h5 = 0, m_h6 = 0, m_h7 = 0, m_h8 = 0\<rparr>" 0 True] by simp

text \<open>
  Consumers reserve the published entries in order: with \<open>t\<close> entries reserved by consumers and
  \<open>p\<close> published so far, the reservation takes index \<open>t\<close> if \<open>t < p\<close>.
\<close>

theorem lf_pop_reserves_next:
  assumes "0 < depth" "depth \<le> 0x4000" and "t \<le> p" "p \<le> t + nat depth"
    and "uint h5 = int p mod (2 * depth)" and "uint (m_h4 old) = int t mod (2 * depth)"
  shows "lf_pop_decide depth False isBlocking 0 bs_unset h5 old =
    (if t < p
     then LFSwap (old\<lparr>m_h4 := word_of_int (int (Suc t) mod (2 * depth))\<rparr>) CELL_OK (Some (int t mod (2 * depth)))
     else if isBlocking = 0 then LFReturn (sync_err CELL_SYNC_ERROR_AGAIN) else LFAgain)"
proof -
  have "uint (m_h4 old) < 2 * depth" using assms(1,6) by simp
  then have s: "sint (m_h4 old) = int t mod (2 * depth)"
    using assms(2,6) by (subst sint_u16_small) linarith+
  have "lf_wrap depth (int p mod (2 * depth) - int t mod (2 * depth)) = int p - int t"
    using assms(1,3,4) by (intro lf_counter_distance) linarith+
  then show ?thesis
    using lf_index_step [OF assms(1,2,6)] by (simp add: lf_pop_decide_def Let_def s assms(5))
qed

theorem lf_pop_reserves_next_witness:
  "lf_pop_decide 2 False 0 0 True 0 \<lparr>m_h1 = 3, m_h2 = 0, m_h3 = 0, m_h4 = 3\<rparr> =
     LFSwap \<lparr>m_h1 = 3, m_h2 = 0, m_h3 = 0, m_h4 = 0\<rparr> CELL_OK (Some 3)"
  using lf_pop_reserves_next [of 2 3 4 0 "\<lparr>m_h1 = 3, m_h2 = 0, m_h3 = 0, m_h4 = 3\<rparr>" 0 True] by simp

lemma lf_slot_mod:
  assumes "0 < d"
  shows "lf_slot d (int z mod (2 * d)) = int z mod d"
proof -
  have "int z mod (2 * d) mod d = int z mod d" by (simp add: mod_mod_cancel)
  moreover have "lf_slot d v = v mod d" if "0 \<le> v" "v < 2 * d" for v
  proof (cases "v \<ge> d")
    case True
    have "v mod d = (v - d) mod d" by (rule minus_mod_self2 [symmetric])
    also have "\<dots> = v - d" using True that by (intro mod_pos_pos_trivial) simp_all
    finally show ?thesis using True by (simp add: lf_slot_def)
  qed (use that in \<open>simp add: lf_slot_def\<close>)
  ultimately show ?thesis using assms by simp
qed

text \<open>
  The entries of any \<open>depth\<close> consecutive indices lie in different slots of the buffer, so no two
  reservations that are in use at the same time share one.
\<close>

theorem lf_slots_distinct:
  assumes "0 < depth" and "x < y" and "y < x + nat depth"
  shows "lf_slot depth (int x mod (2 * depth)) \<noteq> lf_slot depth (int y mod (2 * depth))"
proof -
  have "int x mod depth \<noteq> int y mod depth"
  proof
    assume "int x mod depth = int y mod depth"
    then have "depth dvd int y - int x" by (metis mod_eq_dvd_iff)
    then show False using assms zdvd_not_zless [of "int y - int x" depth] by linarith
  qed
  then show ?thesis using assms(1) by (simp only: lf_slot_mod not_False_eq_True)
qed

theorem lf_slots_distinct_witness:
  "lf_slot 4 (int 7 mod (2 * 4)) = 3 \<and> lf_slot 4 (int 10 mod (2 * 4)) = 2 \<and>
   lf_slot 4 (int 7 mod (2 * 4)) \<noteq> lf_slot 4 (int 10 mod (2 * 4))"
  using lf_slots_distinct [of 4 7 10] by (simp add: lf_slot_def)

section \<open>The object in memory\<close>

interpretation cell_half: vm_cell ld_half st_half 4
  using vm_cell_pair [OF cell_be16.vm_cell_axioms cell_be16.vm_cell_axioms, of 2]
  by (simp add: ld_half_def [abs_def] st_half_def [abs_def])

interpretation cell_push1: vm_cell ld_push1 st_push1 8
proof -
  have "vm_cell (\<lambda>m a. (\<lambda>p. \<lparr>m_h5 = fst (fst p), m_h6 = snd (fst p), m_h7 = fst (snd p), m_h8 = snd (snd p)\<rparr>)
        (ld_half m a, ld_half m (a + 4)))
      (\<lambda>m a v. (\<lambda>m a v. st_half (st_half m a (fst v)) (a + 4) (snd v)) m a
         ((\<lambda>c. ((m_h5 c, m_h6 c), (m_h7 c, m_h8 c))) v)) (4 + 4)"
    by (rule vm_cell_rename [OF vm_cell_pair [OF cell_half.vm_cell_axioms cell_half.vm_cell_axioms, of 4]])
      simp_all
  then show "vm_cell ld_push1 st_push1 8"
    by (simp add: ld_push1_def [abs_def] st_push1_def [abs_def] ld_half_def st_half_def add.commute [of 6])
qed

interpretation cell_pop1: vm_cell ld_pop1 st_pop1 8
proof -
  have "vm_cell (\<lambda>m a. (\<lambda>p. \<lparr>m_h1 = fst (fst p), m_h2 = snd (fst p), m_h3 = fst (snd p), m_h4 = snd (snd p)\<rparr>)
        (ld_half m a, ld_half m (a + 4)))
      (\<lambda>m a v. (\<lambda>m a v. st_half (st_half m a (fst v)) (a + 4) (snd v)) m a
         ((\<lambda>c. ((m_h1 c, m_h2 c), (m_h3 c, m_h4 c))) v)) (4 + 4)"
    by (rule vm_cell_rename [OF vm_cell_pair [OF cell_half.vm_cell_axioms cell_half.vm_cell_axioms, of 4]])
      simp_all
  then show "vm_cell ld_pop1 st_pop1 8"
    by (simp add: ld_pop1_def [abs_def] st_pop1_def [abs_def] ld_half_def st_half_def add.commute [of 6])
qed

lemma ld_half_push1: "ld_half m a = (m_h5 (ld_push1 m a), m_h6 (ld_push1 m a))"
  by (simp add: ld_half_def ld_push1_def)

lemma ld_push1_st_half:
  "ld_push1 (st_half m a v) a = (ld_push1 m a)\<lparr>m_h5 := fst v, m_h6 := snd v\<rparr>"
proof -
  have "ld_half (st_half m a v) a = v" by (rule cell_half.ld_st)
  moreover have "ld_half (st_half m a v) (a + 4) = ld_half m (a + 4)"
    using span_disjoint_offsets [of 0 4 4 4 a]
    by (intro cell_half.ld_unchanged [where B = "span a 4"]) (auto simp: cell_half.st_outside Int_commute)
  ultimately show ?thesis by (cases v) (simp add: ld_push1_def ld_half_def add.commute [of 6])
qed

text \<open>Two fields of one object that do not overlap.\<close>

lemma lf_apart:
  assumes "unat d + n \<le> unat e \<and> unat e + k \<le> 2 ^ 32 \<or> unat e + k \<le> unat d \<and> unat d + n \<le> 2 ^ 32"
  shows "span (q + d) n \<inter> span (q + e) k = {}"
  using assms span_disjoint_offsets [of d n e k q] span_disjoint_offsets [of e k d n q] by auto

lemma lf_other_field:
  assumes "vm_cell ld1 st1 n1" and "vm_cell ld2 st2 n2"
    and "unat d + n1 \<le> unat e \<and> unat e + n2 \<le> 2 ^ 32 \<or> unat e + n2 \<le> unat d \<and> unat d + n1 \<le> 2 ^ 32"
  shows "ld1 (st2 m (q + e) v) (q + d) = ld1 m (q + d)"
  using lf_apart [OF assms(3), of q]
  by (intro vm_cell.ld_unchanged [OF assms(1), where B = "span (q + e) n2"]) (auto intro: vm_cell.st_outside [OF assms(2)])

lemma lf_outside_field:
  assumes "vm_cell ld st n" and "unat d + n \<le> 128" and "\<And>x. x \<in> span q 128 \<Longrightarrow> m' x = m x"
  shows "ld m' (q + d) = ld m (q + d)"
  using assms span_shift [of d n 128 q] by (intro vm_cell.ld_cong [OF assms(1)]) auto

lemmas lf_field_defs = lf_push1_def lf_size_def lf_depth_def lf_buffer_def lf_direction_def lf_push2_def

lemma lf_fields_push1:
  "ld_be32 (st_push1 m (lf_push1 q) v) (lf_direction q) = ld_be32 m (lf_direction q)"
  "ld_be32 (st_push1 m (lf_push1 q) v) (lf_depth q) = ld_be32 m (lf_depth q)"
  "ld_be32 (st_push1 m (lf_push1 q) v) (lf_size q) = ld_be32 m (lf_size q)"
  "ld_be64 (st_push1 m (lf_push1 q) v) (lf_buffer q) = ld_be64 m (lf_buffer q)"
  "ld_be16 (st_push1 m (lf_push1 q) v) (lf_push2 q) = ld_be16 m (lf_push2 q)"
  "ld_pop1 (st_push1 m (lf_push1 q) v) q = ld_pop1 m q"
  unfolding lf_field_defs
  using lf_other_field [OF cell_pop1.vm_cell_axioms cell_push1.vm_cell_axioms, of 0 8 m q v]
  by (simp_all add: lf_other_field [OF cell_be32.vm_cell_axioms cell_push1.vm_cell_axioms]
      lf_other_field [OF cell_be64.vm_cell_axioms cell_push1.vm_cell_axioms]
      lf_other_field [OF cell_be16.vm_cell_axioms cell_push1.vm_cell_axioms])

lemma lf_fields_outside:
  assumes "\<And>x. x \<in> span q 128 \<Longrightarrow> m' x = m x"
  shows "ld_be32 m' (lf_direction q) = ld_be32 m (lf_direction q)" "ld_be32 m' (lf_depth q) = ld_be32 m (lf_depth q)"
    "ld_be32 m' (lf_size q) = ld_be32 m (lf_size q)" "ld_be64 m' (lf_buffer q) = ld_be64 m (lf_buffer q)"
    "ld_be16 m' (lf_push2 q) = ld_be16 m (lf_push2 q)" "ld_pop1 m' q = ld_pop1 m q"
    "ld_push1 m' (lf_push1 q) = ld_push1 m (lf_push1 q)"
  unfolding lf_field_defs
  using lf_outside_field [OF cell_pop1.vm_cell_axioms _ assms, of 0]
  by (simp_all add: lf_outside_field [OF cell_be32.vm_cell_axioms _ assms] lf_outside_field [OF cell_be64.vm_cell_axioms _ assms]
      lf_outside_field [OF cell_be16.vm_cell_axioms _ assms] lf_outside_field [OF cell_push1.vm_cell_axioms _ assms])

section \<open>A push on its own\<close>

lemma lf_advance_next:
  assumes "0 < d" "d \<le> 0x4000" and h: "uint h = int r mod (2 * d)"
  shows "lf_advance d (int r mod (2 * d)) (h, 0) = (word_of_int (int (Suc r) mod (2 * d)), 0)"
proof -
  obtain h' b' where adv: "lf_advance d ((uint h + int 0) mod (2 * d)) (h, 0) = (h', b')" by force
  have p0: "pending 0 = {}" by (simp add: pending_def)
  have r: "run_length {0} = 1" unfolding run_length_def by (rule Least_equality) auto
  have lt: "uint h < 2 * d" using h assms(1) by simp
  have "uint h' = (uint h + int 1) mod (2 * d) \<and> pending b' = {j. j + 1 \<in> {0}}"
    using lf_advance_spec [OF assms(1) _ lt _ _ adv] assms by (simp add: p0 r)
  then have u: "uint h' = int (Suc r) mod (2 * d)" "pending b' = {}"
    by (simp_all add: h mod_add_left_eq mod_add_right_eq add.commute)
  have "h' = word_of_int (int (Suc r) mod (2 * d))" using u(1) by (metis word_of_int_uint)
  moreover have "b' = 0" using u(2) by (rule pending_empty)

  ultimately show ?thesis using adv lt h by simp
qed

lemma lf_get_push_swap:
  assumes "ld_be32 m (lf_direction q) = CELL_SYNC_QUEUE_PPU2SPU" and disj: "span q 128 \<inter> span position 4 = {}"
    and "lf_push_decide (sint (ld_be32 m (lf_depth q))) False isBlocking 0 (lf_bs_unset m q) (m_h1 (ld_pop1 m q))
      (ld_push1 m (lf_push1 q)) = LFSwap push CELL_OK (Some i)" and "m_h7 push = 0"
  shows "cellSyncLFQueueGetPushPointer recv (id # es) q position isBlocking 0 m =
    Ret CELL_OK (st_push1 (st_be32 m position (word_of_int i)) (lf_push1 q) push)"
proof -
  have "ld_push1 (st_be32 m position v) (lf_push1 q) = ld_push1 m (lf_push1 q)" for v
    using disj by (intro lf_fields_outside(7)) (auto intro: cell_be32.st_outside)
  then show ?thesis
    using assms(1,3,4) by (simp add: cellSyncLFQueueGetPushPointer_def vm_cas_def lf_store_pointer_def)
qed

lemma lf_reserve_alone:
  assumes "ld_be32 m (lf_direction q) = CELL_SYNC_QUEUE_PPU2SPU" and "sint (ld_be32 m (lf_depth q)) = d"
    and "0 < d" "d \<le> 0x4000" "c \<le> r" "r < c + nat d"
    and "uint (m_h1 (ld_pop1 m q)) = int c mod (2 * d)" and "uint (m_h8 (ld_push1 m (lf_push1 q))) = int r mod (2 * d)"
    and "m_h7 (ld_push1 m (lf_push1 q)) = 0" and disj: "span q 128 \<inter> span position 4 = {}"
  shows "cellSyncLFQueueGetPushPointer recv (id # es) q position isBlocking 0 m =
    Ret CELL_OK (st_push1 (st_be32 m position (word_of_int (int r mod (2 * d)))) (lf_push1 q)
      ((ld_push1 m (lf_push1 q))\<lparr>m_h8 := word_of_int (int (Suc r) mod (2 * d))\<rparr>))"
  using lf_push_reserves_spec [of d c r "m_h1 (ld_pop1 m q)" "ld_push1 m (lf_push1 q)"] assms
  by (intro lf_get_push_swap) simp_all

lemma lf_complete_alone:
  assumes "ld_be32 m (lf_direction q) = CELL_SYNC_QUEUE_PPU2SPU" and "sint (ld_be32 m (lf_depth q)) = d"
    and "0 < d" "d \<le> 0x4000" and "uint (m_h5 (ld_push1 m (lf_push1 q))) = int r mod (2 * d)"
    and "m_h6 (ld_push1 m (lf_push1 q)) = 0" and "ld_be16 m (lf_push2 q) = 0"
    and "sint (m_h4 (ld_pop1 m q)) = uint (m_h1 (ld_pop1 m q))"
  shows "cellSyncLFQueueCompletePushPointer None ((id, id) # es) q (int r mod (2 * d)) m =
    Ret CELL_OK (st_half m (lf_push1 q) (word_of_int (int (Suc r) mod (2 * d)), 0))"
proof -
  have half: "ld_half m (lf_push1 q) = (m_h5 (ld_push1 m (lf_push1 q)), 0)"
    using assms(6) by (simp add: ld_half_push1)
  have "st_be16 m (lf_push2 q) 0 = m" using cell_be16.st_ld [of m "lf_push2 q"] assms(7) by simp
  then show ?thesis
    using assms lf_advance_next [OF assms(3,4,5)]
    by (simp add: cellSyncLFQueueCompletePushPointer_def lf_complete_pass_def half lf_signal_def vm_cas_def
        pack_hi_def pack_lo_def pack_mid_def lf_wrap_def lf_wrap30_def)
qed

lemma lf_object_fields:
  "ld_pop1 (lf_object m q pop push sz depth b dir pack) q = pop"
  "ld_push1 (lf_object m q pop push sz depth b dir pack) (lf_push1 q) = push"
  "ld_be32 (lf_object m q pop push sz depth b dir pack) (lf_size q) = sz"
  "ld_be32 (lf_object m q pop push sz depth b dir pack) (lf_depth q) = depth"
  "ld_be64 (lf_object m q pop push sz depth b dir pack) (lf_buffer q) = b"
  "ld_be32 (lf_object m q pop push sz depth b dir pack) (lf_direction q) = dir"
  "ld_be16 (lf_object m q pop push sz depth b dir pack) (lf_push2 q) = pack"
proof -
  note c = cell_pop1.vm_cell_axioms cell_push1.vm_cell_axioms cell_be16.vm_cell_axioms
    cell_be32.vm_cell_axioms cell_be64.vm_cell_axioms
  have "ld_pop1 (lf_object m q pop push sz depth b dir pack) (q + 0) = pop"
    unfolding lf_object_def lf_field_defs
    by (simp add: lf_other_field [OF c(1) c(2), where d = 0, simplified] lf_other_field [OF c(1) c(3), where d = 0, simplified]
        lf_other_field [OF c(1) c(4), where d = 0, simplified] lf_other_field [OF c(1) c(5), where d = 0, simplified] cell_pop1.ld_st)
  then show "ld_pop1 (lf_object m q pop push sz depth b dir pack) q = pop" by simp
  show "ld_push1 (lf_object m q pop push sz depth b dir pack) (lf_push1 q) = push"
    unfolding lf_object_def lf_field_defs
    by (simp add: lf_other_field [OF c(2) c(3)] lf_other_field [OF c(2) c(4)] lf_other_field [OF c(2) c(5)] cell_push1.ld_st)
  show "ld_be32 (lf_object m q pop push sz depth b dir pack) (lf_size q) = sz"
    "ld_be32 (lf_object m q pop push sz depth b dir pack) (lf_depth q) = depth"
    "ld_be32 (lf_object m q pop push sz depth b dir pack) (lf_direction q) = dir"
    unfolding lf_object_def lf_field_defs
    by (simp_all add: lf_other_field [OF c(4) c(3)] lf_other_field [OF c(4) c(4)] lf_other_field [OF c(4) c(5)] cell_be32.ld_st)
  show "ld_be64 (lf_object m q pop push sz depth b dir pack) (lf_buffer q) = b"
    unfolding lf_object_def lf_field_defs
    by (simp add: lf_other_field [OF c(5) c(3)] lf_other_field [OF c(5) c(4)] cell_be64.ld_st)
  show "ld_be16 (lf_object m q pop push sz depth b dir pack) (lf_push2 q) = pack"
    by (simp add: lf_object_def cell_be16.ld_st)
qed

lemma lf_index_sint:
  assumes "0 < d" "d \<le> 0x4000"
  shows "sint (word_of_int (int r mod (2 * d)) :: u32) = int r mod (2 * d)"
proof -
  have "int r mod (2 * d) < 2 * d" using assms(1) by (intro pos_mod_bound) simp
  then have "int r mod (2 * d) < 2 ^ 31" by (rule less_le_trans) (use assms(2) in simp)
  moreover have "0 \<le> int r mod (2 * d)" using assms(1) by simp
  ultimately show ?thesis by (subst signed_of_int) (simp add: signed_take_bit_int_eq_self)
qed

lemma lf_index_range:
  assumes "0 < d" "d \<le> 0x4000"
  shows "- (2 ^ 31) \<le> int r mod (2 * d)" "int r mod (2 * d) < 2 ^ 31"
proof -
  have "0 \<le> int r mod (2 * d)" "int r mod (2 * d) < 2 * d" using assms(1) by simp_all
  then have "- 2147483648 \<le> int r mod (2 * d)" "int r mod (2 * d) < 2147483648" using assms(2) by linarith+
  then show "- (2 ^ 31) \<le> int r mod (2 * d)" "int r mod (2 * d) < 2 ^ 31" by simp_all
qed

lemma lf_offset_range:
  assumes "k \<le> 0x4000" "0 < d" "d \<le> 0x4000"
  shows "- (2 ^ 31) \<le> int k * (int r mod d)" "int k * (int r mod d) < 2 ^ 31"
proof -
  have v: "0 \<le> int r mod d" using assms(2) by simp
  have "int r mod d < d" using assms(2) by simp
  then have u: "int r mod d \<le> 0x4000" using assms(3) by linarith
  have "0 \<le> int k * (int r mod d)" using v by simp
  then show "- (2 ^ 31) \<le> int k * (int r mod d)" by simp
  have "int k * (int r mod d) \<le> 0x4000 * 0x4000" using assms(1) v u by (intro mult_mono) simp_all
  then show "int k * (int r mod d) < 2 ^ 31" by simp
qed

lemma lf_small_sint:
  assumes "unat (v :: u32) \<le> 0x7FFF"
  shows "sint v = int (unat v)"
proof -
  have u: "uint v = int (unat v)" by simp
  then have "uint v < 2147483648" using assms by linarith
  then have "uint v < 2 ^ 31" by simp
  moreover have "- (2 ^ 31) \<le> uint v" by (rule order_trans [OF _ uint_ge_0]) simp
  ultimately have "signed_take_bit 31 (uint v) = uint v" by (intro signed_take_bit_int_eq_self)
  then show ?thesis by (simp add: sint_uint)
qed

lemma lf_entry_addr_reserved:
  assumes disj: "span q 128 \<inter> span position 4 = {}" and i: "- (2 ^ 31) \<le> i" "i < 2 ^ 31"
    and off: "sint (ld_be32 m (lf_size q)) * lf_slot (sint (ld_be32 m (lf_depth q))) i = off" "- (2 ^ 31) \<le> off" "off < 2 ^ 31"
  shows "ld_be32 (st_push1 (st_be32 m position (word_of_int i)) (lf_push1 q) v) position = word_of_int i"
    and "lf_entry_addr (st_push1 (st_be32 m position (word_of_int i)) (lf_push1 q) v) q position =
      vm_cast ((ld_be64 m (lf_buffer q) AND NOT 1) + word_of_int off)"
proof -
  let ?m0 = "st_be32 m position (word_of_int i)" and ?sz = "ld_be32 m (lf_size q)"
  let ?sl = "lf_slot (sint (ld_be32 m (lf_depth q))) i"
  have "span (lf_push1 q) 8 \<subseteq> span q 128" unfolding lf_push1_def by (rule span_shift) simp_all
  then have "ld_be32 (st_push1 ?m0 (lf_push1 q) v) position = ld_be32 ?m0 position"
    using disj by (intro cell_be32.ld_unchanged [where B = "span (lf_push1 q) 8"]) (auto intro: cell_push1.st_outside)
  then show pos: "ld_be32 (st_push1 ?m0 (lf_push1 q) v) position = word_of_int i" by (simp add: cell_be32.ld_st)
  have f0: "ld_be32 ?m0 (lf_depth q) = ld_be32 m (lf_depth q)" "ld_be32 ?m0 (lf_size q) = ?sz"
    "ld_be64 ?m0 (lf_buffer q) = ld_be64 m (lf_buffer q)"
    using disj by (auto intro!: lf_fields_outside intro: cell_be32.st_outside)
  have sg: "sint (word_of_int x :: u32) = x" if "- (2 ^ 31) \<le> x" "x < 2 ^ 31" for x
    using that by (subst signed_of_int) (simp add: signed_take_bit_int_eq_self)
  have "?sz * word_of_int ?sl = word_of_int (sint ?sz * ?sl)" by simp
  then have "sint (?sz * word_of_int ?sl) = off" using sg [OF off(2,3)] by (simp only: off(1))
  then show "lf_entry_addr (st_push1 ?m0 (lf_push1 q) v) q position =
      vm_cast ((ld_be64 m (lf_buffer q) AND NOT 1) + word_of_int off)"
    unfolding lf_entry_addr_def Let_def pos sg [OF i] by (simp only: lf_fields_push1 f0)
qed

lemma lf_push_bytes:
  assumes in_q: "span p 8 \<subseteq> span q 128" "span p 4 \<subseteq> span q 128"
    and disj: "span q 128 \<inter> span a k = {}" "span q 128 \<inter> span src k = {}" "span position 4 \<inter> span src k = {}"
    and k: "k \<le> 2 ^ 32"
  shows "vm_bytes (st_half (vm_memcpy (st_push1 (st_be32 m position v) p x) a src k) p y) a k = vm_bytes m src k"
proof -
  let ?m0 = "st_be32 m position v" and ?m1 = "st_push1 (st_be32 m position v) p x"
  have "vm_bytes (st_half (vm_memcpy ?m1 a src k) p y) a k = vm_bytes (vm_memcpy ?m1 a src k) a k"
    using in_q(2) disj(1) by (intro vm_bytes_cong cell_half.st_outside) auto
  also have "\<dots> = vm_bytes ?m1 src k" using k by (rule vm_bytes_memcpy)
  also have "\<dots> = vm_bytes ?m0 src k" using in_q(1) disj(2) by (intro vm_bytes_cong cell_push1.st_outside) auto
  also have "\<dots> = vm_bytes m src k" using disj(3) by (intro vm_bytes_cong cell_be32.st_outside) auto
  finally show ?thesis .
qed

text \<open>
  C30: An undisturbed \<^verbatim>\<open>_cellSyncLFQueuePushBody\<close> on a PPU-to-SPU queue with room, at any
  position of the ring and whether blocking or not, returns \<^verbatim>\<open>CELL_OK\<close>, has copied the
  caller's bytes to entry \<open>r mod depth\<close> of the buffer, where \<open>r\<close> is the number of entries pushed
  so far, and has published exactly that entry. The depth is at most \<open>0x4000\<close> (half of what
  \<^verbatim>\<open>cellSyncLFQueueInitialize\<close> accepts; above it the index may be read as negative) and the entry
  size at most \<open>0x4000\<close> (all that it accepts). The queue is at rest: no other producer or consumer is
  between its reservation and its completion and no waiter has to be signalled. The queue object overlaps
  neither the position variable nor the entry nor the caller's bytes, and the position variable does not
  overlap the caller's bytes.
\<close>

theorem lf_push_body_publishes:
  assumes args: "lf_body_error q src = None" and dir: "ld_be32 m (lf_direction q) = CELL_SYNC_QUEUE_PPU2SPU"
    and d: "sint (ld_be32 m (lf_depth q)) = d" "0 < d" "d \<le> 0x4000" and cr: "c \<le> r" "r < c + nat d"
    and pop: "uint (m_h1 (ld_pop1 m q)) = int c mod (2 * d)" "m_h4 (ld_pop1 m q) = m_h1 (ld_pop1 m q)"
    and push: "ld_push1 m (lf_push1 q) = \<lparr>m_h5 = w, m_h6 = 0, m_h7 = 0, m_h8 = w\<rparr>" "uint w = int r mod (2 * d)"
    and pack: "ld_be16 m (lf_push2 q) = 0" and k: "unat (ld_be32 m (lf_size q)) = k" "k \<le> 0x4000"
    and a: "vm_cast ((ld_be64 m (lf_buffer q) AND NOT 1) + word_of_int (int k * (int r mod d))) = Some a"
    and disj: "span q 128 \<inter> span position 4 = {}" "span q 128 \<inter> span a k = {}" "span q 128 \<inter> span src k = {}"
      "span position 4 \<inter> span src k = {}"
  shows "\<exists>m'. cellSyncLFQueuePushBody recv [(False, id)] [id] [(id, id)] position q src isBlocking m = Ret CELL_OK m' \<and>
    vm_bytes m' a k = vm_bytes m src k \<and>
    (let w' = word_of_int (int (Suc r) mod (2 * d)) in
      ld_push1 m' (lf_push1 q) = \<lparr>m_h5 = w', m_h6 = 0, m_h7 = 0, m_h8 = w'\<rparr>)"
proof -
  define wn where "wn = (word_of_int (int (Suc r) mod (2 * d)) :: u16)"
  let ?m0 = "st_be32 m position (word_of_int (int r mod (2 * d)))"
  let ?m1 = "st_push1 ?m0 (lf_push1 q) \<lparr>m_h5 = w, m_h6 = 0, m_h7 = 0, m_h8 = wn\<rparr>"
  let ?m2 = "vm_memcpy ?m1 a src k"
  let ?m3 = "st_half ?m2 (lf_push1 q) (wn, 0)"
  have get: "cellSyncLFQueueGetPushPointer recv [id] q position isBlocking 0 m = Ret CELL_OK ?m1"
    using lf_reserve_alone [OF dir d cr pop(1) _ _ disj(1), of recv "[]" isBlocking, folded wn_def] push by simp
  have in_q: "span (lf_push1 q) 8 \<subseteq> span q 128" "span (lf_push1 q) 4 \<subseteq> span q 128"
    unfolding lf_push1_def by (rule span_shift; simp)+
  have o0: "\<And>x. x \<in> span q 128 \<Longrightarrow> ?m0 x = m x" using disj(1) by (auto intro: cell_be32.st_outside)
  note f0 = lf_fields_outside [OF o0]
  note spos = lf_index_sint [OF d(2,3), of r]
  have off: "sint (ld_be32 m (lf_size q)) * lf_slot (sint (ld_be32 m (lf_depth q))) (int r mod (2 * d)) = int k * (int r mod d)"
    using lf_small_sint [of "ld_be32 m (lf_size q)"] k by (simp add: d(1) lf_slot_mod [OF d(2)])
  note at = lf_entry_addr_reserved [OF disj(1) lf_index_range [OF d(2,3)] off lf_offset_range [OF k(2) d(2,3)]]
  have pos: "ld_be32 ?m1 position = word_of_int (int r mod (2 * d))" by (rule at(1))
  have entry: "lf_entry_addr ?m1 q position = Some a" using a by (simp only: at(2))
  have o2: "\<And>x. x \<in> span q 128 \<Longrightarrow> ?m2 x = ?m1 x" using disj(2) by (auto intro: vm_memcpy_outside)
  note f2 = lf_fields_outside [OF o2]
  have w5: "uint (m_h5 (ld_push1 ?m2 (lf_push1 q))) = int r mod (2 * d)"
    using push(2) by (simp add: f2 cell_push1.ld_st)
  have "sint (m_h1 (ld_pop1 m q)) = uint (m_h1 (ld_pop1 m q))"
    using pop(1) d(2,3) pos_mod_bound [of "2 * d" "int c"] by (intro sint_u16_small) linarith
  then have comp: "cellSyncLFQueueCompletePushPointer None [(id, id)] q (int r mod (2 * d)) ?m2 = Ret CELL_OK ?m3"
    using dir d pack pop(2)
    by (intro lf_complete_alone [OF _ _ d(2,3) w5, folded wn_def]) (simp_all add: f2 lf_fields_push1 f0 cell_push1.ld_st)
  have "cellSyncLFQueuePushBody recv [(False, id)] [id] [(id, id)] position q src isBlocking m = Ret CELL_OK ?m3"
    using args dir get entry comp k
    by (simp add: cellSyncLFQueuePushBody_def CELL_SYNC_QUEUE_PPU2SPU_def CELL_SYNC_QUEUE_ANY2ANY_def
        CELL_OK_def pos spos lf_fields_push1 f0 f2)
  moreover have "k \<le> 2 ^ 32" using k(2) by simp
  then have "vm_bytes ?m3 a k = vm_bytes m src k" by (rule lf_push_bytes [OF in_q disj(2-4)])
  moreover have "ld_push1 ?m3 (lf_push1 q) = \<lparr>m_h5 = wn, m_h6 = 0, m_h7 = 0, m_h8 = wn\<rparr>"
    by (simp add: ld_push1_st_half f2 cell_push1.ld_st)
  ultimately show ?thesis by (auto simp: Let_def wn_def)
qed

theorem lf_push_body_publishes_witness:
  "\<exists>m m'. cellSyncLFQueuePushBody (\<lambda>_ m. (0, m)) [(False, id)] [id] [(id, id)] 0x700 0x100 0x400 1 m = Ret CELL_OK m' \<and>
     vm_bytes m' 0x810 16 = vm_bytes m 0x400 16 \<and>
     ld_push1 m' (lf_push1 0x100) = \<lparr>m_h5 = 0, m_h6 = 0, m_h7 = 0, m_h8 = 0\<rparr>"
proof -
  let ?m = "lf_object (\<lambda>_. 0) 0x100 \<lparr>m_h1 = 3, m_h2 = 0, m_h3 = 0, m_h4 = 3\<rparr>
    \<lparr>m_h5 = 3, m_h6 = 0, m_h7 = 0, m_h8 = 3\<rparr> 16 2 0x800 2 0"
  have c: "vm_cast ((ld_be64 ?m (lf_buffer 0x100) AND NOT 1) + word_of_int (int 16 * (int 3 mod 2))) = Some 0x810"
    by (simp add: lf_object_fields vm_cast_def word_le_nat_alt)
  have d: "span 0x100 128 \<inter> span 0x700 4 = {}" "span 0x100 128 \<inter> span 0x810 16 = {}"
      "span 0x100 128 \<inter> span 0x400 16 = {}" "span 0x700 4 \<inter> span 0x400 16 = {}"
    using span_disjoint_offsets [of "0x100" 128 "0x700" 4 0] span_disjoint_offsets [of "0x100" 128 "0x810" 16 0]
      span_disjoint_offsets [of "0x100" 128 "0x400" 16 0] span_disjoint_offsets [of "0x400" 16 "0x700" 4 0]
    by (simp_all add: Int_commute)
  have "\<exists>m'. cellSyncLFQueuePushBody (\<lambda>_ m. (0, m)) [(False, id)] [id] [(id, id)] 0x700 0x100 0x400 1 ?m = Ret CELL_OK m' \<and>
    vm_bytes m' 0x810 16 = vm_bytes ?m 0x400 16 \<and>
    (let w' = word_of_int (int (Suc 3) mod (2 * 2)) in
      ld_push1 m' (lf_push1 0x100) = \<lparr>m_h5 = w', m_h6 = 0, m_h7 = 0, m_h8 = w'\<rparr>)"
    by (rule lf_push_body_publishes [where c = 3 and w = 3, OF _ _ _ _ _ _ _ _ _ _ _ _ _ _ c d])
      (simp_all add: lf_object_fields lf_body_error_def vm_aligned_def CELL_SYNC_QUEUE_PPU2SPU_def)
  then show ?thesis by (auto simp: Let_def)
qed

lemma lf_cast_before:
  assumes "vm_aligned b 16" and "0 \<le> x" "x < 2 ^ 32"
  shows "vm_cast ((ucast b AND NOT 1) + word_of_int (- x)) = (if x \<le> uint b then Some (b - word_of_int x) else None)"
proof -
  have "bit (b AND 15) 0 \<longleftrightarrow> bit b 0" by (simp add: bit_and_iff)
  then have b0: "\<not> bit b 0" using assms(1) by (simp add: vm_aligned_def)
  have al: "(ucast b AND NOT 1 :: u64) = ucast b"
    using b0 by (intro bit_word_eqI) (auto simp: bit_simps elim: gr0_implies_Suc intro: ccontr)
  have b: "0 \<le> uint b" "uint b < 2 ^ 32" using uint_bounded [of b] by simp_all
  define y where "y = uint b - x"
  have p: "(ucast b AND NOT 1) + word_of_int (- x) = (word_of_int y :: u64)" unfolding al by (simp add: y_def)
  show ?thesis
  proof (cases "x \<le> uint b")
    case True
    then have y: "0 \<le> y" "y < 4294967296" using b assms(2) by (simp_all add: y_def)
    then have u: "uint (word_of_int y :: u64) = y" by (simp add: uint_word_of_int)
    then have "ucast (word_of_int y :: u64) = (word_of_int y :: u32)" by (simp add: ucast_eq)
    also have "\<dots> = b - word_of_int x" by (simp add: y_def)
    finally show ?thesis unfolding p vm_cast_def using True u y by (simp add: word_le_def)
  next
    case False
    moreover have "x < 4294967296" using assms(3) by simp
    ultimately have y: "- 4294967296 < y" "y < 0" unfolding y_def using b(1) by linarith+
    have "y mod 18446744073709551616 = (y + 18446744073709551616) mod 18446744073709551616" by simp
    also have "\<dots> = y + 18446744073709551616" using y by (intro mod_pos_pos_trivial) simp_all
    finally have "uint (word_of_int y :: u64) = y + 18446744073709551616" by (simp add: uint_word_of_int)
    then show ?thesis unfolding p vm_cast_def using False y by (simp add: word_le_def)
  qed
qed

text \<open>Reserving an index that does not fit a signed 16-bit number.\<close>

lemma lf_push_reserves_negative:
  assumes d: "0 < d" "d \<le> 0x7FFF" and cr: "c \<le> r" "r < c + nat d"
    and h1: "uint h1 = int c mod (2 * d)" and h8: "uint (m_h8 old) = int r mod (2 * d)" "0x8000 \<le> int r mod (2 * d)"
  shows "\<exists>push. lf_push_decide d False isBlocking 0 bs_unset h1 old =
      LFSwap push CELL_OK (Some (int r mod (2 * d) - 0x10000)) \<and> m_h7 push = m_h7 old"
proof -
  have s: "sint (m_h8 old) = int r mod (2 * d) - 0x10000" using h8 by (simp add: sint_u16_large)
  have b: "0 \<le> int c mod (2 * d)" "int r mod (2 * d) < 2 * d" "int c mod (2 * d) < 2 * d" using d(1) by simp_all
  have "lf_wrap d (int r mod (2 * d) - int c mod (2 * d)) = int r - int c"
    using d(1) cr by (intro lf_counter_distance) linarith+
  then have "lf_wrap d (int r mod (2 * d) - int c mod (2 * d)) < d" using cr by linarith
  then have "lf_wrap d (int r mod (2 * d) - 0x10000 - int c mod (2 * d)) < d"
    using b d h8(2) by (auto simp: lf_wrap_def split: if_splits)
  then show ?thesis by (simp add: lf_push_decide_def s h1)
qed

text \<open>
  C32: The index is read back as a signed 16-bit number although it runs up to \<open>2 * depth - 1\<close> and
  \<^verbatim>\<open>cellSyncLFQueueInitialize\<close> accepts depths up to \<open>0x7FFF\<close>. On any PPU-to-SPU queue it
  accepts, with room, whose next index \<open>i\<close> is \<open>0x8000\<close> or more, an undisturbed reservation of
  \<^verbatim>\<open>_cellSyncLFQueuePushBody\<close> succeeds with the position \<open>i - 0x10000\<close>, and the address at which
  the push then stores its entry is \<open>size * (0x10000 - i)\<close> bytes in front of the buffer; where the buffer
  lies too low for that, the address conversion throws. The position variable does not overlap the queue object.
\<close>

theorem lf_index_sign_bug:
  assumes ini: "lf_init_error q b sz depth CELL_SYNC_QUEUE_PPU2SPU = None"
    and obj: "ld_be32 m (lf_direction q) = CELL_SYNC_QUEUE_PPU2SPU" "ld_be32 m (lf_depth q) = depth"
      "ld_be32 m (lf_size q) = sz" "ld_be64 m (lf_buffer q) = ucast b"
    and cr: "c \<le> r" "r < c + unat depth"
    and h1: "uint (m_h1 (ld_pop1 m q)) = int c mod (2 * int (unat depth))"
    and h8: "uint (m_h8 (ld_push1 m (lf_push1 q))) = i" "i = int r mod (2 * int (unat depth))" "0x8000 \<le> i"
    and h7: "m_h7 (ld_push1 m (lf_push1 q)) = 0" and disj: "span q 128 \<inter> span position 4 = {}"
  shows "\<exists>m'. cellSyncLFQueueGetPushPointer recv [id] q position isBlocking 0 m = Ret CELL_OK m' \<and>
    sint (ld_be32 m' position) = i - 0x10000 \<and>
    lf_entry_addr m' q position =
      (if uint sz * (0x10000 - i) \<le> uint b then Some (b - word_of_int (uint sz * (0x10000 - i))) else None)"
proof -
  have dep: "0 < unat depth" "unat depth \<le> 0x7FFF" and sz: "unat sz \<le> 0x4000" and al: "vm_aligned b 16"
    using ini by (auto simp: lf_init_error_def word_le_nat_alt word_less_nat_alt unat_gt_0 split: if_splits)
  have "uint depth = int (unat depth)" by simp
  then have du: "0 < uint depth" "uint depth \<le> 0x7FFF" using dep by linarith+
  have "uint sz = int (unat sz)" by simp
  then have su: "uint sz \<le> 0x4000" using sz by linarith
  have sd: "sint depth = int (unat depth)" and ss: "sint sz = uint sz"
    using lf_small_sint [of depth] lf_small_sint [of sz] dep sz by simp_all
  have "int r mod (2 * int (unat depth)) < 2 * int (unat depth)" using dep(1) by (intro pos_mod_bound) linarith
  then have il: "i < 0x10000" using h8(2) dep(2) by linarith
  obtain push where "lf_push_decide (sint depth) False isBlocking 0 (lf_bs_unset m q) (m_h1 (ld_pop1 m q))
      (ld_push1 m (lf_push1 q)) = LFSwap push CELL_OK (Some (i - 0x10000)) \<and> m_h7 push = 0"
    using lf_push_reserves_negative [of "int (unat depth)" c r "m_h1 (ld_pop1 m q)" "ld_push1 m (lf_push1 q)"]
      du cr h1 h8 h7 by (auto simp: sd)
  then have get: "cellSyncLFQueueGetPushPointer recv [id] q position isBlocking 0 m =
      Ret CELL_OK (st_push1 (st_be32 m position (word_of_int (i - 0x10000))) (lf_push1 q) push)"
    using obj disj by (intro lf_get_push_swap) simp_all
  have off: "sint (ld_be32 m (lf_size q)) * lf_slot (sint (ld_be32 m (lf_depth q))) (i - 0x10000) = - (uint sz * (0x10000 - i))"
    using il du by (simp add: obj ss sd lf_slot_def algebra_simps)
  have "uint sz * (0x10000 - i) \<le> 0x4000 * 0x8000"
    using su h8(3) il by (intro mult_mono) simp_all
  moreover have nn: "0 \<le> uint sz * (0x10000 - i)" using il by simp
  ultimately have or: "- (2 ^ 31) \<le> - (uint sz * (0x10000 - i))" "uint sz * (0x10000 - i) < 2 ^ 32" by simp_all
  have "- (uint sz * (0x10000 - i)) < 2 ^ 31" by (rule le_less_trans [of _ 0]) (use nn in simp_all)
  note at_bounds = or(1) this
  have ir: "- (2 ^ 31) \<le> i - 0x10000" "i - 0x10000 < 2 ^ 31" using h8(3) il by simp_all
  note at = lf_entry_addr_reserved [OF disj ir off at_bounds]
  have si: "sint (word_of_int (i - 0x10000) :: u32) = i - 0x10000"
    using ir by (subst signed_of_int) (simp add: signed_take_bit_int_eq_self)
  show ?thesis
    by (rule exI, intro conjI, rule get) (simp_all only: at si obj(4) lf_cast_before [OF al nn or(2)])
qed

theorem lf_index_sign_bug_witness:
  "\<exists>m m'. cellSyncLFQueueGetPushPointer (\<lambda>_ m. (0, m)) [id] 0x100 0x700 0 0 m = Ret CELL_OK m' \<and>
     sint (ld_be32 m' 0x700) = - 0x8000 \<and> lf_entry_addr m' 0x100 0x700 = Some 0x80000"
proof -
  let ?m = "lf_object (\<lambda>_. 0) 0x100 \<lparr>m_h1 = 0x8000, m_h2 = 0, m_h3 = 0, m_h4 = 0x8000\<rparr>
    \<lparr>m_h5 = 0x8000, m_h6 = 0, m_h7 = 0, m_h8 = 0x8000\<rparr> 16 0x7FFF 0x100000 2 0"
  have d: "span 0x100 128 \<inter> span 0x700 4 = {}" using span_disjoint_offsets [of "0x100" 128 "0x700" 4 0] by simp
  have "\<exists>m'. cellSyncLFQueueGetPushPointer (\<lambda>_ m. (0, m)) [id] 0x100 0x700 0 0 ?m = Ret CELL_OK m' \<and>
    sint (ld_be32 m' 0x700) = 0x8000 - 0x10000 \<and>
    lf_entry_addr m' 0x100 0x700 = (if uint (16 :: u32) * (0x10000 - 0x8000) \<le> uint (0x100000 :: u32)
      then Some (0x100000 - word_of_int (uint (16 :: u32) * (0x10000 - 0x8000))) else None)"
    by (rule lf_index_sign_bug [where c = "0x8000" and r = "0x8000" and depth = "0x7FFF"])
      (use d in \<open>simp_all add: lf_object_fields lf_init_error_def vm_aligned_def CELL_SYNC_QUEUE_PPU2SPU_def\<close>)
  then show ?thesis by auto
qed

lemma lf_initialised_nonzero:
  "\<exists>b \<in> set (vm_bytes (st_be32 (syncLFQueueInitialize queue buffer sz depth direction eaSignal m) (lf_init queue) 0) queue 128). b \<noteq> 0"
proof
  note c = cell_u8.vm_cell_axioms cell_be16.vm_cell_axioms cell_be32.vm_cell_axioms
  let ?m = "st_be32 (syncLFQueueInitialize queue buffer sz depth direction eaSignal m) (lf_init queue) 0"
  have "ld_u8 ?m (queue + 0x20) = 0xFF"
    unfolding syncLFQueueInitialize_def Let_def lf_bs_def lf_v1_def lf_v2_def lf_eq_id_def lf_init_def
      lf_push2_def lf_pop2_def
    by (simp add: add.assoc lf_other_field [OF c(1) c(1)] lf_other_field [OF c(1) c(2)] lf_other_field [OF c(1) c(3)]
        cell_u8.ld_st)
  then have "?m (queue + of_nat 32) = 0xFF" by (simp add: ld_u8_def)
  then show "0xFF \<in> set (vm_bytes ?m queue 128)"
    unfolding vm_bytes_def set_map by (intro image_eqI [of _ _ 32]) simp_all
qed simp

text \<open>
  C33: After a successful \<^verbatim>\<open>cellSyncLFQueueInitialize\<close> under an SDK newer than
  \<open>0x17FFFF\<close>, initialising the same queue again with the same arguments fails with
  \<^verbatim>\<open>CELL_SYNC_ERROR_STAT\<close>: the state \<open>2\<close> that the function accepts as already
  initialised is never stored.
\<close>

theorem lf_reinitialise_fails:
  assumes "0x17FFFF < sdk_ver"
    and "cellSyncLFQueueInitialize (0, sdk_ver) [id] queue buffer sz depth direction eaSignal m = Ret CELL_OK m'"
    and "ld_be32 m (lf_init queue) = 0"
  shows "cellSyncLFQueueInitialize (0, sdk_ver) [id] queue buffer sz depth direction eaSignal m' =
    Ret (sync_err CELL_SYNC_ERROR_STAT) m'"
proof -
  have "lf_init_error queue buffer sz depth direction = None"
    using assms(2) by (auto simp: cellSyncLFQueueInitialize_def CELL_OK_def split: option.splits)
  then have args: "cellSyncLFQueueInitialize (0, sdk_ver) [id] queue buffer sz depth direction eaSignal x =
      lf_init_finish sdk_ver queue buffer sz depth direction eaSignal (lf_reserve_init sdk_ver queue [id] x)" for x
    using assms(1) by (simp add: cellSyncLFQueueInitialize_def)
  have "\<exists>m1. m' = st_be32 (syncLFQueueInitialize queue buffer sz depth direction eaSignal m1) (lf_init queue) 0"
    using assms(1-3) unfolding args by (auto simp: vm_cas_def CELL_OK_def Let_def lf_init_finish_def split: if_splits)
  then obtain m1 where m': "m' = st_be32 (syncLFQueueInitialize queue buffer sz depth direction eaSignal m1) (lf_init queue) 0"
    by blast
  have "\<exists>b \<in> set (vm_bytes m' queue 128). b \<noteq> 0" unfolding m' by (rule lf_initialised_nonzero)
  moreover have "ld_be32 m' (lf_init queue) = 0" unfolding m' by (rule cell_be32.ld_st)
  ultimately show ?thesis unfolding args using assms(1) by (simp add: lf_init_finish_def)
qed

theorem lf_reinitialise_fails_witness:
  "\<exists>m'. cellSyncLFQueueInitialize (0, 0x360000) [id] 0x100 0x200 16 4 2 0x300 (\<lambda>_. 0) = Ret CELL_OK m' \<and>
     cellSyncLFQueueInitialize (0, 0x360000) [id] 0x100 0x200 16 4 2 0x300 m' = Ret (sync_err CELL_SYNC_ERROR_STAT) m'"
proof -
  have z: "ld_be32 (\<lambda>_. 0) (lf_init 0x100) = 0"
    by (simp add: ld_be32_def ld_be16_def ld_u8_def word_cat_eq)
  then have "\<exists>m'. cellSyncLFQueueInitialize (0, 0x360000) [id] 0x100 0x200 16 4 2 0x300 (\<lambda>_. 0) = Ret CELL_OK m'"
    by (simp add: cellSyncLFQueueInitialize_def lf_init_error_def lf_init_finish_def vm_aligned_def
        vm_bytes_def vm_cas_def word_less_nat_alt)
  then obtain m' where m': "cellSyncLFQueueInitialize (0, 0x360000) [id] 0x100 0x200 16 4 2 0x300 (\<lambda>_. 0) = Ret CELL_OK m'"
    by blast
  from lf_reinitialise_fails [OF _ this z] m' show ?thesis by simp
qed

end
