(* ===== verification/Rtc_Calendar.thy ===== *)
theory Rtc_Calendar
  imports Prelude "HOL-Library.Product_Lexorder"
begin

text \<open>
  \<^verbatim>\<open>rpcs3/Emu/Cell/Modules/cellRtc.cpp\<close> and \<^verbatim>\<open>cellRtc.h\<close>: the calendar. A tick counts
  microseconds since 0001-01-01 of the proleptic Gregorian calendar. The specification is the
  number of days before a year and before a month; the conversion routines, which use
  closed formulas, are shown to be its inverses.
\<close>

section \<open>Constants and data\<close>

datatype CellRtcError =
    CELL_RTC_ERROR_NOT_INITIALIZED | CELL_RTC_ERROR_INVALID_POINTER | CELL_RTC_ERROR_INVALID_VALUE
  | CELL_RTC_ERROR_INVALID_ARG | CELL_RTC_ERROR_NOT_SUPPORTED | CELL_RTC_ERROR_NO_CLOCK
  | CELL_RTC_ERROR_BAD_PARSE | CELL_RTC_ERROR_INVALID_YEAR | CELL_RTC_ERROR_INVALID_MONTH
  | CELL_RTC_ERROR_INVALID_DAY | CELL_RTC_ERROR_INVALID_HOUR | CELL_RTC_ERROR_INVALID_MINUTE
  | CELL_RTC_ERROR_INVALID_SECOND | CELL_RTC_ERROR_INVALID_MICROSECOND

primrec rtc_err :: "CellRtcError \<Rightarrow> error_code" where
  "rtc_err CELL_RTC_ERROR_NOT_INITIALIZED = 0x80010601"
| "rtc_err CELL_RTC_ERROR_INVALID_POINTER = 0x80010602"
| "rtc_err CELL_RTC_ERROR_INVALID_VALUE = 0x80010603"
| "rtc_err CELL_RTC_ERROR_INVALID_ARG = 0x80010604"
| "rtc_err CELL_RTC_ERROR_NOT_SUPPORTED = 0x80010605"
| "rtc_err CELL_RTC_ERROR_NO_CLOCK = 0x80010606"
| "rtc_err CELL_RTC_ERROR_BAD_PARSE = 0x80010607"
| "rtc_err CELL_RTC_ERROR_INVALID_YEAR = 0x80010621"
| "rtc_err CELL_RTC_ERROR_INVALID_MONTH = 0x80010622"
| "rtc_err CELL_RTC_ERROR_INVALID_DAY = 0x80010623"
| "rtc_err CELL_RTC_ERROR_INVALID_HOUR = 0x80010624"
| "rtc_err CELL_RTC_ERROR_INVALID_MINUTE = 0x80010625"
| "rtc_err CELL_RTC_ERROR_INVALID_SECOND = 0x80010626"
| "rtc_err CELL_RTC_ERROR_INVALID_MICROSECOND = 0x80010627"

record CellRtcDateTime =
  year :: u16
  month :: u16
  day :: u16
  hour :: u16
  minute :: u16
  second :: u16
  microsecond :: u32

definition RTC_MAGIC_OFFSET :: u64 where "RTC_MAGIC_OFFSET = 62135596800000000"
definition RTC_FILETIME_OFFSET :: u64 where "RTC_FILETIME_OFFSET = 50491123200000000"
definition RTC_SYSTEM_TIME_MIN :: u64 where "RTC_SYSTEM_TIME_MIN = 63082281600000000"
definition RTC_SYSTEM_TIME_MAX :: u64 where "RTC_SYSTEM_TIME_MAX = 66238041599999999"

definition DAYS_IN_400_YEARS :: nat where "DAYS_IN_400_YEARS = 365 * 400 + 97"
definition DAYS_IN_100_YEARS :: nat where "DAYS_IN_100_YEARS = 365 * 100 + 24"
definition DAYS_IN_4_YEARS :: nat where "DAYS_IN_4_YEARS = 365 * 4 + 1"

definition DAYS_IN_MONTH :: "nat list" where
  "DAYS_IN_MONTH = [31, 28, 31, 30, 31, 30, 31, 31, 30, 31, 30, 31]"

definition DAYS_IN_MONTH_LEAP :: "nat list" where
  "DAYS_IN_MONTH_LEAP = [31, 29, 31, 30, 31, 30, 31, 31, 30, 31, 30, 31]"

definition MONTH_OFFSET :: "nat list" where
  "MONTH_OFFSET = [0, 31, 59, 90, 120, 151, 181, 212, 243, 273, 304, 334, 65535]"

definition MONTH_OFFSET_LEAP :: "nat list" where
  "MONTH_OFFSET_LEAP = [0, 31, 60, 91, 121, 152, 182, 213, 244, 274, 305, 335, 65535]"

definition cellRtcGetTickResolution :: nat where "cellRtcGetTickResolution = 1000000"

section \<open>The routines\<close>

definition is_leap_year :: "nat \<Rightarrow> bool" where
  "is_leap_year y \<longleftrightarrow> y mod 4 = 0 \<and> (y mod 100 \<noteq> 0 \<or> y mod 400 = 0)"

definition month_offsets :: "bool \<Rightarrow> nat list" where
  "month_offsets leap = (if leap then MONTH_OFFSET_LEAP else MONTH_OFFSET)"

definition month_lengths :: "bool \<Rightarrow> nat list" where
  "month_lengths leap = (if leap then DAYS_IN_MONTH_LEAP else DAYS_IN_MONTH)"

definition year_within_400_interval :: "nat \<Rightarrow> nat" where
  "year_within_400_interval d =
     (d - d div (DAYS_IN_4_YEARS - 1) + d div DAYS_IN_100_YEARS - d div (DAYS_IN_400_YEARS - 1)) div 365"

definition month_of_day :: "bool \<Rightarrow> nat \<Rightarrow> nat" where
  "month_of_day leap d =
     (let month_approx = d div 29 in
      if month_offsets leap ! month_approx > d then month_approx - 1 else month_approx)"

text \<open>The \<^verbatim>\<open>u16\<close> year wraps; all other conversions fit.\<close>

definition tick_to_date_time :: "u64 \<Rightarrow> CellRtcDateTime" where
  "tick_to_date_time tick =
     (let t = unat tick;
          days = t div (24 * 60 * 60 * 1000000);
          year_400 = days div DAYS_IN_400_YEARS;
          d1 = days - year_400 * DAYS_IN_400_YEARS;
          y = year_within_400_interval d1;
          d2 = d1 - (y * 365 + y div 4 - y div 100 + y div 400);
          years = of_nat (year_400 * 400 + y + 1) :: u16;
          leap = is_leap_year (unat years);
          mo = month_of_day leap d2
      in \<lparr>year = years, month = of_nat (mo + 1), day = of_nat (d2 - month_offsets leap ! mo + 1),
          hour = of_nat (t div (60 * 60 * 1000000) mod 24), minute = of_nat (t div (60 * 1000000) mod 60),
          second = of_nat (t div 1000000 mod 60), microsecond = of_nat (t mod 1000000)\<rparr>)"

definition days_in_previous_years :: "u16 \<Rightarrow> u32" where
  "days_in_previous_years y =
     word_of_int (uint y * 365 + (uint y + 3) div 4 - (uint y + 99) div 100 + (uint y + 399) div 400 - 366)"

definition date_time_to_tick :: "CellRtcDateTime \<Rightarrow> u64" where
  "date_time_to_tick dt =
     (let mo = (if month dt = 0 then 1 else if month dt > 12 then 12 else month dt);
          days_in_previous_months = month_offsets (is_leap_year (unat (year dt))) ! (unat mo - 1);
          days = days_in_previous_years (year dt) + of_nat days_in_previous_months + ucast (day dt) - 1
      in ucast (microsecond dt) + ucast (second dt) * 1000000 + ucast (minute dt) * 60 * 1000000
         + ucast (hour dt) * 60 * 60 * 1000000 + ucast days * 24 * 60 * 60 * 1000000)"

definition cellRtcCheckValid_value :: "CellRtcDateTime \<Rightarrow> error_code" where
  "cellRtcCheckValid_value t =
     (if year t = 0 \<or> year t \<ge> 10000 then rtc_err CELL_RTC_ERROR_INVALID_YEAR
      else if month t < 1 \<or> month t > 12 then rtc_err CELL_RTC_ERROR_INVALID_MONTH
      else if day t = 0 \<or> unat (day t) > month_lengths (is_leap_year (unat (year t))) ! (unat (month t) - 1)
      then rtc_err CELL_RTC_ERROR_INVALID_DAY
      else if hour t \<ge> 24 then rtc_err CELL_RTC_ERROR_INVALID_HOUR
      else if minute t \<ge> 60 then rtc_err CELL_RTC_ERROR_INVALID_MINUTE
      else if second t \<ge> 60 then rtc_err CELL_RTC_ERROR_INVALID_SECOND
      else if microsecond t \<ge> of_nat cellRtcGetTickResolution then rtc_err CELL_RTC_ERROR_INVALID_MICROSECOND
      else CELL_OK)"

definition cellRtcIsLeapYear :: "int \<Rightarrow> error_code" where
  "cellRtcIsLeapYear y =
     (if y < 1 then rtc_err CELL_RTC_ERROR_INVALID_ARG else if is_leap_year (nat y) then 1 else 0)"

definition cellRtcGetDaysInMonth :: "int \<Rightarrow> int \<Rightarrow> error_code" where
  "cellRtcGetDaysInMonth y mo =
     (if y \<le> 0 \<or> mo \<le> 0 \<or> mo > 12 then rtc_err CELL_RTC_ERROR_INVALID_ARG
      else of_nat (month_lengths (is_leap_year (nat y)) ! (nat mo - 1)))"

text \<open>C++ division truncates towards zero, and so does its remainder.\<close>

definition tdiv :: "int \<Rightarrow> int \<Rightarrow> int" where
  "tdiv a b = sgn a * sgn b * (\<bar>a\<bar> div \<bar>b\<bar>)"

definition tmod :: "int \<Rightarrow> int \<Rightarrow> int" where
  "tmod a b = a - b * tdiv a b"

text \<open>Division of a signed 32-bit number.\<close>

definition sdiv32 :: "u32 \<Rightarrow> int \<Rightarrow> u32" where
  "sdiv32 x k = word_of_int (tdiv (sint x) k)"

definition cellRtcGetDayOfWeek :: "u32 \<Rightarrow> u32 \<Rightarrow> u32 \<Rightarrow> u32" where
  "cellRtcGetDayOfWeek y mo d =
     (let y' = (if mo = 1 \<or> mo = 2 then y - 1 else y);
          mo' = (if mo = 1 \<or> mo = 2 then mo + 12 else mo)
      in word_of_int (tmod (sint (sdiv32 (mo' * 13 + 8) 5 + y' + sdiv32 y' 4 - sdiv32 y' 100 + sdiv32 y' 400 + d)) 7))"

section \<open>The specification\<close>

text \<open>Days before year \<open>y + 1\<close>, that is in the first \<open>y\<close> years.\<close>

fun days_before :: "nat \<Rightarrow> nat" where
  "days_before 0 = 0"
| "days_before (Suc y) = days_before y + (if is_leap_year (Suc y) then 366 else 365)"

definition day_number :: "nat \<Rightarrow> nat \<Rightarrow> nat \<Rightarrow> nat" where
  "day_number y mo d =
     days_before (y - 1) + sum_list (take (mo - 1) (month_lengths (is_leap_year y))) + (d - 1)"

definition valid_date :: "nat \<Rightarrow> nat \<Rightarrow> nat \<Rightarrow> bool" where
  "valid_date y mo d \<longleftrightarrow> 0 < y \<and> 0 < mo \<and> mo \<le> 12 \<and> 0 < d \<and> d \<le> month_lengths (is_leap_year y) ! (mo - 1)"

section \<open>Years\<close>

lemmas rtc_consts = DAYS_IN_400_YEARS_def DAYS_IN_100_YEARS_def DAYS_IN_4_YEARS_def

lemmas month_tables = month_offsets_def month_lengths_def MONTH_OFFSET_def MONTH_OFFSET_LEAP_def
  DAYS_IN_MONTH_def DAYS_IN_MONTH_LEAP_def

lemma mod_zero_mult: "n mod (a * b) = 0 \<Longrightarrow> n mod a = 0" for n a b :: nat
  by (metis dvd_mult_left mod_eq_0_iff_dvd)

lemma days_before_closed: "days_before y + y div 100 = 365 * y + y div 4 + y div 400"
proof (induction y)
  case (Suc y)
  have "Suc y mod 400 = 0 \<Longrightarrow> Suc y mod 100 = 0" "Suc y mod 100 = 0 \<Longrightarrow> Suc y mod 4 = 0"
    using mod_zero_mult [of "Suc y" 100 4] mod_zero_mult [of "Suc y" 4 25] by simp_all
  then show ?case
    using Suc by (auto simp: is_leap_year_def div_Suc)
qed simp

lemma days_before_eq: "days_before y = y * 365 + y div 4 - y div 100 + y div 400"
proof -
  have "y div 100 \<le> y div 4" by (simp add: div_le_mono2)
  then show ?thesis using days_before_closed [of y] by linarith
qed

lemma days_before_mono: "y \<le> z \<Longrightarrow> days_before y \<le> days_before z"
  by (rule lift_Suc_mono_le) auto

lemma days_before_unique:
  assumes "days_before y \<le> d" "d < days_before (Suc y)" "days_before z \<le> d" "d < days_before (Suc z)"
  shows "y = z"
proof (rule ccontr)
  assume "y \<noteq> z"
  then consider "Suc y \<le> z" | "Suc z \<le> y" by linarith
  then show False
    using assms days_before_mono by cases (meson leD order_trans)+
qed

lemma is_leap_year_400: "is_leap_year (400 * k + y) = is_leap_year y"
proof -
  have "(400 * k + y) mod 400 = y mod 400" by simp
  moreover have "(400 * k + y) mod 100 = y mod 100" "(400 * k + y) mod 4 = y mod 4"
    using mod_mult_self4 [of 100 "4 * k" y] mod_mult_self4 [of 4 "100 * k" y] by simp_all
  ultimately show ?thesis by (simp add: is_leap_year_def)
qed

lemma days_before_400: "days_before (400 * k + y) = 146097 * k + days_before y"
proof -
  have "(400 * k + y) div 4 = 100 * k + y div 4" "(400 * k + y) div 100 = 4 * k + y div 100"
    "(400 * k + y) div 400 = k + y div 400"
    using div_mult_self4 [of 4 "100 * k" y] div_mult_self4 [of 100 "4 * k" y] by simp_all
  then show ?thesis
    using days_before_closed [of "400 * k + y"] days_before_closed [of y] by simp
qed

text \<open>The closed formula for the year finds the year whose interval holds the day.\<close>

lemma year_of_century_day:
  fixes q s c :: nat
  assumes c: "c \<le> 3" and r: "r = 1461 * q + s" and s: "s < 1461" and q: "q \<le> 24"
  shows "(r - (24 * c + r) div 1460) div 365 = 4 * q + (if s = 1460 then 3 else s div 365)"
proof -
  define e where "e = (24 * c + q + s) div 1460"
  have "24 * c + r = 1460 * q + (24 * c + q + s)" using r by simp
  then have quo: "(24 * c + r) div 1460 = q + e" by (simp add: e_def)
  have e: "e = (if 1460 \<le> 24 * c + q + s then 1 else 0)"
    unfolding e_def using assms by (auto intro: div_nat_eqI)
  have "e \<le> s" using e c q by (auto split: if_splits)
  then have "r - (q + e) = 365 * (4 * q) + (s - e)" using r by simp
  then have "(r - (q + e)) div 365 = 4 * q + (s - e) div 365" by simp
  moreover have "(s - e) div 365 = (if s = 1460 then 3 else s div 365)"
  proof (cases "e = 0")
    case False
    then have "1364 \<le> s" "e = 1" using e c q by (auto split: if_splits)
    then have "(s - e) div 365 = 3" using s by (intro div_nat_eqI) auto
    moreover have "s = 1460 \<or> s div 365 = 3"
      using \<open>1364 \<le> s\<close> s by (cases "s = 1460") (auto intro: div_nat_eqI)
    ultimately show ?thesis by auto
  qed (use e in \<open>auto split: if_splits\<close>)
  ultimately show ?thesis by (simp add: quo)
qed

lemma days_before_century:
  assumes "c \<le> 3" "q \<le> 24" "j \<le> 3"
  shows "days_before (100 * c + 4 * q + j) = 36524 * c + 1461 * q + 365 * j"
proof -
  let ?y = "100 * c + 4 * q + j"
  have "?y div 4 = 25 * c + q" "?y div 100 = c" "?y div 400 = 0"
    using assms by (auto intro: div_nat_eqI)
  then show ?thesis using days_before_closed [of ?y] by simp
qed

lemma is_leap_year_century:
  assumes "c \<le> 3" "q < 24"
  shows "is_leap_year (100 * c + 4 * q + 4)"
proof -
  have "(100 * c + 4 * q + 4) mod 4 = 0" using mod_mult_self4 [of 4 "25 * c + q + 1" 0] by simp
  moreover have "(100 * c + 4 * q + 4) mod 100 = 4 * q + 4"
    using mod_mult_self4 [of 100 c "4 * q + 4"] assms by (simp add: add.assoc)
  ultimately show ?thesis by (simp add: is_leap_year_def)
qed

lemma year_within_400_interval_eq:
  assumes "c \<le> 3" "q \<le> 24" "s < 1461" and d: "d = 36524 * c + 1461 * q + s" and "1461 * q + s < 36524"
  shows "year_within_400_interval d = 100 * c + 4 * q + (if s = 1460 then 3 else s div 365)"
proof -
  define r where "r = 1461 * q + s"
  define e where "e = (24 * c + r) div 1460"
  have "d div 36524 = c" "d div 146096 = 0"
    using assms by (auto intro: div_nat_eqI)
  moreover have "d div 1460 = 25 * c + e"
    using div_mult_self4 [of 1460 "25 * c" "24 * c + r"] d by (simp add: e_def r_def algebra_simps)
  moreover have "e \<le> r"
    unfolding e_def using assms(1) times_div_less_eq_dividend [of 1460 "24 * c + r"]
    by (cases "r = 0") (auto simp: div_less)
  ultimately have "d - d div 1460 + d div 36524 - d div 146096 = 365 * (100 * c) + (r - e)"
    using d by (simp add: r_def)
  moreover have "(365 * (100 * c) + (r - e)) div 365 = 100 * c + (r - e) div 365"
    by (rule div_mult_self4) simp
  ultimately show ?thesis
    using year_of_century_day [OF assms(1) r_def assms(3,2)]
    by (simp add: year_within_400_interval_def rtc_consts e_def)
qed

lemma year_within_400_interval_correct:
  assumes "d < 146097"
  shows "days_before (year_within_400_interval d) \<le> d \<and> d < days_before (Suc (year_within_400_interval d))
    \<and> year_within_400_interval d < 400"
proof (cases "d = 146096")
  case True
  then have "year_within_400_interval d = 399" by (simp add: year_within_400_interval_def rtc_consts)
  then show ?thesis
    using True days_before_closed [of 399] days_before_closed [of 400] by simp
next
  case False
  define c r q s j where "c = d div 36524" and "r = d mod 36524" and "q = r div 1461" and "s = r mod 1461"
    and "j = (if s = 1460 then 3 else s div 365)"
  have r: "d = 36524 * c + r" "r < 36524" by (simp_all add: c_def r_def)
  have s: "r = 1461 * q + s" "s < 1461" by (simp_all add: q_def s_def)
  have c: "c \<le> 3" and q: "q \<le> 24" using r s assms False by linarith+
  have j: "365 * j \<le> s" "s < 365 * j + (if s = 1460 then 366 else 365)" "j \<le> 3"
    using s(2) by (auto simp: j_def)
  have y: "year_within_400_interval d = 100 * c + 4 * q + j"
    using year_within_400_interval_eq [OF c q s(2), of d] r s j_def by simp
  have leap: "is_leap_year (Suc (100 * c + 4 * q + j))" if "s = 1460"
    using is_leap_year_century [OF c, of q] r s that by (simp add: j_def add.commute)
  have "d < days_before (Suc (100 * c + 4 * q + j))"
    using days_before_century [OF c q j(3)] leap j(2) r(1) s(1) by (cases "s = 1460") auto
  then show ?thesis
    using days_before_century [OF c q j(3)] j r s c q unfolding y by auto
qed

section \<open>Months\<close>

definition year_days :: "bool \<Rightarrow> nat" where
  "year_days leap = (if leap then 366 else 365)"

lemma days_before_Suc: "days_before (Suc y) = days_before y + year_days (is_leap_year (Suc y))"
  by (simp add: year_days_def)

lemma month_cases:
  assumes "m < (12::nat)"
  obtains "m = 0" | "m = 1" | "m = 2" | "m = 3" | "m = 4" | "m = 5" | "m = 6" | "m = 7" | "m = 8"
    | "m = 9" | "m = 10" | "m = 11"
  using assms by atomize_elim presburger

lemma month_table:
  assumes "m < 12"
  shows "sum_list (take m (month_lengths leap)) = month_offsets leap ! m"
    and "month_offsets leap ! m + month_lengths leap ! m = (if m = 11 then year_days leap else month_offsets leap ! Suc m)"
    and "28 \<le> month_lengths leap ! m" "month_lengths leap ! m \<le> 31"
  using assms by (cases m rule: month_cases; simp add: month_tables year_days_def)+

lemma month_of_day:
  assumes "d < year_days leap"
  shows "month_of_day leap d < 12 \<and> month_offsets leap ! month_of_day leap d \<le> d
    \<and> d < month_offsets leap ! month_of_day leap d + month_lengths leap ! month_of_day leap d"
proof -
  define k where "k = d div 29"
  have k: "29 * k \<le> d" "d < 29 * k + 29" by (simp_all add: k_def)
  have d: "d < 365 \<or> leap \<and> d = 365" using assms by (auto simp: year_days_def split: if_splits)
  then consider "k < 12" | "k = 12" using k by linarith
  moreover have eq: "month_of_day leap d = (if month_offsets leap ! k > d then k - 1 else k)"
    by (simp add: month_of_day_def k_def Let_def)
  ultimately show ?thesis
  proof cases
    case 1
    then show ?thesis using k d unfolding eq by (cases k rule: month_cases) (auto simp: month_tables)
  qed (use d k in \<open>auto simp: eq month_tables\<close>)
qed

lemma month_offsets_mono: "m \<le> n \<Longrightarrow> n < 12 \<Longrightarrow> month_offsets leap ! m \<le> month_offsets leap ! n"
proof (induction n)
  case (Suc n)
  then show ?case using month_table(2) [of n leap] by (cases "m = Suc n") auto
qed simp

lemma month_of_day_unique:
  assumes "m < 12" "n < 12" "month_offsets leap ! m \<le> d" "d < month_offsets leap ! m + month_lengths leap ! m"
    and "month_offsets leap ! n \<le> d" "d < month_offsets leap ! n + month_lengths leap ! n"
  shows "m = n"
proof (rule ccontr)
  assume "m \<noteq> n"
  then consider "Suc m \<le> n" | "Suc n \<le> m" by linarith
  then show False
    using assms month_table(2) [of m leap] month_table(2) [of n leap]
      month_offsets_mono [of "Suc m" n leap] month_offsets_mono [of "Suc n" m leap]
    by cases auto
qed

section \<open>Day numbers\<close>

lemma day_number_eq:
  assumes "valid_date (Suc y) (Suc m) (Suc d)"
  shows "day_number (Suc y) (Suc m) (Suc d) = days_before y + month_offsets (is_leap_year (Suc y)) ! m + d"
  using assms month_table(1) by (simp add: day_number_def valid_date_def)

lemma valid_date_cases:
  assumes "valid_date y mo d"
  obtains y' m d' where "y = Suc y'" "mo = Suc m" "d = Suc d'" "m < 12" "d' < month_lengths (is_leap_year y) ! m"
  using assms by (cases y; cases mo; cases d) (auto simp: valid_date_def)

lemma valid_date_year_day:
  assumes "m < 12" "d < month_lengths leap ! m"
  shows "month_offsets leap ! m + d < year_days leap"
  using month_table(2) [of m leap] month_offsets_mono [of "Suc m" 11 leap] month_table(2) [of 11 leap] assms
  by (auto split: if_splits)

theorem day_number_inj:
  assumes "valid_date y mo d" "valid_date z no e" "day_number y mo d = day_number z no e"
  shows "y = z \<and> mo = no \<and> d = e"
proof -
  obtain y' m d' where y: "y = Suc y'" "mo = Suc m" "d = Suc d'" "m < 12" "d' < month_lengths (is_leap_year y) ! m"
    using assms(1) by (rule valid_date_cases)
  obtain z' n e' where z: "z = Suc z'" "no = Suc n" "e = Suc e'" "n < 12" "e' < month_lengths (is_leap_year z) ! n"
    using assms(2) by (rule valid_date_cases)
  let ?N = "day_number y mo d"
  have N: "?N = days_before y' + month_offsets (is_leap_year y) ! m + d'"
    "?N = days_before z' + month_offsets (is_leap_year z) ! n + e'"
    using day_number_eq assms y z by auto
  have "y' = z'"
    using N days_before_Suc [of y'] days_before_Suc [of z'] y z
      valid_date_year_day [OF y(4,5)] valid_date_year_day [OF z(4,5)]
    by (intro days_before_unique [of y' ?N z']) auto
  moreover from this have "m = n"
    using N y z by (intro month_of_day_unique [of m n "is_leap_year y" "?N - days_before y'"]) auto
  ultimately show ?thesis using N y z by auto
qed

section \<open>Ticks\<close>

text \<open>The tick of midnight of day number \<open>N\<close> plus the time of day.\<close>

definition tick_value :: "nat \<Rightarrow> nat \<Rightarrow> nat \<Rightarrow> nat \<Rightarrow> nat \<Rightarrow> nat" where
  "tick_value N h mi s us = (((N * 24 + h) * 60 + mi) * 60 + s) * 1000000 + us"

lemma tick_value_linear:
  "tick_value N h mi s us = 86400000000 * N + 3600000000 * h + 60000000 * mi + 1000000 * s + us"
  by (simp add: tick_value_def)

lemma days_in_previous_years_eq:
  assumes "y \<noteq> 0"
  shows "days_in_previous_years y = of_nat (days_before (unat y - 1))"
proof -
  define n where "n = unat y - 1"
  have "0 < unat y" using assms by (simp add: unat_gt_0)
  then have "unat y = n + 1" by (simp add: n_def)
  then have "uint y = int n + 1" by (metis of_nat_add of_nat_1 uint_nat)
  moreover have "(int n + 4) div 4 = int (n div 4) + 1" "(int n + 100) div 100 = int (n div 100) + 1"
    "(int n + 400) div 400 = int (n div 400) + 1"
    by (simp_all add: zdiv_int)
  moreover have "int (days_before n) = 365 * int n + int (n div 4) - int (n div 100) + int (n div 400)"
    using days_before_closed [of n] by linarith
  ultimately have "uint y * 365 + (uint y + 3) div 4 - (uint y + 99) div 100 + (uint y + 399) div 400 - 366
      = int (days_before n)"
    by (simp add: algebra_simps)
  then show ?thesis by (simp add: days_in_previous_years_def n_def)
qed

lemma days_before_le: "days_before n \<le> 366 * n"
  by (induction n) auto

lemma unat_date_time_to_tick:
  assumes "year dt \<noteq> 0" "month dt \<noteq> 0" "month dt \<le> 12" "day dt \<noteq> 0"
  shows "unat (date_time_to_tick dt) =
    tick_value (days_before (unat (year dt) - 1)
        + month_offsets (is_leap_year (unat (year dt))) ! (unat (month dt) - 1) + unat (day dt) - 1)
      (unat (hour dt)) (unat (minute dt)) (unat (second dt)) (unat (microsecond dt))"
proof -
  define N where "N = days_before (unat (year dt) - 1)
    + month_offsets (is_leap_year (unat (year dt))) ! (unat (month dt) - 1) + unat (day dt) - 1"
  define T where "T = tick_value N (unat (hour dt)) (unat (minute dt)) (unat (second dt)) (unat (microsecond dt))"
  have "unat (month dt) - 1 < 12" using assms by (auto simp: word_le_nat_alt unat_eq_zero)
  then have off: "month_offsets (is_leap_year (unat (year dt))) ! (unat (month dt) - 1) \<le> 335"
    by (cases rule: month_cases) (auto simp: month_tables)
  have day: "unat (day dt) \<noteq> 0" using assms by (simp add: unat_eq_zero)
  have "days_before (unat (year dt) - 1) \<le> 366 * 65535"
    using days_before_le [of "unat (year dt) - 1"] unat_u16 [of "year dt"] by linarith
  with off day have N: "N < 25000000" unfolding N_def using unat_u16 [of "day dt"] by linarith
  have days: "days_in_previous_years (year dt)
      + of_nat (month_offsets (is_leap_year (unat (year dt))) ! (unat (month dt) - 1)) + ucast (day dt) - 1
      = (of_nat N :: u32)"
    using day by (simp add: N_def days_in_previous_years_eq assms of_nat_diff)
  have ucN: "ucast (of_nat N :: u32) = (of_nat N :: u64)"
    by (rule word_unat_eq_iff [THEN iffD2]) (use N in \<open>simp add: unsigned_ucast_eq unat_of_nat take_bit_eq_mod\<close>)
  have mo: "(if month dt = 0 then 1 else if month dt > 12 then 12 else month dt) = month dt"
    using assms by auto
  have "date_time_to_tick dt = of_nat T"
    unfolding date_time_to_tick_def Let_def mo days ucN
    by (simp add: T_def tick_value_def algebra_simps)
  moreover have "T < 18446744073709551616"
    unfolding T_def tick_value_linear
    using N unat_u16 [of "hour dt"] unat_u16 [of "minute dt"] unat_u16 [of "second dt"] unat_u32 [of "microsecond dt"]
    by linarith
  ultimately show ?thesis by (simp add: T_def N_def unat_of_nat)
qed

lemma tick_to_date_time_fields:
  assumes "unat t div 86400000000 < days_before 65535"
  defines "dt \<equiv> tick_to_date_time t"
  shows "valid_date (unat (year dt)) (unat (month dt)) (unat (day dt))
    \<and> day_number (unat (year dt)) (unat (month dt)) (unat (day dt)) = unat t div 86400000000
    \<and> unat (hour dt) = unat t div 3600000000 mod 24 \<and> unat (minute dt) = unat t div 60000000 mod 60
    \<and> unat (second dt) = unat t div 1000000 mod 60 \<and> unat (microsecond dt) = unat t mod 1000000"
proof -
  define N where "N = unat t div 86400000000"
  define k d1 where "k = N div 146097" and "d1 = N mod 146097"
  define y d2 where "y = year_within_400_interval d1" and "d2 = d1 - days_before y"
  define leap where "leap = is_leap_year (Suc (400 * k + y))"
  define mo where "mo = month_of_day leap d2"
  have N: "N = 146097 * k + d1" and d1: "d1 < 146097" by (simp_all add: k_def d1_def)
  note y = year_within_400_interval_correct [OF d1, folded y_def]
  have leapy: "leap = is_leap_year (Suc y)"
    using is_leap_year_400 [of k "Suc y"] by (simp add: leap_def)
  have N2: "N = days_before (400 * k + y) + d2" using y N by (simp add: days_before_400 d2_def)
  have "\<not> 65535 \<le> 400 * k + y"
    using days_before_mono [of 65535 "400 * k + y"] assms(1) N2 unfolding N_def by linarith
  then have ky: "Suc (400 * k + y) < 65536" by simp
  have d2: "d2 < year_days leap" using y by (auto simp: d2_def leapy year_days_def)
  note mo = month_of_day [OF d2, folded mo_def]
  define dd where "dd = d2 - month_offsets leap ! mo"
  have dd: "dd < month_lengths leap ! mo" "d2 = month_offsets leap ! mo + dd" "dd < 31"
    using mo month_table(4) [of mo leap] by (auto simp: dd_def)
  have "unat (of_nat (k * 400 + y + 1) :: u16) = Suc (400 * k + y)"
    using ky by (simp add: unat_of_nat mult.commute del: of_nat_add of_nat_Suc)
  then have eqs: "unat t div (24 * 60 * 60 * 1000000) = N" "DAYS_IN_400_YEARS = 146097" "N - k * 146097 = d1"
    "unat (of_nat (k * 400 + y + 1) :: u16) = Suc (400 * k + y)"
    by (simp_all add: N_def rtc_consts k_def d1_def minus_div_mult_eq_mod)
  have dt: "dt = \<lparr>year = of_nat (Suc (400 * k + y)), month = of_nat (Suc mo), day = of_nat (Suc dd),
      hour = of_nat (unat t div 3600000000 mod 24), minute = of_nat (unat t div 60000000 mod 60),
      second = of_nat (unat t div 1000000 mod 60), microsecond = of_nat (unat t mod 1000000)\<rparr>"
    unfolding dt_def tick_to_date_time_def Let_def eqs k_def [symmetric] y_def [symmetric]
      days_before_eq [symmetric] d2_def [symmetric] leap_def [symmetric] mo_def [symmetric] dd_def [symmetric]
    by (simp add: mult.commute)
  have "valid_date (Suc (400 * k + y)) (Suc mo) (Suc dd)"
    using mo dd by (simp add: valid_date_def leap_def)
  moreover from day_number_eq [OF this] have "day_number (Suc (400 * k + y)) (Suc mo) (Suc dd) = N"
    using N2 dd by (simp add: leap_def)
  ultimately show ?thesis
    using ky mo dd(3) unfolding N_def dt by (simp add: unat_of_nat del: of_nat_Suc)
qed

section \<open>Validity and round trips\<close>

lemmas rtc_codes = rtc_err.simps CELL_OK_def

lemma check_valid_iff:
  "cellRtcCheckValid_value t = CELL_OK \<longleftrightarrow>
    valid_date (unat (year t)) (unat (month t)) (unat (day t)) \<and> unat (year t) < 10000 \<and> unat (hour t) < 24
    \<and> unat (minute t) < 60 \<and> unat (second t) < 60 \<and> unat (microsecond t) < 1000000"
  by (auto simp: cellRtcCheckValid_value_def rtc_codes valid_date_def cellRtcGetTickResolution_def unat_gt_0
      word_le_nat_alt word_less_nat_alt not_le not_less Suc_le_eq unat_eq_zero split: if_splits)

lemma tick_value_split:
  assumes "h < 24" "mi < 60" "s < 60" "us < 1000000"
  shows "tick_value N h mi s us div 86400000000 = N" "tick_value N h mi s us div 3600000000 mod 24 = h"
    "tick_value N h mi s us div 60000000 mod 60 = mi" "tick_value N h mi s us div 1000000 mod 60 = s"
    "tick_value N h mi s us mod 1000000 = us"
proof -
  let ?S = "(N * 24 + h) * 60 + mi"
  have d1: "tick_value N h mi s us div 1000000 = ?S * 60 + s" using assms by (simp add: tick_value_def)
  then have d2: "tick_value N h mi s us div 60000000 = ?S"
    using assms div_mult2_eq [of "tick_value N h mi s us" 1000000 60] by simp
  then have d3: "tick_value N h mi s us div 3600000000 = N * 24 + h"
    using assms div_mult2_eq [of "tick_value N h mi s us" 60000000 60] by simp
  show "tick_value N h mi s us div 86400000000 = N"
    using assms d3 div_mult2_eq [of "tick_value N h mi s us" 3600000000 24] by simp
  show "tick_value N h mi s us div 3600000000 mod 24 = h" "tick_value N h mi s us div 60000000 mod 60 = mi"
    "tick_value N h mi s us div 1000000 mod 60 = s" "tick_value N h mi s us mod 1000000 = us"
    unfolding d1 d2 d3 unfolding tick_value_def using assms by (simp_all only: mod_mult_self3 mod_less)
qed

lemma tick_value_join:
  "tick_value (t div 86400000000) (t div 3600000000 mod 24) (t div 60000000 mod 60) (t div 1000000 mod 60)
    (t mod 1000000) = t"
proof -
  have "t div 86400000000 = t div 3600000000 div 24" "t div 3600000000 = t div 60000000 div 60"
    "t div 60000000 = t div 1000000 div 60"
    by (simp_all flip: div_mult2_eq)
  then show ?thesis by (simp add: tick_value_def)
qed

lemma valid_tick:
  assumes "valid_date (unat (year dt)) (unat (month dt)) (unat (day dt))"
  shows "unat (date_time_to_tick dt) =
    tick_value (day_number (unat (year dt)) (unat (month dt)) (unat (day dt)))
      (unat (hour dt)) (unat (minute dt)) (unat (second dt)) (unat (microsecond dt))"
proof -
  obtain y m d where *: "unat (year dt) = Suc y" "unat (month dt) = Suc m" "unat (day dt) = Suc d" "m < 12"
    using assms by (rule valid_date_cases)
  then have "year dt \<noteq> 0" "month dt \<noteq> 0" "month dt \<le> 12" "day dt \<noteq> 0"
    by (auto simp: word_le_nat_alt)
  then show ?thesis
    using * assms day_number_eq [of y m d] by (simp add: unat_date_time_to_tick)
qed

lemma days_before_9999: "days_before 9999 = 3652059"
  using days_before_closed [of 9999] by simp

lemma days_before_65535: "days_before 65535 = 23936166"
  using days_before_closed [of 65535] by simp

lemma day_number_less:
  assumes "valid_date y mo d" "y \<le> z"
  shows "day_number y mo d < days_before z"
proof -
  obtain y' m d' where y: "y = Suc y'" "mo = Suc m" "d = Suc d'" "m < 12" "d' < month_lengths (is_leap_year y) ! m"
    using assms(1) by (rule valid_date_cases)
  then have "day_number y mo d < days_before (Suc y')"
    using day_number_eq assms(1) valid_date_year_day [OF y(4,5)] by (simp only: days_before_Suc)
  also have "\<dots> \<le> days_before z" using assms(2) y by (intro days_before_mono) simp
  finally show ?thesis .
qed

lemma valid_date_roundtrip:
  assumes "cellRtcCheckValid_value dt = CELL_OK"
  shows "tick_to_date_time (date_time_to_tick dt) = dt"
proof -
  let ?u = "tick_to_date_time (date_time_to_tick dt)"
  have v: "valid_date (unat (year dt)) (unat (month dt)) (unat (day dt))" and b: "unat (year dt) < 10000"
    "unat (hour dt) < 24" "unat (minute dt) < 60" "unat (second dt) < 60" "unat (microsecond dt) < 1000000"
    using assms by (auto simp: check_valid_iff)
  note t = valid_tick [OF v] and split = tick_value_split [OF b(2-5)]
  have "unat (date_time_to_tick dt) div 86400000000 < days_before 65535"
    using day_number_less [OF v, of 65535] b(1) by (simp add: t split)
  note u = tick_to_date_time_fields [OF this]
  then have "unat (year ?u) = unat (year dt) \<and> unat (month ?u) = unat (month dt) \<and> unat (day ?u) = unat (day dt)"
    using v by (intro day_number_inj) (simp_all add: t split)
  then show ?thesis
    using u by (intro CellRtcDateTime.equality) (simp_all add: t split word_unat_eq_iff)
qed

text \<open>
  C34: a date that passes \<^verbatim>\<open>cellRtcCheckValid\<close> survives the conversion to a tick and back.
\<close>

theorem date_tick_date:
  assumes "cellRtcCheckValid_value dt = CELL_OK"
  shows "tick_to_date_time (date_time_to_tick dt) = dt"
  using assms by (rule valid_date_roundtrip)

definition sample_date :: CellRtcDateTime where
  "sample_date = \<lparr>year = 2000, month = 2, day = 29, hour = 23, minute = 59, second = 58, microsecond = 999999\<rparr>"

lemma sample_date_valid: "cellRtcCheckValid_value sample_date = CELL_OK"
  by (simp add: cellRtcCheckValid_value_def sample_date_def CELL_OK_def month_tables is_leap_year_def
      cellRtcGetTickResolution_def)

theorem date_tick_date_witness:
  "cellRtcCheckValid_value sample_date = CELL_OK \<and> tick_to_date_time (date_time_to_tick sample_date) = sample_date"
  using date_tick_date [OF sample_date_valid] sample_date_valid by simp

lemma tick_roundtrip:
  assumes "unat t div 86400000000 < days_before 65535"
  shows "date_time_to_tick (tick_to_date_time t) = t"
proof -
  note u = tick_to_date_time_fields [OF assms]
  then have "unat (date_time_to_tick (tick_to_date_time t)) = unat t"
    using valid_tick [of "tick_to_date_time t"] by (simp add: tick_value_join)
  then show ?thesis by (rule word_unat_eq_iff [THEN iffD2])
qed

text \<open>
  A tick before the end of the year 65535 survives the conversion to a date and back; later years
  do not fit the \<^verbatim>\<open>u16\<close> field.
\<close>

theorem tick_date_tick:
  assumes "unat t div 86400000000 < days_before 65535"
  shows "date_time_to_tick (tick_to_date_time t) = t"
  using assms by (rule tick_roundtrip)

theorem tick_date_tick_witness:
  "unat RTC_MAGIC_OFFSET div 86400000000 < days_before 65535
    \<and> date_time_to_tick (tick_to_date_time RTC_MAGIC_OFFSET) = RTC_MAGIC_OFFSET"
  using tick_date_tick [of RTC_MAGIC_OFFSET] by (simp add: days_before_65535 RTC_MAGIC_OFFSET_def)

lemma tick_check_valid:
  assumes "unat t div 86400000000 < days_before 9999"
  shows "cellRtcCheckValid_value (tick_to_date_time t) = CELL_OK"
proof -
  have "unat t div 86400000000 < days_before 65535"
    using assms by (simp add: days_before_9999 days_before_65535)
  note u = tick_to_date_time_fields [OF this]
  have "\<not> days_before 9999 \<le> days_before (unat (year (tick_to_date_time t)) - 1)"
    using assms u by (auto simp: day_number_def)
  then have "unat (year (tick_to_date_time t)) < 10000"
    using days_before_mono [of 9999 "unat (year (tick_to_date_time t)) - 1"] by linarith
  then show ?thesis using u by (simp add: check_valid_iff)
qed

text \<open>
  Every tick before the year 10000 converts to a date that \<^verbatim>\<open>cellRtcCheckValid\<close> accepts.
\<close>

theorem tick_date_valid:
  assumes "unat t div 86400000000 < days_before 9999"
  shows "cellRtcCheckValid_value (tick_to_date_time t) = CELL_OK"
  using assms by (rule tick_check_valid)

theorem tick_date_valid_witness:
  "unat RTC_SYSTEM_TIME_MAX div 86400000000 < days_before 9999
    \<and> cellRtcCheckValid_value (tick_to_date_time RTC_SYSTEM_TIME_MAX) = CELL_OK"
  using tick_date_valid [of RTC_SYSTEM_TIME_MAX] by (simp add: days_before_9999 RTC_SYSTEM_TIME_MAX_def)

section \<open>The day of the week\<close>

lemma tdiv_nonneg: "0 \<le> a \<Longrightarrow> 0 < b \<Longrightarrow> tdiv a b = a div b"
  by (cases "a = 0") (simp_all add: tdiv_def)

lemma tmod_nonneg: "0 \<le> a \<Longrightarrow> 0 < b \<Longrightarrow> tmod a b = a mod b"
  by (simp add: tmod_def tdiv_nonneg minus_mult_div_eq_mod)

definition weekday_sum :: "nat \<Rightarrow> int" where
  "weekday_sum y = int y + int y div 4 - int y div 100 + int y div 400"

lemma weekday_sum_nonneg: "0 \<le> weekday_sum y"
proof -
  have "y div 100 \<le> y" by simp
  then have "int y div 100 \<le> int y" by (metis of_nat_le_iff of_nat_numeral zdiv_int)
  then show ?thesis by (simp add: weekday_sum_def)
qed

lemma weekday_sum_days: "int (days_before y) = weekday_sum y + 7 * (52 * int y)"
proof -
  have "int (days_before y) + int (y div 100) = 365 * int y + int (y div 4) + int (y div 400)"
    using days_before_closed [of y] by linarith
  then show ?thesis by (simp add: weekday_sum_def zdiv_int)
qed

lemma weekday_month:
  assumes "2 \<le> m" "m < 12"
  obtains k where "int (month_offsets leap ! m) = (int (Suc m) * 13 + 8) div 5 + int (year_days leap) + 7 * k"
proof -
  have "((Suc m * 13 + 8) div 5 + year_days leap) mod 7 = month_offsets leap ! m mod 7"
    using assms(2,1) by (cases m rule: month_cases; simp add: month_tables year_days_def)
  from arg_cong [OF this, of int]
  have "((int (Suc m) * 13 + 8) div 5 + int (year_days leap)) mod 7 = int (month_offsets leap ! m) mod 7"
    unfolding zmod_int of_nat_add zdiv_int of_nat_mult of_nat_numeral .
  then show thesis by (rule mod_eqE) (rule that)
qed

lemma sint_word_of_int_u32: "- 2147483648 \<le> k \<Longrightarrow> k < 2147483648 \<Longrightarrow> sint (word_of_int k :: u32) = k"
  by (simp add: signed_of_int signed_take_bit_int_eq_self)

lemma sdiv32_of_nat: "n < 2147483648 \<Longrightarrow> 0 < k \<Longrightarrow> sdiv32 (of_nat n) k = word_of_int (int n div k)"
  using sint_word_of_int_u32 [of "int n"] by (simp add: sdiv32_def tdiv_nonneg)

text \<open>The formula on 32-bit numbers, for years with which it does not overflow.\<close>

lemma weekday_formula:
  assumes "mo < 20" "y < 2 ^ 30" "d < 100"
  shows "sint (word_of_int (tmod (sint (sdiv32 (of_nat mo * 13 + 8) 5 + of_nat y + sdiv32 (of_nat y) 4 - sdiv32 (of_nat y) 100
      + sdiv32 (of_nat y) 400 + of_nat d)) 7) :: u32) = ((int mo * 13 + 8) div 5 + weekday_sum y + int d) mod 7"
proof -
  let ?S = "(int mo * 13 + 8) div 5 + weekday_sum y + int d"
  have m: "of_nat mo * 13 + 8 = (of_nat (mo * 13 + 8) :: u32)" by simp
  have "sdiv32 (of_nat mo * 13 + 8) 5 = word_of_int ((int mo * 13 + 8) div 5)"
    unfolding m using assms(1) sdiv32_of_nat [of "mo * 13 + 8" 5] by simp
  moreover have "sdiv32 (of_nat y) k = word_of_int (int y div k)" if "0 < k" for k using assms(2) that by (intro sdiv32_of_nat) simp_all
  ultimately have e: "sdiv32 (of_nat mo * 13 + 8) 5 + of_nat y + sdiv32 (of_nat y) 4 - sdiv32 (of_nat y) 100 + sdiv32 (of_nat y) 400 + of_nat d
      = (word_of_int ?S :: u32)"
    by (simp add: weekday_sum_def)
  have n: "0 \<le> ?S" using weekday_sum_nonneg [of y] by (simp add: pos_imp_zdiv_nonneg_iff)
  have "int y < 2 ^ 30" "int mo < 20" "int d < 100" using assms by simp_all
  then have "?S < 2147483648" unfolding weekday_sum_def by (simp add: algebra_simps)
  then have "sint (word_of_int ?S :: u32) = ?S" using n by (intro sint_word_of_int_u32) simp_all
  moreover have "sint (word_of_int (?S mod 7) :: u32) = ?S mod 7" by (intro sint_word_of_int_u32) (simp_all add: order.trans [OF _ pos_mod_sign] order.strict_trans [OF pos_mod_bound])
  ultimately show ?thesis using n unfolding e by (simp add: tmod_nonneg)
qed

lemma of_nat_month: "mo \<le> 12 \<Longrightarrow> (of_nat mo :: u32) = 1 \<longleftrightarrow> mo = 1" "mo \<le> 12 \<Longrightarrow> (of_nat mo :: u32) = 2 \<longleftrightarrow> mo = 2"
  by (simp_all add: word_unat_eq_iff unat_of_nat)

lemma weekday_late: "2 < mo \<Longrightarrow> mo \<le> 12 \<Longrightarrow> y < 2 ^ 30 \<Longrightarrow> d < 100 \<Longrightarrow>
    sint (cellRtcGetDayOfWeek (of_nat y) (of_nat mo) (of_nat d)) = ((int mo * 13 + 8) div 5 + weekday_sum y + int d) mod 7"
  using weekday_formula [of mo y d] of_nat_month [of mo] by (simp add: cellRtcGetDayOfWeek_def Let_def)

lemma weekday_early: "mo = 1 \<or> mo = 2 \<Longrightarrow> y < 2 ^ 30 \<Longrightarrow> d < 100 \<Longrightarrow>
    sint (cellRtcGetDayOfWeek (of_nat (Suc y)) (of_nat mo) (of_nat d)) = ((int (mo + 12) * 13 + 8) div 5 + weekday_sum y + int d) mod 7"
proof -
  assume a: "mo = 1 \<or> mo = 2" "y < 2 ^ 30" "d < 100"
  have e: "of_nat mo + 12 = (of_nat (mo + 12) :: u32)" "of_nat (Suc y) - 1 = (of_nat y :: u32)" by simp_all
  have "cellRtcGetDayOfWeek (of_nat (Suc y)) (of_nat mo) (of_nat d) = word_of_int (tmod (sint (sdiv32 (of_nat (mo + 12) * 13 + 8) 5
      + of_nat y + sdiv32 (of_nat y) 4 - sdiv32 (of_nat y) 100 + sdiv32 (of_nat y) 400 + of_nat d)) 7)"
    using a(1) of_nat_month [of mo] unfolding cellRtcGetDayOfWeek_def Let_def e by auto
  then show ?thesis using weekday_formula [of "mo + 12" y d] a by (simp only:) auto
qed

lemma weekday_correct:
  assumes "valid_date y mo d" and b: "y < 2 ^ 30"
  shows "sint (cellRtcGetDayOfWeek (of_nat y) (of_nat mo) (of_nat d)) = int ((day_number y mo d + 1) mod 7)"
proof -
  obtain y' m d' where y: "y = Suc y'" "mo = Suc m" "d = Suc d'" "m < 12"
    using assms(1) by (rule valid_date_cases)
  have d: "d < 100" using assms(1) y month_table(4) [of m "is_leap_year y"] by (simp add: valid_date_def)
  let ?leap = "is_leap_year y" and ?w = "sint (cellRtcGetDayOfWeek (of_nat y) (of_nat mo) (of_nat d))"
  have dn: "int (day_number y mo d + 1) = int (days_before y') + int (month_offsets ?leap ! m) + int d"
    using day_number_eq assms(1) y by simp
  have "?w = int (day_number y mo d + 1) mod 7"
  proof (cases "m < 2")
    case True
    then have m: "m = 0 \<or> m = 1" by linarith
    then have "?w = (35 + 3 * int m + weekday_sum y' + int d) mod 7"
      using weekday_early [of mo y' d] y b d by auto
    also have "int (month_offsets ?leap ! m) = 31 * int m" using m by (auto simp: month_tables)
    then have "35 + 3 * int m + weekday_sum y' + int d
        = int (day_number y mo d + 1) + 7 * (5 - 52 * int y' - 4 * int m)"
      using dn weekday_sum_days [of y'] by (simp add: algebra_simps)
    finally show ?thesis by (simp only: mod_mult_self2)
  next
    case False
    then obtain k where k: "int (month_offsets ?leap ! m) = (int mo * 13 + 8) div 5 + int (year_days ?leap) + 7 * k"
      using weekday_month [of m ?leap] y by auto
    have "?w = ((int mo * 13 + 8) div 5 + weekday_sum y + int d) mod 7"
      using weekday_late [of mo y d] y b d False by simp
    also have "int (days_before y) = int (days_before y') + int (year_days ?leap)"
      using days_before_Suc [of y'] y by simp
    then have "(int mo * 13 + 8) div 5 + weekday_sum y + int d
        = int (day_number y mo d + 1) + 7 * (- 52 * int y - k)"
      using dn k weekday_sum_days [of y] by (simp add: algebra_simps)
    finally show ?thesis by (simp only: mod_mult_self2)
  qed
  then show ?thesis by (simp only: zmod_int of_nat_numeral)
qed

text \<open>
  C35: for every valid date before the year \<open>2 ^ 30\<close>, with which the sum of the formula stays within 32 bits, the closed formula
  of \<^verbatim>\<open>cellRtcGetDayOfWeek\<close> counts the days since Monday, 1 January of the year 1, modulo seven (Sunday is 0).
\<close>

theorem day_of_week:
  assumes "valid_date y mo d" "y < 2 ^ 30"
  shows "sint (cellRtcGetDayOfWeek (of_nat y) (of_nat mo) (of_nat d)) = int ((day_number y mo d + 1) mod 7)"
  using assms by (rule weekday_correct)

theorem day_of_week_witness:
  "valid_date 2000 2 29 \<and> sint (cellRtcGetDayOfWeek 2000 2 29) = int ((day_number 2000 2 29 + 1) mod 7)"
  using day_of_week [of 2000 2 29] by (simp add: valid_date_def month_tables is_leap_year_def)

section \<open>The order of ticks\<close>

definition date_key :: "CellRtcDateTime \<Rightarrow> nat \<times> nat \<times> nat \<times> nat \<times> nat \<times> nat \<times> nat" where
  "date_key dt = (unat (year dt), unat (month dt), unat (day dt), unat (hour dt), unat (minute dt),
     unat (second dt), unat (microsecond dt))"

lemma lex_less_iff: "(a, x) < (b, y) \<longleftrightarrow> a < b \<or> a = b \<and> x < y" for a b :: nat and x y :: "'a::order"
  by auto

lemma day_number_strict_mono:
  assumes "valid_date y mo d" "valid_date z no e" "(y, mo, d) < (z, no, e)"
  shows "day_number y mo d < day_number z no e"
proof -
  obtain y' m d' where y: "y = Suc y'" "mo = Suc m" "d = Suc d'" "m < 12" "d' < month_lengths (is_leap_year y) ! m"
    using assms(1) by (rule valid_date_cases)
  obtain z' n e' where z: "z = Suc z'" "no = Suc n" "e = Suc e'" "n < 12"
    using assms(2) by (rule valid_date_cases)
  consider "y < z" | "y = z" "Suc m \<le> n" | "y = z" "m = n" "d' < e'"
    using assms(3) y z unfolding lex_less_iff by auto
  then show ?thesis
  proof cases
    case 1
    then show ?thesis
      using day_number_less [OF assms(1), of z'] z by (simp add: day_number_def [of "Suc z'"])
  next
    case 2
    then show ?thesis
      using assms y z day_number_eq [of y' m d'] day_number_eq [of z' n e'] month_table(2) [of m "is_leap_year y"]
        month_offsets_mono [of "Suc m" n "is_leap_year y"] by (auto split: if_splits)
  qed (use assms y z day_number_eq [of y' m d'] day_number_eq [of z' n e'] in auto)
qed

lemma tick_value_strict_mono:
  assumes "h < 24" "mi < 60" "s < 60" "us < 1000000" "(N, h, mi, s, us) < (N', h', mi', s', us')"
  shows "tick_value N h mi s us < tick_value N' h' mi' s' us'"
  using assms unfolding tick_value_linear by auto

lemma tick_strict_mono:
  assumes "cellRtcCheckValid_value a = CELL_OK" "cellRtcCheckValid_value b = CELL_OK" "date_key a < date_key b"
  shows "date_time_to_tick a < date_time_to_tick b"
proof -
  let ?N = "\<lambda>d. day_number (unat (year d)) (unat (month d)) (unat (day d))"
  have va: "valid_date (unat (year a)) (unat (month a)) (unat (day a))" and vb: "valid_date (unat (year b)) (unat (month b)) (unat (day b))"
    using assms by (simp_all add: check_valid_iff)
  have "(?N a, unat (hour a), unat (minute a), unat (second a), unat (microsecond a))
      < (?N b, unat (hour b), unat (minute b), unat (second b), unat (microsecond b))"
    using assms(3) day_number_strict_mono [OF va vb] unfolding date_key_def lex_less_iff by auto
  then show ?thesis
    using assms valid_tick [OF va] valid_tick [OF vb]
    by (auto simp: word_less_nat_alt check_valid_iff intro!: tick_value_strict_mono)
qed

text \<open>
  On valid dates the order of ticks is the lexicographic order of year, month, day, hour, minute,
  second and microsecond.
\<close>

theorem tick_order:
  assumes "cellRtcCheckValid_value a = CELL_OK" "cellRtcCheckValid_value b = CELL_OK"
  shows "date_time_to_tick a < date_time_to_tick b \<longleftrightarrow> date_key a < date_key b"
proof (cases "date_key a < date_key b \<or> date_key b < date_key a")
  case True
  then show ?thesis
    using tick_strict_mono assms by (meson order.asym)
next
  case False
  then have "date_key a = date_key b" by (simp add: not_less order.antisym)
  then have "a = b"
    by (intro CellRtcDateTime.equality) (auto simp: date_key_def word_unat_eq_iff)
  then show ?thesis by simp
qed

theorem tick_order_witness:
  "cellRtcCheckValid_value sample_date = CELL_OK \<and> cellRtcCheckValid_value (sample_date\<lparr>hour := 5\<rparr>) = CELL_OK
    \<and> (date_time_to_tick (sample_date\<lparr>hour := 5\<rparr>) < date_time_to_tick sample_date
        \<longleftrightarrow> date_key (sample_date\<lparr>hour := 5\<rparr>) < date_key sample_date)"
proof -
  have "cellRtcCheckValid_value (sample_date\<lparr>hour := 5\<rparr>) = CELL_OK"
    by (simp add: cellRtcCheckValid_value_def sample_date_def CELL_OK_def month_tables is_leap_year_def
      cellRtcGetTickResolution_def)
  then show ?thesis
    using tick_order [of "sample_date\<lparr>hour := 5\<rparr>" sample_date] sample_date_valid by simp
qed

end
