(* ===== verification/Rtc_Ops.thy ===== *)
theory Rtc_Ops
  imports Rtc_Calendar
begin

unbundle bit_operations_syntax

text \<open>
  \<^verbatim>\<open>rpcs3/Emu/Cell/Modules/cellRtc.cpp\<close>: the operations on ticks and dates in guest
  memory. \<open>ok a\<close> is whether \<^verbatim>\<open>sys_memory_get_page_attribute\<close> succeeds at \<open>a\<close>. A \<^verbatim>\<open>vm::var\<close> lives
  on the mapped stack of the calling thread and is a local value here; \<^verbatim>\<open>ppu_thread::stack_push\<close> clears it, so that one that a
  failed call left unwritten is zero. A signed integer of \<open>n\<close> bits is
  the word with its two's complement.
\<close>

section \<open>Dates in memory\<close>

definition ld_date :: "vmem \<Rightarrow> addr \<Rightarrow> CellRtcDateTime" where
  "ld_date m a = \<lparr>year = ld_be16 m a, month = ld_be16 m (a + 2), day = ld_be16 m (a + 4),
     hour = ld_be16 m (a + 6), minute = ld_be16 m (a + 8), second = ld_be16 m (a + 10),
     microsecond = ld_be32 m (a + 12)\<rparr>"

definition st_date :: "vmem \<Rightarrow> addr \<Rightarrow> CellRtcDateTime \<Rightarrow> vmem" where
  "st_date m a d = st_be32 (st_be16 (st_be16 (st_be16 (st_be16 (st_be16 (st_be16 m
       a (year d)) (a + 2) (month d)) (a + 4) (day d)) (a + 6) (hour d)) (a + 8) (minute d))
       (a + 10) (second d)) (a + 12) (microsecond d)"

type_synonym rtc_result = "error_code \<times> vmem"

definition bad_pointer :: error_code where
  "bad_pointer = rtc_err CELL_RTC_ERROR_INVALID_POINTER"

definition failed :: "error_code \<Rightarrow> bool" where
  "failed r \<longleftrightarrow> sint r < 0"

section \<open>Ticks and dates\<close>

definition cellRtcGetTick :: "(addr \<Rightarrow> bool) \<Rightarrow> addr \<Rightarrow> addr \<Rightarrow> vmem \<Rightarrow> rtc_result" where
  "cellRtcGetTick ok pTime pTick m =
     (if \<not> ok pTime then (bad_pointer, m)
      else if \<not> ok pTick then (bad_pointer, m)
      else if year (ld_date m pTime) \<ge> 10000 \<or> year (ld_date m pTime) = 0
      then (rtc_err CELL_RTC_ERROR_INVALID_VALUE, m)
      else (CELL_OK, st_be64 m pTick (date_time_to_tick (ld_date m pTime))))"

definition cellRtcSetTick :: "(addr \<Rightarrow> bool) \<Rightarrow> addr \<Rightarrow> addr \<Rightarrow> vmem \<Rightarrow> rtc_result" where
  "cellRtcSetTick ok pTime pTick m =
     (if \<not> ok pTime then (bad_pointer, m)
      else if \<not> ok pTick then (bad_pointer, m)
      else (CELL_OK, st_date m pTime (tick_to_date_time (ld_be64 m pTick))))"

text \<open>The two calls on a local date or tick.\<close>

definition GetTick_from_var :: "CellRtcDateTime \<Rightarrow> addr \<Rightarrow> vmem \<Rightarrow> vmem" where
  "GetTick_from_var d pTick m =
     (if year d \<ge> 10000 \<or> year d = 0 then m else st_be64 m pTick (date_time_to_tick d))"

definition GetTick_to_var :: "vmem \<Rightarrow> addr \<Rightarrow> u64" where
  "GetTick_to_var m pTime =
     (if year (ld_date m pTime) \<ge> 10000 \<or> year (ld_date m pTime) = 0 then 0
      else date_time_to_tick (ld_date m pTime))"

section \<open>Adding to a tick\<close>

definition tick_update :: "(addr \<Rightarrow> bool) \<Rightarrow> addr \<Rightarrow> addr \<Rightarrow> (u64 \<Rightarrow> u64) \<Rightarrow> vmem \<Rightarrow> rtc_result" where
  "tick_update ok pTick0 pTick1 f m =
     (if \<not> ok pTick0 then (bad_pointer, m)
      else if \<not> ok pTick1 then (bad_pointer, m)
      else (CELL_OK, st_be64 m pTick0 (f (ld_be64 m pTick1))))"

definition tick_resolution :: u64 where
  "tick_resolution = of_nat cellRtcGetTickResolution"

definition cellRtcTickAddTicks :: "(addr \<Rightarrow> bool) \<Rightarrow> addr \<Rightarrow> addr \<Rightarrow> u64 \<Rightarrow> vmem \<Rightarrow> rtc_result" where
  "cellRtcTickAddTicks ok p0 p1 lAdd = tick_update ok p0 p1 (\<lambda>t. t + lAdd)"

definition cellRtcTickAddMicroseconds :: "(addr \<Rightarrow> bool) \<Rightarrow> addr \<Rightarrow> addr \<Rightarrow> u64 \<Rightarrow> vmem \<Rightarrow> rtc_result" where
  "cellRtcTickAddMicroseconds ok p0 p1 lAdd = tick_update ok p0 p1 (\<lambda>t. t + lAdd)"

definition cellRtcTickAddSeconds :: "(addr \<Rightarrow> bool) \<Rightarrow> addr \<Rightarrow> addr \<Rightarrow> u64 \<Rightarrow> vmem \<Rightarrow> rtc_result" where
  "cellRtcTickAddSeconds ok p0 p1 lAdd = tick_update ok p0 p1 (\<lambda>t. t + lAdd * tick_resolution)"

definition cellRtcTickAddMinutes :: "(addr \<Rightarrow> bool) \<Rightarrow> addr \<Rightarrow> addr \<Rightarrow> u64 \<Rightarrow> vmem \<Rightarrow> rtc_result" where
  "cellRtcTickAddMinutes ok p0 p1 lAdd = tick_update ok p0 p1 (\<lambda>t. t + lAdd * 60 * tick_resolution)"

definition cellRtcTickAddHours :: "(addr \<Rightarrow> bool) \<Rightarrow> addr \<Rightarrow> addr \<Rightarrow> u32 \<Rightarrow> vmem \<Rightarrow> rtc_result" where
  "cellRtcTickAddHours ok p0 p1 iAdd = tick_update ok p0 p1 (\<lambda>t. t + scast iAdd * 60 * 60 * tick_resolution)"

definition cellRtcTickAddDays :: "(addr \<Rightarrow> bool) \<Rightarrow> addr \<Rightarrow> addr \<Rightarrow> u32 \<Rightarrow> vmem \<Rightarrow> rtc_result" where
  "cellRtcTickAddDays ok p0 p1 iAdd =
     tick_update ok p0 p1 (\<lambda>t. t + scast iAdd * 60 * 60 * 24 * tick_resolution)"

definition cellRtcTickAddWeeks :: "(addr \<Rightarrow> bool) \<Rightarrow> addr \<Rightarrow> addr \<Rightarrow> u32 \<Rightarrow> vmem \<Rightarrow> rtc_result" where
  "cellRtcTickAddWeeks ok p0 p1 iAdd =
     tick_update ok p0 p1 (\<lambda>t. t + scast iAdd * 60 * 60 * 24 * 7 * tick_resolution)"

text \<open>
  Months and years: an impossible month has the error code as its number of days, negative as an
  \<^verbatim>\<open>s32\<close>, and the day is cut to it.
\<close>

definition month_days :: "u16 \<Rightarrow> u16 \<Rightarrow> int" where
  "month_days y mo =
     (if y = 0 \<or> mo < 1 \<or> mo > 12 then sint (rtc_err CELL_RTC_ERROR_INVALID_ARG)
      else int (month_lengths (is_leap_year (unat y)) ! (unat mo - 1)))"

definition clamp_day :: "u16 \<Rightarrow> u16 \<Rightarrow> u16 \<Rightarrow> u16" where
  "clamp_day y mo d = (if month_days y mo < uint d then word_of_int (month_days y mo) else d)"

definition add_months :: "CellRtcDateTime \<Rightarrow> u32 \<Rightarrow> CellRtcDateTime" where
  "add_months d iAdd =
     (let total_months = sint (ucast (year d) * 12 + ucast (month d) + iAdd - 1 :: u32);
          new_year = word_of_int (tdiv total_months 12) :: u16;
          new_month = word_of_int (total_months - uint new_year * 12 + 1) :: u16
      in d\<lparr>day := clamp_day new_year new_month (day d), month := new_month, year := new_year\<rparr>)"

definition cellRtcTickAddMonths :: "(addr \<Rightarrow> bool) \<Rightarrow> addr \<Rightarrow> addr \<Rightarrow> u32 \<Rightarrow> vmem \<Rightarrow> rtc_result" where
  "cellRtcTickAddMonths ok p0 p1 iAdd m =
     (if \<not> ok p0 then (bad_pointer, m)
      else if \<not> ok p1 then (bad_pointer, m)
      else (CELL_OK, GetTick_from_var (add_months (tick_to_date_time (ld_be64 m p1)) iAdd) p0 m))"

definition add_years :: "CellRtcDateTime \<Rightarrow> u32 \<Rightarrow> CellRtcDateTime" where
  "add_years d iAdd =
     (let new_year = ucast (ucast (year d) + iAdd) :: u16
      in d\<lparr>day := clamp_day new_year (month d) (day d), year := new_year\<rparr>)"

definition cellRtcTickAddYears :: "(addr \<Rightarrow> bool) \<Rightarrow> addr \<Rightarrow> addr \<Rightarrow> u32 \<Rightarrow> vmem \<Rightarrow> rtc_result" where
  "cellRtcTickAddYears ok p0 p1 iAdd m =
     (if \<not> ok p0 then (bad_pointer, m)
      else if \<not> ok p1 then (bad_pointer, m)
      else (CELL_OK, GetTick_from_var (add_years (tick_to_date_time (ld_be64 m p1)) iAdd) p0 m))"

section \<open>Clocks and time zones\<close>

text \<open>
  What the system calls answer: \<^verbatim>\<open>sys_time_get_current_time\<close> (code, seconds, nanoseconds),
  \<^verbatim>\<open>sys_time_get_timezone\<close> (code, zone and summer time in minutes), the setters, and
  \<^verbatim>\<open>sys_ss_secure_rtc\<close> (code, time, status for a command and its argument).
\<close>

record rtc_host =
  get_current_time :: "error_code \<times> u64 \<times> u64"
  get_timezone :: "error_code \<times> u32 \<times> u32"
  set_current_time :: "u64 \<Rightarrow> u64 \<Rightarrow> error_code"
  set_timezone :: "u32 \<Rightarrow> u32 \<Rightarrow> error_code"
  secure_rtc :: "u64 \<Rightarrow> u64 \<Rightarrow> error_code \<times> u64 \<times> u64"

definition host_tick :: "u64 \<Rightarrow> u64 \<Rightarrow> u64" where
  "host_tick sec nsec = word_of_int (tdiv (sint nsec) 1000) + sec * tick_resolution + RTC_MAGIC_OFFSET"

definition cellRtcGetCurrentTick :: "rtc_host \<Rightarrow> (addr \<Rightarrow> bool) \<Rightarrow> addr \<Rightarrow> vmem \<Rightarrow> rtc_result" where
  "cellRtcGetCurrentTick h ok pTick m =
     (if \<not> ok pTick then (bad_pointer, m)
      else (case get_current_time h of (ret, sec, nsec) \<Rightarrow>
        if failed ret then (ret, m) else (CELL_OK, st_be64 m pTick (host_tick sec nsec))))"

definition cellRtcGetCurrentClock :: "rtc_host \<Rightarrow> (addr \<Rightarrow> bool) \<Rightarrow> addr \<Rightarrow> u32 \<Rightarrow> vmem \<Rightarrow> rtc_result" where
  "cellRtcGetCurrentClock h ok pClock iTimeZone m =
     (if \<not> ok pClock then (bad_pointer, m)
      else (case get_current_time h of (ret, sec, nsec) \<Rightarrow>
        if failed ret then (ret, m)
        else (CELL_OK, st_date m pClock
               (tick_to_date_time (host_tick sec nsec + scast iTimeZone * 60 * tick_resolution)))))"

definition cellRtcGetCurrentClockLocalTime :: "rtc_host \<Rightarrow> (addr \<Rightarrow> bool) \<Rightarrow> addr \<Rightarrow> vmem \<Rightarrow> rtc_result" where
  "cellRtcGetCurrentClockLocalTime h ok pClock m =
     (if \<not> ok pClock then (bad_pointer, m)
      else (case get_timezone h of (ret, timezone, summertime) \<Rightarrow>
        if failed ret then (ret, m)
        else (case get_current_time h of (ret, sec, nsec) \<Rightarrow>
          if failed ret then (ret, m)
          else (CELL_OK, st_date m pClock
                 (tick_to_date_time (host_tick sec nsec + scast (timezone + summertime) * 60 * tick_resolution))))))"

definition cellRtcConvertUtcToLocalTime :: "rtc_host \<Rightarrow> (addr \<Rightarrow> bool) \<Rightarrow> addr \<Rightarrow> addr \<Rightarrow> vmem \<Rightarrow> rtc_result" where
  "cellRtcConvertUtcToLocalTime h ok pUtc pLocalTime m =
     (case get_timezone h of (ret, timezone, summertime) \<Rightarrow>
        if - 1 < sint ret then cellRtcTickAddMinutes ok pLocalTime pUtc (scast (timezone + summertime)) m
        else (ret, m))"

definition cellRtcConvertLocalTimeToUtc :: "rtc_host \<Rightarrow> (addr \<Rightarrow> bool) \<Rightarrow> addr \<Rightarrow> addr \<Rightarrow> vmem \<Rightarrow> rtc_result" where
  "cellRtcConvertLocalTimeToUtc h ok pLocalTime pUtc m =
     (case get_timezone h of (ret, timezone, summertime) \<Rightarrow>
        if - 1 < sint ret then cellRtcTickAddMinutes ok pUtc pLocalTime (scast (- (timezone + summertime))) m
        else (ret, m))"

definition SYS_SS_RTC_ERROR_UNK :: error_code where "SYS_SS_RTC_ERROR_UNK = 0x8001050f"

definition cellRtcGetCurrentSecureTick :: "rtc_host \<Rightarrow> (addr \<Rightarrow> bool) \<Rightarrow> addr \<Rightarrow> vmem \<Rightarrow> rtc_result" where
  "cellRtcGetCurrentSecureTick h ok tick m =
     (if \<not> ok tick then (bad_pointer, m)
      else (case secure_rtc h 0x3002 0 of (ret, time, status) \<Rightarrow>
        let m1 = st_be64 m tick RTC_SYSTEM_TIME_MIN in
        if \<not> failed ret then (ret, st_be64 m1 tick (ld_be64 m1 tick + time * tick_resolution))
        else if ret = SYS_SS_RTC_ERROR_UNK then
          (if status = 1 then rtc_err CELL_RTC_ERROR_NO_CLOCK
           else if status = 2 then rtc_err CELL_RTC_ERROR_NOT_INITIALIZED
           else if status = 4 then rtc_err CELL_RTC_ERROR_INVALID_VALUE
           else if status = 8 then rtc_err CELL_RTC_ERROR_NO_CLOCK
           else ret, m1)
        else (ret, m1)))"

definition cellRtcSetCurrentSecureTick :: "rtc_host \<Rightarrow> addr \<Rightarrow> vmem \<Rightarrow> error_code" where
  "cellRtcSetCurrentSecureTick h pTick m =
     (if pTick = 0 then bad_pointer
      else if ld_be64 m pTick > RTC_SYSTEM_TIME_MAX then rtc_err CELL_RTC_ERROR_INVALID_VALUE
      else fst (secure_rtc h 0x3003 ((ld_be64 m pTick - RTC_SYSTEM_TIME_MIN) div tick_resolution)))"

definition cellRtcSetCurrentTick :: "rtc_host \<Rightarrow> addr \<Rightarrow> vmem \<Rightarrow> error_code" where
  "cellRtcSetCurrentTick h pTick m =
     (if pTick = 0 then bad_pointer
      else if ld_be64 m pTick < RTC_MAGIC_OFFSET then rtc_err CELL_RTC_ERROR_INVALID_VALUE
      else (let unix_time = ld_be64 m pTick - RTC_MAGIC_OFFSET;
                ret = set_current_time h (unix_time div tick_resolution) (unix_time mod tick_resolution * 1000)
            in if \<not> failed ret then CELL_OK else ret))"

definition cellRtcSetConf :: "rtc_host \<Rightarrow> u64 \<Rightarrow> u64 \<Rightarrow> u32 \<Rightarrow> u32 \<Rightarrow> error_code" where
  "cellRtcSetConf h unk1 unk2 timezone summertime = set_timezone h timezone summertime"

section \<open>Other representations\<close>

definition dos_time :: "CellRtcDateTime \<Rightarrow> u32" where
  "dos_time d =
     (let y = push_bit 9 ((ucast (year d) - 1980) AND 0x7F);
          mo = push_bit 5 (ucast (month d) AND 0xF);
          h = push_bit 11 (ucast (hour d) AND 0x1F);
          mi = push_bit 5 (ucast (minute d) AND 0x3F);
          da = ucast (day d) AND 0x1F;
          s = drop_bit 1 (ucast (second d)) AND 0x1F;
          ymd = y OR mo OR da;
          hms = h OR mi OR s
      in push_bit 16 ymd OR hms)"

definition cellRtcGetDosTime :: "(addr \<Rightarrow> bool) \<Rightarrow> addr \<Rightarrow> addr \<Rightarrow> vmem \<Rightarrow> rtc_result" where
  "cellRtcGetDosTime ok pDateTime puiDosTime m =
     (if \<not> ok pDateTime then (bad_pointer, m)
      else if \<not> ok puiDosTime then (bad_pointer, m)
      else if year (ld_date m pDateTime) < 1980
      then (- 1, if puiDosTime \<noteq> 0 then st_be32 m puiDosTime 0 else m)
      else if year (ld_date m pDateTime) \<ge> 2108
      then (- 1, if puiDosTime \<noteq> 0 then st_be32 m puiDosTime 0xff9fbf7d else m)
      else (CELL_OK, if puiDosTime \<noteq> 0 then st_be32 m puiDosTime (dos_time (ld_date m pDateTime)) else m))"

definition date_of_dos_time :: "u32 \<Rightarrow> CellRtcDateTime" where
  "date_of_dos_time t =
     (let hms = t AND 0xffff; ymd = drop_bit 16 t in
      \<lparr>year = ucast (drop_bit 9 ymd + 1980), month = ucast (drop_bit 5 ymd AND 0xf), day = ucast (ymd AND 0x1f),
       hour = ucast (drop_bit 11 hms), minute = ucast (drop_bit 5 hms AND 0x3f),
       second = ucast (push_bit 1 hms AND 0x3e), microsecond = 0\<rparr>)"

definition cellRtcSetDosTime :: "(addr \<Rightarrow> bool) \<Rightarrow> addr \<Rightarrow> u32 \<Rightarrow> vmem \<Rightarrow> rtc_result" where
  "cellRtcSetDosTime ok pDateTime uiDosTime m =
     (if \<not> ok pDateTime then (bad_pointer, m) else (CELL_OK, st_date m pDateTime (date_of_dos_time uiDosTime)))"

definition st_nonnull :: "vmem \<Rightarrow> addr \<Rightarrow> u64 \<Rightarrow> vmem" where
  "st_nonnull m p v = (if p \<noteq> 0 then st_be64 m p v else m)"

definition cellRtcGetSystemTime :: "(addr \<Rightarrow> bool) \<Rightarrow> addr \<Rightarrow> addr \<Rightarrow> vmem \<Rightarrow> rtc_result" where
  "cellRtcGetSystemTime ok pDateTime pTimeStamp m =
     (if \<not> ok pDateTime then (bad_pointer, m)
      else if \<not> ok pTimeStamp then (bad_pointer, m)
      else (let tick = GetTick_to_var m pDateTime in
        if tick < RTC_SYSTEM_TIME_MIN then (rtc_err CELL_RTC_ERROR_INVALID_VALUE, st_nonnull m pTimeStamp 0)
        else if tick \<ge> RTC_SYSTEM_TIME_MAX + tick_resolution
        then (rtc_err CELL_RTC_ERROR_INVALID_VALUE,
              st_nonnull m pTimeStamp ((RTC_SYSTEM_TIME_MAX - RTC_SYSTEM_TIME_MIN) div tick_resolution))
        else (CELL_OK, st_nonnull m pTimeStamp ((tick - RTC_SYSTEM_TIME_MIN) div tick_resolution))))"

definition cellRtcGetTime_t :: "(addr \<Rightarrow> bool) \<Rightarrow> addr \<Rightarrow> addr \<Rightarrow> vmem \<Rightarrow> rtc_result" where
  "cellRtcGetTime_t ok pDateTime piTime m =
     (if \<not> ok pDateTime then (bad_pointer, m)
      else if \<not> ok piTime then (bad_pointer, m)
      else (let tick = GetTick_to_var m pDateTime in
        if tick < RTC_MAGIC_OFFSET then (rtc_err CELL_RTC_ERROR_INVALID_VALUE, st_nonnull m piTime 0)
        else (CELL_OK, st_nonnull m piTime ((tick - RTC_MAGIC_OFFSET) div tick_resolution))))"

definition cellRtcGetWin32FileTime :: "(addr \<Rightarrow> bool) \<Rightarrow> addr \<Rightarrow> addr \<Rightarrow> vmem \<Rightarrow> rtc_result" where
  "cellRtcGetWin32FileTime ok pDateTime pul m =
     (if \<not> ok pDateTime then (bad_pointer, m)
      else if \<not> ok pul then (bad_pointer, m)
      else (let tick = GetTick_to_var m pDateTime in
        if tick < RTC_FILETIME_OFFSET then (rtc_err CELL_RTC_ERROR_INVALID_VALUE, st_nonnull m pul 0)
        else (CELL_OK, st_nonnull m pul ((tick - RTC_FILETIME_OFFSET) * 10))))"

definition set_date :: "(addr \<Rightarrow> bool) \<Rightarrow> addr \<Rightarrow> u64 \<Rightarrow> vmem \<Rightarrow> rtc_result" where
  "set_date ok pDateTime tick m =
     (if \<not> ok pDateTime then (bad_pointer, m) else (CELL_OK, st_date m pDateTime (tick_to_date_time tick)))"

definition cellRtcSetTime_t :: "(addr \<Rightarrow> bool) \<Rightarrow> addr \<Rightarrow> u64 \<Rightarrow> vmem \<Rightarrow> rtc_result" where
  "cellRtcSetTime_t ok pDateTime iTime = set_date ok pDateTime (iTime * tick_resolution + RTC_MAGIC_OFFSET)"

definition cellRtcSetSystemTime :: "(addr \<Rightarrow> bool) \<Rightarrow> addr \<Rightarrow> u64 \<Rightarrow> vmem \<Rightarrow> rtc_result" where
  "cellRtcSetSystemTime ok pDateTime iTime = set_date ok pDateTime (iTime * tick_resolution + RTC_SYSTEM_TIME_MIN)"

definition cellRtcSetWin32FileTime :: "(addr \<Rightarrow> bool) \<Rightarrow> addr \<Rightarrow> u64 \<Rightarrow> vmem \<Rightarrow> rtc_result" where
  "cellRtcSetWin32FileTime ok pDateTime t = set_date ok pDateTime (t div 10 + RTC_FILETIME_OFFSET)"

section \<open>Queries\<close>

text \<open>\<^verbatim>\<open>ensure\<close> throws (\<open>None\<close>) on a null pointer.\<close>

definition cellRtcCheckValid :: "addr \<Rightarrow> vmem \<Rightarrow> error_code option" where
  "cellRtcCheckValid pTime m = (if pTime = 0 then None else Some (cellRtcCheckValid_value (ld_date m pTime)))"

definition cellRtcCompareTick :: "addr \<Rightarrow> addr \<Rightarrow> vmem \<Rightarrow> int option" where
  "cellRtcCompareTick p0 p1 m =
     (if p0 = 0 \<or> p1 = 0 then None
      else if ld_be64 m p1 \<le> ld_be64 m p0 then Some (if ld_be64 m p1 < ld_be64 m p0 then 1 else 0)
      else Some (- 1))"

section \<open>Laws of the memory accesses\<close>

interpretation cell_date: vm_cell ld_date st_date 16
proof -
  let ?f = "\<lambda>(y, mo, d, h, mi, s, us). \<lparr>year = y, month = mo, day = d, hour = h, minute = mi, second = s, microsecond = us\<rparr>"
  let ?g = "\<lambda>r. (year r, month r, day r, hour r, minute r, second r, microsecond r)"
  note be16 = cell_be16.vm_cell_axioms
  have pair: "vm_cell (\<lambda>m a. (ld_be16 m a, ld_be16 m (a + 2), ld_be16 m (a + 2 + 2), ld_be16 m (a + 2 + 2 + 2),
      ld_be16 m (a + 2 + 2 + 2 + 2), ld_be16 m (a + 2 + 2 + 2 + 2 + 2), ld_be32 m (a + 2 + 2 + 2 + 2 + 2 + 2)))
      (\<lambda>m a v. st_be32 (st_be16 (st_be16 (st_be16 (st_be16 (st_be16 (st_be16 m a (fst v)) (a + 2) (fst (snd v)))
        (a + 2 + 2) (fst (snd (snd v)))) (a + 2 + 2 + 2) (fst (snd (snd (snd v)))))
        (a + 2 + 2 + 2 + 2) (fst (snd (snd (snd (snd v)))))) (a + 2 + 2 + 2 + 2 + 2) (fst (snd (snd (snd (snd (snd v)))))))
        (a + 2 + 2 + 2 + 2 + 2 + 2) (snd (snd (snd (snd (snd (snd v)))))))
      (2 + (2 + (2 + (2 + (2 + (2 + 4))))))"
    by (intro vm_cell_pair be16 cell_be32.vm_cell_axioms) simp_all
  have "vm_cell (\<lambda>m a. ?f (ld_be16 m a, ld_be16 m (a + 2), ld_be16 m (a + 2 + 2), ld_be16 m (a + 2 + 2 + 2),
      ld_be16 m (a + 2 + 2 + 2 + 2), ld_be16 m (a + 2 + 2 + 2 + 2 + 2), ld_be32 m (a + 2 + 2 + 2 + 2 + 2 + 2)))
      (\<lambda>m a v. st_be32 (st_be16 (st_be16 (st_be16 (st_be16 (st_be16 (st_be16 m a (fst (?g v))) (a + 2) (fst (snd (?g v))))
        (a + 2 + 2) (fst (snd (snd (?g v))))) (a + 2 + 2 + 2) (fst (snd (snd (snd (?g v))))))
        (a + 2 + 2 + 2 + 2) (fst (snd (snd (snd (snd (?g v))))))) (a + 2 + 2 + 2 + 2 + 2) (fst (snd (snd (snd (snd (snd (?g v))))))))
        (a + 2 + 2 + 2 + 2 + 2 + 2) (snd (snd (snd (snd (snd (snd (?g v))))))))
      (2 + (2 + (2 + (2 + (2 + (2 + 4))))))"
    by (rule vm_cell_rename [OF pair]) auto
  then show "vm_cell ld_date st_date 16"
    by (simp add: ld_date_def [abs_def] st_date_def [abs_def] add.assoc)
qed

lemma tick_resolution_eq [simp]: "tick_resolution = 1000000"
  by (simp add: tick_resolution_def cellRtcGetTickResolution_def)

section \<open>Adding ticks\<close>

text \<open>The contract of the additive operations: \<open>amount n\<close> ticks are added modulo \<open>2 ^ 64\<close>.\<close>

locale tick_adder =
  fixes add :: "(addr \<Rightarrow> bool) \<Rightarrow> addr \<Rightarrow> addr \<Rightarrow> 'n \<Rightarrow> vmem \<Rightarrow> rtc_result"
    and amount :: "'n \<Rightarrow> u64"
  assumes add_eq: "add ok p0 p1 n m = tick_update ok p0 p1 (\<lambda>t. t + amount n) m"
begin

lemma add_bad: "\<not> ok p0 \<or> \<not> ok p1 \<Longrightarrow> add ok p0 p1 n m = (bad_pointer, m)"
  by (auto simp: add_eq tick_update_def)

lemma add_ok: "ok p0 \<Longrightarrow> ok p1 \<Longrightarrow> add ok p0 p1 n m = (CELL_OK, st_be64 m p0 (ld_be64 m p1 + amount n))"
  by (simp add: add_eq tick_update_def)

lemma add_add:
  assumes "amount a + amount b = amount c"
  shows "snd (add ok p p b (snd (add ok p p a m))) = snd (add ok p p c m)"
  using assms by (simp add: add_eq tick_update_def cell_be64.ld_st cell_be64.st_st add.assoc)

lemma add_undo:
  assumes "amount a + amount b = 0" "ok p" "ok q"
  shows "ld_be64 (snd (add ok q p b (snd (add ok p q a m)))) q = ld_be64 m q"
  using assms by (simp add: add_ok cell_be64.ld_st add.assoc)

end

interpretation add_ticks: tick_adder cellRtcTickAddTicks "\<lambda>n. n"
  by unfold_locales (simp add: cellRtcTickAddTicks_def)

interpretation add_microseconds: tick_adder cellRtcTickAddMicroseconds "\<lambda>n. n"
  by unfold_locales (simp add: cellRtcTickAddMicroseconds_def)

interpretation add_seconds: tick_adder cellRtcTickAddSeconds "\<lambda>n. n * 1000000"
  by unfold_locales (simp add: cellRtcTickAddSeconds_def)

interpretation add_minutes: tick_adder cellRtcTickAddMinutes "\<lambda>n. n * 60000000"
  by unfold_locales (simp add: cellRtcTickAddMinutes_def mult.assoc)

interpretation add_hours: tick_adder cellRtcTickAddHours "\<lambda>n. scast n * 3600000000"
  by unfold_locales (simp add: cellRtcTickAddHours_def mult.assoc)

interpretation add_days: tick_adder cellRtcTickAddDays "\<lambda>n. scast n * 86400000000"
  by unfold_locales (simp add: cellRtcTickAddDays_def mult.assoc)

interpretation add_weeks: tick_adder cellRtcTickAddWeeks "\<lambda>n. scast n * 604800000000"
  by unfold_locales (simp add: cellRtcTickAddWeeks_def mult.assoc)

text \<open>A signed amount of whole days moves the day number and keeps the time of day.\<close>

definition same_time :: "CellRtcDateTime \<Rightarrow> CellRtcDateTime \<Rightarrow> bool" where
  "same_time a b \<longleftrightarrow> hour a = hour b \<and> minute a = minute b \<and> second a = second b \<and> microsecond a = microsecond b"

definition date_day :: "CellRtcDateTime \<Rightarrow> nat" where
  "date_day d = day_number (unat (year d)) (unat (month d)) (unat (day d))"

lemma uint_add_scast:
  fixes t :: u64 and n :: u32
  assumes "0 \<le> uint t + sint n * k" "uint t + sint n * k < 2 ^ 64"
  shows "uint (t + scast n * word_of_int k) = uint t + sint n * k"
proof -
  have "t + scast n * word_of_int k = word_of_int (uint t + sint n * k)"
    by (simp only: scast_eq of_int_add of_int_mult word_of_int_uint)
  then show ?thesis using assms by (simp only: uint_word_of_int_eq) (simp add: take_bit_int_eq_self)
qed

lemma day_shift:
  fixes t :: u64 and n :: u32
  assumes "0 \<le> int (unat t div 86400000000) + sint n" "int (unat t div 86400000000) + sint n < int (days_before 65535)"
  defines "u \<equiv> t + scast n * 86400000000"
  shows "int (unat u div 86400000000) = int (unat t div 86400000000) + sint n
    \<and> unat u mod 86400000000 = unat t mod 86400000000"
proof -
  define N R where "N = unat t div 86400000000" and "R = unat t mod 86400000000"
  have t': "unat t = N * 86400000000 + R" by (simp add: N_def R_def)
  have t: "uint t = int N * 86400000000 + int R" "R < 86400000000"
    by (metis t' of_nat_add of_nat_mult of_nat_numeral uint_nat) (simp add: R_def)
  define M where "M = nat (int N + sint n)"
  have M: "int M = int N + sint n" using assms by (simp add: M_def N_def)
  have "uint t + sint n * 86400000000 = int (M * 86400000000 + R)"
    using t M by (simp add: algebra_simps)
  moreover have "M * 86400000000 + R < 2 ^ 64"
    using M t(2) assms(2) by (simp add: N_def days_before_65535)
  ultimately have "uint u = int (M * 86400000000 + R)"
    using uint_add_scast [of t n 86400000000] by (simp add: u_def flip: of_nat_less_iff)
  then have "unat u = M * 86400000000 + R" by (simp add: unat_eq_nat_uint)
  then show ?thesis using t(2) M by (simp add: N_def R_def)
qed

lemma div_mod_of_mod:
  fixes t u n q D :: nat
  assumes "t mod D = u mod D" "n * q dvd D" "0 < n"
  shows "t div n mod q = u div n mod q"
proof -
  have "t mod (n * q) = u mod (n * q)"
    using assms(1) by (simp only: mod_mod_cancel [OF assms(2), of t, symmetric] mod_mod_cancel [OF assms(2), of u, symmetric])
  moreover have "v mod (n * q) div n = v div n mod q" for v
    unfolding mod_mult2_eq using assms(3) by simp
  ultimately show ?thesis by metis
qed

lemma tick_time_fields:
  "hour (tick_to_date_time t) = of_nat (unat t div 3600000000 mod 24)"
  "minute (tick_to_date_time t) = of_nat (unat t div 60000000 mod 60)"
  "second (tick_to_date_time t) = of_nat (unat t div 1000000 mod 60)"
  "microsecond (tick_to_date_time t) = of_nat (unat t mod 1000000)"
  unfolding tick_to_date_time_def Let_def by (simp_all only: CellRtcDateTime.simps) simp_all

lemma same_timeI:
  assumes "unat t mod 86400000000 = unat u mod 86400000000"
  shows "same_time (tick_to_date_time t) (tick_to_date_time u)"
proof -
  have "unat t div 3600000000 mod 24 = unat u div 3600000000 mod 24"
    by (rule div_mod_of_mod [OF assms]) (rule dvdI [of _ _ 1], simp_all)
  moreover have "unat t div 60000000 mod 60 = unat u div 60000000 mod 60"
    by (rule div_mod_of_mod [OF assms]) (rule dvdI [of _ _ 24], simp_all)
  moreover have "unat t div 1000000 mod 60 = unat u div 1000000 mod 60"
    by (rule div_mod_of_mod [OF assms]) (rule dvdI [of _ _ 1440], simp_all)
  moreover have "unat t div 1 mod 1000000 = unat u div 1 mod 1000000"
    by (rule div_mod_of_mod [OF assms]) (rule dvdI [of _ _ 86400], simp_all)
  ultimately show ?thesis
    by (simp only: same_time_def tick_time_fields simp_thms div_by_1)
qed

text \<open>
  \<^verbatim>\<open>cellRtcTickAddDays\<close> moves a date by the signed number of days and keeps its time of
  day, as long as both dates lie in years the calendar can name.
\<close>

theorem add_days_moves_date:
  assumes "ok p0" "ok p1" and t: "t = ld_be64 m p1" "unat t div 86400000000 < days_before 65535"
    and "0 \<le> int (unat t div 86400000000) + sint n" "int (unat t div 86400000000) + sint n < int (days_before 65535)"
    and u: "u = ld_be64 (snd (cellRtcTickAddDays ok p0 p1 n m)) p0"
  shows "int (date_day (tick_to_date_time u)) = int (date_day (tick_to_date_time t)) + sint n
    \<and> same_time (tick_to_date_time u) (tick_to_date_time t)"
proof -
  have u': "u = t + scast n * 86400000000"
    using assms by (simp add: add_days.add_ok cell_be64.ld_st)
  note shift = day_shift [OF assms(5,6), folded u']
  then have "unat u div 86400000000 < days_before 65535" using assms(6) by linarith
  then show ?thesis
    using shift tick_to_date_time_fields [of u] tick_to_date_time_fields [OF t(2)]
    by (auto simp: date_day_def intro: same_timeI)
qed

theorem add_days_moves_date_witness:
  "let m = st_be64 (\<lambda>_. 0) 0x100 RTC_MAGIC_OFFSET;
       t = ld_be64 m 0x100;
       u = ld_be64 (snd (cellRtcTickAddDays (\<lambda>_. True) 0x200 0x100 1 m)) 0x200
   in t = RTC_MAGIC_OFFSET \<and> int (date_day (tick_to_date_time u)) = int (date_day (tick_to_date_time t)) + sint (1 :: u32)
    \<and> same_time (tick_to_date_time u) (tick_to_date_time t)"
proof -
  let ?m = "st_be64 (\<lambda>_. 0) 0x100 RTC_MAGIC_OFFSET"
  have t: "ld_be64 ?m 0x100 = RTC_MAGIC_OFFSET" by (rule cell_be64.ld_st)
  have "unat RTC_MAGIC_OFFSET div 86400000000 = 719162" by (simp add: RTC_MAGIC_OFFSET_def)
  then show ?thesis
    unfolding Let_def
    by (intro conjI [OF t] add_days_moves_date [OF TrueI TrueI refl _ _ _ refl]) (simp_all add: t days_before_65535)
qed

section \<open>Adding months and years\<close>

lemma uint_word_of_int_u16: "0 \<le> k \<Longrightarrow> k < 65536 \<Longrightarrow> uint (word_of_int k :: u16) = k"
  by (simp add: uint_word_of_int_eq take_bit_int_eq_self)

text \<open>The month count, zero in January of the year 0, that a date plus \<open>n\<close> months has.\<close>

definition months_after :: "CellRtcDateTime \<Rightarrow> int \<Rightarrow> int" where
  "months_after d k = uint (year d) * 12 + uint (month d) - 1 + k"

lemma total_months_eq:
  assumes "- 2147483648 \<le> months_after d (sint n)" "months_after d (sint n) < 2147483648"
  shows "sint (ucast (year d) * 12 + ucast (month d) + n - 1 :: u32) = months_after d (sint n)"
proof -
  have "ucast (year d) * 12 + ucast (month d) + n - 1 = (word_of_int (months_after d (sint n)) :: u32)"
    by (simp add: months_after_def algebra_simps)
  then show ?thesis using assms by (simp only: sint_word_of_int_u32)
qed

text \<open>The year has 16 bits, so that the months count modulo \<open>12 * 2 ^ 16\<close>.\<close>

lemma add_months_eq:
  assumes "0 \<le> M" "M < 2147483648" and M: "M = months_after d (sint n)" and W: "W = M mod 786432"
  shows "add_months d n = (let y = word_of_int (W div 12); mo = word_of_int (W mod 12 + 1) in
    d\<lparr>day := clamp_day y mo (day d), month := mo, year := y\<rparr>)"
proof -
  have tm: "sint (ucast (year d) * 12 + ucast (month d) + n - 1 :: u32) = M"
    using assms by (simp add: total_months_eq)
  define k where "k = M div 786432"
  have Mk: "M = W + 65536 * k * 12" by (simp add: W k_def)
  have W': "0 \<le> W" "W < 786432" by (simp_all add: W)
  have cut: "(word_of_int (x + 65536 * j) :: u16) = word_of_int x" for x j
    by (simp only: word_of_int_eq_iff take_bit_eq_mod) simp
  have "M div 12 = W div 12 + 65536 * k" unfolding Mk by simp
  then have y: "(word_of_int (M div 12) :: u16) = word_of_int (W div 12)" by (simp only: cut)
  have "uint (word_of_int (W div 12) :: u16) = W div 12"
    using W' by (intro uint_word_of_int_u16) auto
  moreover have "M - W div 12 * 12 + 1 = W mod 12 + 1 + 65536 * (12 * k)" unfolding Mk by (simp add: minus_div_mult_eq_mod [symmetric])
  then have "(word_of_int (M - W div 12 * 12 + 1) :: u16) = word_of_int (W mod 12 + 1)" by (simp only: cut)
  ultimately show ?thesis
    unfolding add_months_def Let_def tm tdiv_nonneg [OF assms(1), of 12, simplified] y by simp
qed

lemma year_add_months:
  assumes "- 2147483648 \<le> months_after d (sint n)" "months_after d (sint n) < 2147483648"
  shows "year (add_months d n) = word_of_int (tdiv (months_after d (sint n)) 12)"
  using total_months_eq [OF assms] by (simp add: add_months_def Let_def)

text \<open>The date in month \<open>M\<close> with the day cut to the length of that month.\<close>

definition shifted_date :: "CellRtcDateTime \<Rightarrow> int \<Rightarrow> CellRtcDateTime" where
  "shifted_date d M = d\<lparr>year := word_of_int (M div 12), month := word_of_int (M mod 12 + 1),
     day := of_nat (min (unat (day d)) (month_lengths (is_leap_year (nat (M div 12))) ! nat (M mod 12)))\<rparr>"

lemma shifted_month:
  assumes "12 \<le> M" "M < 786432"
  shows "unat (word_of_int (M div 12) :: u16) = nat (M div 12)" "0 < nat (M div 12)"
    "unat (word_of_int (M mod 12 + 1) :: u16) = Suc (nat (M mod 12))" "nat (M mod 12) < 12"
proof -
  show "unat (word_of_int (M div 12) :: u16) = nat (M div 12)"
    using uint_word_of_int_u16 [of "M div 12"] assms by (simp add: unat_eq_nat_uint)
  show "unat (word_of_int (M mod 12 + 1) :: u16) = Suc (nat (M mod 12))"
    using uint_word_of_int_u16 [of "M mod 12 + 1"] by (simp add: unat_eq_nat_uint nat_add_distrib)
  show "0 < nat (M div 12)" "nat (M mod 12) < 12" using assms by (auto simp: pos_imp_zdiv_pos_iff)
qed

lemma clamp_day_shifted:
  assumes "12 \<le> M" "M < 786432"
  shows "clamp_day (word_of_int (M div 12)) (word_of_int (M mod 12 + 1)) d =
    of_nat (min (unat d) (month_lengths (is_leap_year (nat (M div 12))) ! nat (M mod 12)))"
proof -
  let ?y = "word_of_int (M div 12) :: u16" and ?mo = "word_of_int (M mod 12 + 1) :: u16"
  let ?L = "month_lengths (is_leap_year (nat (M div 12))) ! nat (M mod 12)"
  note s = shifted_month [OF assms]
  have "?y \<noteq> 0" using s(1,2) by (metis less_irrefl unat_0)
  moreover have "\<not> ?mo < 1" "\<not> ?mo > 12" using s(3,4) by (simp_all add: word_less_nat_alt)
  ultimately have "month_days ?y ?mo = int ?L"
    using s by (simp add: month_days_def)
  moreover have "int ?L < uint d \<longleftrightarrow> ?L < unat d" by (metis of_nat_less_iff uint_nat)
  ultimately show ?thesis by (simp add: clamp_day_def min_def)
qed

lemma shifted_date_valid:
  assumes "12 \<le> M" "M < 120000" and v: "cellRtcCheckValid_value d = CELL_OK"
  shows "cellRtcCheckValid_value (shifted_date d M) = CELL_OK"
proof -
  define L where "L = month_lengths (is_leap_year (nat (M div 12))) ! nat (M mod 12)"
  define y mo dd :: u16 where "y = word_of_int (M div 12)" and "mo = word_of_int (M mod 12 + 1)"
    and "dd = of_nat (min (unat (day d)) L)"
  have "M < 786432" using assms by simp
  note s = shifted_month [OF assms(1) this, folded y_def mo_def]
  have L: "28 \<le> L" "L \<le> 31" using month_table(3,4) s(4) by (auto simp: L_def)
  then have "min (unat (day d)) L < 65536" by linarith
  then have dd: "unat dd = min (unat (day d)) L" by (simp add: dd_def unat_of_nat)
  have "0 < unat (day d)" using v by (simp add: check_valid_iff valid_date_def)
  then have "valid_date (unat y) (unat mo) (unat dd)"
    using s L dd by (simp add: valid_date_def flip: L_def)
  moreover have "unat y < 10000" using s(1) assms(2) by simp
  moreover have "shifted_date d M = d\<lparr>year := y, month := mo, day := dd\<rparr>"
    by (simp only: shifted_date_def y_def mo_def dd_def L_def)
  ultimately show ?thesis using v by (simp add: check_valid_iff)
qed

lemma add_months_shifted:
  assumes "0 \<le> M" "M < 2147483648" "M = months_after d (sint n)" "W = M mod 786432" "12 \<le> W"
  shows "add_months d n = shifted_date d W"
proof -
  have "W < 786432" using assms(4) by simp
  then show ?thesis using add_months_eq [OF assms(1-4)] clamp_day_shifted [OF assms(5), of "day d"] by (simp add: shifted_date_def Let_def)
qed

lemma month_overflow:
  assumes "- 666432 < M" "M < 2147483648" and M: "M = months_after d (sint n)" and W: "W = M mod 786432" "\<not> (12 \<le> W \<and> W < 120000)"
  shows "year (add_months d n) \<ge> 10000 \<or> year (add_months d n) = 0"
proof (cases "M < 0")
  case True
  have y: "year (add_months d n) = word_of_int (tdiv M 12)" using year_add_months [of d n] assms by simp
  define k where "k = - M div 12"
  have k: "0 \<le> k" "k < 55536" using True assms(1) by (auto simp: k_def)
  have "tdiv M 12 = - k" using True by (simp add: tdiv_def k_def)
  moreover have "uint (word_of_int (- k) :: u16) = (if k = 0 then 0 else 65536 - k)"
  proof -
    have "(word_of_int (- k) :: u16) = word_of_int (65536 - k)" by (simp add: word_of_int_eq_iff take_bit_eq_mod)
    then show ?thesis using k uint_word_of_int_u16 [of "65536 - k"] by (cases "k = 0") (simp_all only: if_False if_True, simp)
  qed
  ultimately show ?thesis using k y by (auto simp: word_le_def uint_0_iff)
next
  case False
  then have y: "year (add_months d n) = word_of_int (W div 12)" using add_months_eq [OF _ assms(2) M W(1)] by (simp add: Let_def)
  have W': "0 \<le> W" "W < 786432" by (simp_all add: W(1))
  then have "uint (word_of_int (W div 12) :: u16) = W div 12" by (intro uint_word_of_int_u16) auto
  moreover have "W div 12 = 0 \<or> 10000 \<le> W div 12" using W(2) W' by auto
  ultimately show ?thesis using y by (auto simp: word_le_def)
qed

text \<open>
  C36: \<^verbatim>\<open>cellRtcTickAddMonths\<close> lands \<open>W\<close> months after the start of the year 0, on the same day or the last day of the month, at
  the same time, where \<open>W\<close> is the wanted month \<open>M\<close> modulo \<open>12 * 2 ^ 16\<close>, because the year is cut to 16 bits; when that month is not in the
  years 1 to 9999 it answers \<^verbatim>\<open>CELL_OK\<close> and writes nothing. This is for a tick in the years 1 to 9999 and for every \<open>M\<close> below \<open>2 ^ 31\<close>
  and after the start of the year \<open>-55536\<close>; beyond these the 32-bit sum overflows or the month is out of range.
\<close>

theorem add_months_calendar:
  assumes "ok p0" "ok p1" and t: "unat (ld_be64 m p1) div 86400000000 < days_before 9999"
    and d: "d = tick_to_date_time (ld_be64 m p1)" and M: "M = months_after d (sint n)"
    and "- 666432 < M" "M < 2147483648" and W: "W = M mod 786432" and r: "r = cellRtcTickAddMonths ok p0 p1 n m"
  shows "fst r = CELL_OK \<and>
    (if 12 \<le> W \<and> W < 120000 then tick_to_date_time (ld_be64 (snd r) p0) = shifted_date d W else snd r = m)"
proof (cases "12 \<le> W \<and> W < 120000")
  case True
  moreover have "W = M + 786432" if "M < 0" using W assms(6) that mod_pos_pos_trivial [of "M + 786432" 786432] by simp
  ultimately have "0 \<le> M" using assms(6) by (cases "M < 0") auto
  then have e: "add_months d n = shifted_date d W" using add_months_shifted [OF _ assms(7) M W] True by simp
  have v: "cellRtcCheckValid_value (shifted_date d W) = CELL_OK"
    using True shifted_date_valid tick_check_valid [OF t] d by simp
  then have "\<not> (year (shifted_date d W) \<ge> 10000 \<or> year (shifted_date d W) = 0)"
    by (auto simp: check_valid_iff valid_date_def word_le_nat_alt)
  then show ?thesis
    using assms(1,2) d r True e valid_date_roundtrip [OF v]
    by (simp add: cellRtcTickAddMonths_def GetTick_from_var_def cell_be64.ld_st)
next
  case False
  then show ?thesis
    using assms(1,2) d r month_overflow [OF assms(6,7) M W False] by (auto simp: cellRtcTickAddMonths_def GetTick_from_var_def)
qed

definition leap_day_mem :: vmem where
  "leap_day_mem = st_be64 (\<lambda>_. 0) 0x100 (date_time_to_tick sample_date)"

lemma leap_day_mem: "tick_to_date_time (ld_be64 leap_day_mem 0x100) = sample_date"
  by (simp add: leap_day_mem_def cell_be64.ld_st valid_date_roundtrip sample_date_valid)

lemma leap_day_tick: "unat (ld_be64 leap_day_mem 0x100) div 86400000000 < days_before 9999"
  using valid_tick [of sample_date] sample_date_valid day_number_less [of 2000 2 29 9999]
  by (simp add: leap_day_mem_def cell_be64.ld_st check_valid_iff tick_value_split(1)) (simp add: sample_date_def)

theorem add_months_calendar_witness:
  "let r = cellRtcTickAddMonths (\<lambda>_. True) 0x200 0x100 12 leap_day_mem in
   fst r = CELL_OK \<and> tick_to_date_time (ld_be64 (snd r) 0x200) = sample_date\<lparr>year := 2001, day := 28\<rparr>"
proof -
  have M: "months_after sample_date (sint (12 :: u32)) = 24013"
    by (simp add: months_after_def sample_date_def)
  have "shifted_date sample_date 24013 = sample_date\<lparr>year := 2001, day := 28\<rparr>"
    by (simp add: shifted_date_def sample_date_def month_tables is_leap_year_def)
  then show ?thesis
    using add_months_calendar [of "\<lambda>_. True" "0x200" "0x100" leap_day_mem, OF TrueI TrueI leap_day_tick refl refl, of 12,
        unfolded leap_day_mem M, OF _ _ refl refl]
    by (simp add: Let_def)
qed

lemma add_years_add_months:
  assumes v: "cellRtcCheckValid_value d = CELL_OK" and y: "0 < uint (year d) + sint n" "uint (year d) + sint n < 65536"
  shows "add_years d n = add_months d (12 * n)"
proof -
  define Y where "Y = uint (year d) + sint n"
  define M where "M = 12 * Y + (uint (month d) - 1)"
  have "0 < unat (month d)" "unat (month d) \<le> 12" using v by (simp_all add: check_valid_iff valid_date_def)
  then have mo: "1 \<le> uint (month d)" "uint (month d) \<le> 12" using uint_nat [of "month d"] by linarith+
  have Y: "0 < Y" "Y < 65536" using y by (simp_all add: Y_def)
  have M: "M div 12 = Y" "M mod 12 = uint (month d) - 1"
    unfolding M_def using mo by simp_all
  have "uint (year d) < 65536" using uint_lt2p [of "year d"] by simp
  then have "sint (word_of_int (12 * sint n) :: u32) = 12 * sint n"
    using Y uint_ge_0 [of "year d"] unfolding Y_def by (intro sint_word_of_int_u32; linarith)
  moreover have "word_of_int (12 * sint n) = 12 * n" by simp
  ultimately have after: "M = months_after d (sint (12 * n))"
    by (simp add: months_after_def M_def Y_def algebra_simps)
  have "ucast (ucast (year d) + n :: u32) = (word_of_int Y :: u16)"
  proof -
    have x: "ucast (year d) + n = (word_of_int Y :: u32)" by (simp add: Y_def)
    have "uint (word_of_int Y :: u32) = Y" using Y by (simp add: uint_word_of_int_eq take_bit_int_eq_self)
    then show ?thesis using ucast_eq [of "word_of_int Y :: u32"] unfolding x by simp
  qed
  moreover have "12 \<le> M" "M < 786432" using Y mo by (simp_all add: M_def)
  ultimately show ?thesis
    using add_months_shifted [OF _ _ after refl] clamp_day_shifted [of M "day d"]
    by (simp add: add_years_def shifted_date_def M)
qed

text \<open>
  Adding \<open>n\<close> years is adding \<open>12 * n\<close> months, whenever the resulting year fits its field.
\<close>

theorem add_years_is_months:
  assumes t: "unat (ld_be64 m p1) div 86400000000 < days_before 9999"
    and y: "0 < uint (year (tick_to_date_time (ld_be64 m p1))) + sint n"
      "uint (year (tick_to_date_time (ld_be64 m p1))) + sint n < 65536"
  shows "cellRtcTickAddYears ok p0 p1 n m = cellRtcTickAddMonths ok p0 p1 (12 * n) m"
  using add_years_add_months [OF tick_check_valid [OF t] y]
  by (simp add: cellRtcTickAddYears_def cellRtcTickAddMonths_def)

theorem add_years_is_months_witness:
  "cellRtcTickAddYears (\<lambda>_. True) 0x200 0x100 1 leap_day_mem
    = cellRtcTickAddMonths (\<lambda>_. True) 0x200 0x100 (12 * 1) leap_day_mem"
  by (rule add_years_is_months) (simp_all add: leap_day_tick leap_day_mem, simp_all add: sample_date_def)

section \<open>Time zones\<close>

lemma scast_uminus:
  fixes x :: u32
  assumes "x \<noteq> 0x80000000"
  shows "(scast (- x) :: u64) = - scast x"
proof -
  have b: "- 2147483648 \<le> sint x" "sint x < 2147483648"
    using sint_ge [of x] sint_lt [of x] by simp_all
  have "sint x \<noteq> - 2147483648"
  proof
    assume "sint x = - 2147483648"
    then have "scast x = (word_of_int (- 2147483648) :: u32)" by (simp only: scast_eq)
    then show False using assms by simp
  qed
  then have "sint (word_of_int (- sint x) :: u32) = - sint x"
    using b by (intro sint_word_of_int_u32) linarith+
  then have "sint (- x) = - sint x" by simp
  then show ?thesis by (simp only: scast_eq of_int_minus)
qed

text \<open>
  Converting a tick to local time and the result back to UTC gives the tick again, for every
  zone and summer time but the one whose negation overflows.
\<close>

theorem local_utc_inverse:
  assumes "get_timezone h = (ret, tz, st)" "\<not> failed ret" "tz + st \<noteq> 0x80000000" "ok pUtc" "ok pLocal"
  shows "ld_be64 (snd (cellRtcConvertLocalTimeToUtc h ok pLocal pUtc
      (snd (cellRtcConvertUtcToLocalTime h ok pUtc pLocal m)))) pUtc = ld_be64 m pUtc"
proof -
  have "(scast (tz + st) :: u64) * 60000000 + scast (- (tz + st)) * 60000000 = 0"
    unfolding scast_uminus [OF assms(3)] by simp
  moreover have "- 1 < sint ret" using assms(2) by (simp add: failed_def)
  ultimately show ?thesis
    using add_minutes.add_undo [of "scast (tz + st)" "scast (- (tz + st))" ok pLocal pUtc m] assms
    by (simp add: cellRtcConvertLocalTimeToUtc_def cellRtcConvertUtcToLocalTime_def)
qed

definition sample_host :: rtc_host where
  "sample_host = \<lparr>get_current_time = (0, 100, 999999999), get_timezone = (0, 60, 60),
     set_current_time = (\<lambda>_ _. 0), set_timezone = (\<lambda>_ _. 0), secure_rtc = (\<lambda>_ _. (0, 0, 0))\<rparr>"

theorem local_utc_inverse_witness:
  "ld_be64 (snd (cellRtcConvertLocalTimeToUtc sample_host (\<lambda>_. True) 0x200 0x100
      (snd (cellRtcConvertUtcToLocalTime sample_host (\<lambda>_. True) 0x100 0x200 leap_day_mem)))) 0x100
    = ld_be64 leap_day_mem 0x100"
  by (rule local_utc_inverse [of _ 0 60 60]) (simp_all add: sample_host_def failed_def)

section \<open>DOS time\<close>

lemma bit_small:
  fixes w :: "'a::len word"
  assumes "unat w < 2 ^ n" "bit w i"
  shows "i < n"
proof (rule ccontr)
  assume "\<not> i < n"
  then have "(2 :: nat) ^ n \<le> 2 ^ i" by simp
  then have "unat w < 2 ^ i" using assms(1) by linarith
  then have "\<not> bit (unat w) i" by (simp add: bit_iff_odd)
  then show False using assms(2) by (simp add: bit_unsigned_iff)
qed

lemma mask_small: "unat x < 2 ^ n \<Longrightarrow> x AND mask n = x" for x :: "'a::len word"
  by (rule bit_word_eqI) (auto simp: bit_simps dest: bit_small)

definition dos_pack :: "u32 \<Rightarrow> u32 \<Rightarrow> u32 \<Rightarrow> u32 \<Rightarrow> u32 \<Rightarrow> u32 \<Rightarrow> u32" where
  "dos_pack y mo da h mi s = push_bit 16 (push_bit 9 (y AND mask 7) OR push_bit 5 (mo AND mask 4) OR (da AND mask 5))
     OR (push_bit 11 (h AND mask 5) OR push_bit 5 (mi AND mask 6) OR (s AND mask 5))"

lemma dos_masks: "0x7F = (mask 7 :: u32)" "0xF = (mask 4 :: u32)" "0x1F = (mask 5 :: u32)" "0x3F = (mask 6 :: u32)"
  "0xFFFF = (mask 16 :: u32)" "0x3E = (push_bit 1 (mask 5) :: u32)"
  by (simp_all add: mask_eq_exp_minus_1 push_bit_eq_mult)

lemma dos_unpack_high:
  "drop_bit 9 (drop_bit 16 (dos_pack y mo da h mi s)) = y AND mask 7"
  "drop_bit 5 (drop_bit 16 (dos_pack y mo da h mi s)) AND mask 4 = mo AND mask 4"
  "drop_bit 16 (dos_pack y mo da h mi s) AND mask 5 = da AND mask 5"
  by (rule bit_word_eqI; auto simp: dos_pack_def bit_simps)+

definition dos_low :: "u32 \<Rightarrow> u32 \<Rightarrow> u32 \<Rightarrow> u32" where
  "dos_low h mi s = push_bit 11 (h AND mask 5) OR push_bit 5 (mi AND mask 6) OR (s AND mask 5)"

lemma dos_pack_low: "dos_pack y mo da h mi s AND mask 16 = dos_low h mi s"
  by (rule bit_word_eqI) (auto simp: dos_pack_def dos_low_def bit_simps)

lemma dos_unpack_low:
  "drop_bit 11 (dos_low h mi s) = h AND mask 5"
  "drop_bit 5 (dos_low h mi s) AND mask 6 = mi AND mask 6"
  by (rule bit_word_eqI; auto simp: dos_low_def bit_simps)+

lemma dos_unpack_second: "push_bit 1 (dos_low h mi s) AND push_bit 1 (mask 5) = push_bit 1 (s AND mask 5)"
  by (rule bit_word_eqI)
    (auto simp: dos_low_def bit_push_bit_iff bit_and_iff bit_or_iff bit_mask_iff simp del: push_bit_Suc)

lemma dos_field: "unat w < 2 ^ n \<Longrightarrow> ucast (ucast w AND mask n :: u32) = w" for w :: u16
  by (rule bit_word_eqI) (auto simp: bit_simps intro: bit_small)

lemma dos_second: "unat w < 64 \<Longrightarrow> ucast (push_bit 1 (drop_bit 1 (ucast w) AND mask 5) :: u32) = push_bit 1 (drop_bit 1 w)"
  for w :: u16
  by (rule bit_word_eqI) (auto simp: bit_simps simp del: push_bit_Suc drop_bit_Suc dest: bit_small [of w 6, simplified])

lemma dos_year:
  fixes y :: u16
  assumes "1980 \<le> y" "y < 2108"
  shows "ucast (((ucast y - 1980) AND mask 7) + 1980 :: u32) = y"
proof -
  let ?x = "ucast y - 1980 :: u32"
  have "take_bit 32 (unat y) = unat y"
    by (rule take_bit_nat_eq_self) (rule less_trans [OF unat_u16], simp)
  then have y: "unat (ucast y :: u32) = unat y" by (simp add: unsigned_ucast_eq)
  have "1980 \<le> unat y" "unat y < 2108" using assms by (simp_all add: word_le_nat_alt word_less_nat_alt)
  then have "unat ?x < 2 ^ 7" by (subst unat_sub) (simp_all add: y word_le_nat_alt)
  then have "?x AND mask 7 = ?x" by (rule mask_small)
  then have "(?x AND mask 7) + 1980 = ucast y" by simp
  then show ?thesis by (simp only:) (rule bit_word_eqI, simp add: bit_simps)
qed

lemma dos_time_pack:
  "dos_time d = dos_pack (ucast (year d) - 1980) (ucast (month d)) (ucast (day d)) (ucast (hour d))
     (ucast (minute d)) (drop_bit 1 (ucast (second d)))"
  unfolding dos_time_def dos_pack_def Let_def dos_masks ..

lemma dos_time_inverse:
  assumes v: "cellRtcCheckValid_value d = CELL_OK" and y: "1980 \<le> year d" "year d < 2108"
  shows "date_of_dos_time (dos_time d) = d\<lparr>second := push_bit 1 (drop_bit 1 (second d)), microsecond := 0\<rparr>"
proof -
  have "unat (month d) - 1 < 12" using v by (auto simp: check_valid_iff valid_date_def)
  then have "unat (day d) \<le> 31"
    using v month_table(4) [of "unat (month d) - 1" "is_leap_year (unat (year d))"]
    by (auto simp: check_valid_iff valid_date_def)
  then have "unat (month d) < 2 ^ 4" "unat (day d) < 2 ^ 5" "unat (hour d) < 2 ^ 5" "unat (minute d) < 2 ^ 6"
    "unat (second d) < 64"
    using v by (auto simp: check_valid_iff valid_date_def)
  then show ?thesis
    unfolding dos_time_pack date_of_dos_time_def Let_def dos_masks dos_unpack_high dos_pack_low dos_unpack_low
      dos_unpack_second dos_year [OF y]
    by (simp only: dos_field dos_second CellRtcDateTime.update_convs) simp
qed

text \<open>
  A valid date of the years 1980 to 2107 written as a DOS time and read back is the same date with
  an even second and no microseconds.
\<close>

theorem dos_time_roundtrip:
  assumes "ok pDate" "ok pDos" "pDos \<noteq> 0" "ok q" and d: "d = ld_date m pDate"
    and "cellRtcCheckValid_value d = CELL_OK" "1980 \<le> year d" "year d < 2108"
    and r: "r = cellRtcGetDosTime ok pDate pDos m"
  shows "fst r = CELL_OK \<and> ld_date (snd (cellRtcSetDosTime ok q (ld_be32 (snd r) pDos) (snd r))) q
    = d\<lparr>second := push_bit 1 (drop_bit 1 (second d)), microsecond := 0\<rparr>"
  using assms dos_time_inverse [of d]
  by (auto simp: cellRtcGetDosTime_def cellRtcSetDosTime_def cell_be32.ld_st cell_date.ld_st not_less[symmetric])

theorem dos_time_roundtrip_witness:
  "let m = st_date (\<lambda>_. 0) 0x100 sample_date; r = cellRtcGetDosTime (\<lambda>_. True) 0x100 0x200 m in
   fst r = CELL_OK \<and> ld_date (snd (cellRtcSetDosTime (\<lambda>_. True) 0x300 (ld_be32 (snd r) 0x200) (snd r))) 0x300
     = sample_date\<lparr>second := push_bit 1 (drop_bit 1 (second sample_date)), microsecond := 0\<rparr>"
  unfolding Let_def
  by (rule dos_time_roundtrip)
    (simp_all add: cell_date.ld_st sample_date_valid, simp_all add: sample_date_def)

section \<open>Epochs\<close>

text \<open>
  A clock with its own epoch: a value is set by converting its tick, and read back from the tick of
  the date; \<open>rnd\<close> is what is left of the value at the resolution of ticks.
\<close>

locale rtc_epoch =
  fixes get_t :: "(addr \<Rightarrow> bool) \<Rightarrow> addr \<Rightarrow> addr \<Rightarrow> vmem \<Rightarrow> rtc_result"
    and set_t :: "(addr \<Rightarrow> bool) \<Rightarrow> addr \<Rightarrow> u64 \<Rightarrow> vmem \<Rightarrow> rtc_result"
    and enc :: "u64 \<Rightarrow> u64" and rnd :: "u64 \<Rightarrow> u64" and valid :: "u64 \<Rightarrow> bool"
  assumes set_eq: "set_t ok p t m = set_date ok p (enc t) m"
    and enc_early: "valid t \<Longrightarrow> unat (enc t) < 315537897600000000"
    and get_enc: "valid t \<Longrightarrow> ok p \<Longrightarrow> ok q \<Longrightarrow> q \<noteq> 0 \<Longrightarrow> GetTick_to_var m p = enc t \<Longrightarrow>
      get_t ok p q m = (CELL_OK, st_be64 m q (rnd t))"
begin

lemma set_tick:
  assumes "valid t" "ok p"
  shows "GetTick_to_var (snd (set_t ok p t m)) p = enc t"
proof -
  have early: "unat (enc t) div 86400000000 < days_before 9999"
    using enc_early [OF assms(1)] by (simp add: days_before_9999 div_less_iff_less_mult)
  then have "unat (enc t) div 86400000000 < days_before 65535"
    by (simp add: days_before_9999 days_before_65535)
  with early show ?thesis
    using tick_check_valid [OF early] tick_roundtrip [of "enc t"] assms(2)
    by (auto simp: set_eq set_date_def GetTick_to_var_def cell_date.ld_st check_valid_iff valid_date_def word_le_nat_alt)
qed

lemma set_get:
  assumes "valid t" "ok p" "ok q" "q \<noteq> 0"
  shows "get_t ok p q (snd (set_t ok p t m)) = (CELL_OK, st_be64 (snd (set_t ok p t m)) q (rnd t))"
  using assms by (intro get_enc set_tick)

end

lemma unat_scaled:
  fixes t c k :: u64
  assumes "unat t * unat k + unat c < 2 ^ 64"
  shows "unat (t * k + c) = unat t * unat k + unat c"
  using assms by (simp add: unat_word_ariths)

lemma epoch_seconds:
  fixes t c :: u64
  assumes "unat t * 1000000 + unat c < 2 ^ 64"
  shows "c \<le> t * 1000000 + c" "(t * 1000000 + c - c) div 1000000 = t"
proof -
  have u: "unat (t * 1000000 + c) = unat t * 1000000 + unat c"
    using unat_scaled [of t 1000000 c] assms by simp
  then show "c \<le> t * 1000000 + c" by (simp add: word_le_nat_alt)
  have "unat (t * 1000000) = unat t * 1000000"
    using unat_scaled [of t 1000000 0] assms by simp
  then show "(t * 1000000 + c - c) div 1000000 = t"
    by (simp add: word_unat_eq_iff unat_div)
qed

interpretation time_t: rtc_epoch cellRtcGetTime_t cellRtcSetTime_t
  "\<lambda>t. t * 1000000 + RTC_MAGIC_OFFSET" "\<lambda>t. t" "\<lambda>t. unat t < 253402300800"
proof
  fix t :: u64 and q p m and ok :: "addr \<Rightarrow> bool"
  assume t: "unat t < 253402300800"
  then have b: "unat t * 1000000 + unat RTC_MAGIC_OFFSET < 2 ^ 64" by (simp add: RTC_MAGIC_OFFSET_def)
  show "unat (t * 1000000 + RTC_MAGIC_OFFSET) < 315537897600000000"
    using unat_scaled [of t 1000000 RTC_MAGIC_OFFSET] t b by (simp add: RTC_MAGIC_OFFSET_def)
  assume "ok p" "ok q" "q \<noteq> 0" "GetTick_to_var m p = t * 1000000 + RTC_MAGIC_OFFSET"
  then show "cellRtcGetTime_t ok p q m = (CELL_OK, st_be64 m q t)"
    using epoch_seconds [OF b] by (simp add: cellRtcGetTime_t_def st_nonnull_def not_less[symmetric])
qed (simp add: cellRtcSetTime_t_def)

interpretation system_time: rtc_epoch cellRtcGetSystemTime cellRtcSetSystemTime
  "\<lambda>t. t * 1000000 + RTC_SYSTEM_TIME_MIN" "\<lambda>t. t" "\<lambda>t. unat t < 3155760000"
proof
  fix t :: u64 and q p m and ok :: "addr \<Rightarrow> bool"
  assume t: "unat t < 3155760000"
  then have b: "unat t * 1000000 + unat RTC_SYSTEM_TIME_MIN < 2 ^ 64" by (simp add: RTC_SYSTEM_TIME_MIN_def)
  have u: "unat (t * 1000000 + RTC_SYSTEM_TIME_MIN) = unat t * 1000000 + 63082281600000000"
    using unat_scaled [of t 1000000 RTC_SYSTEM_TIME_MIN] b by (simp add: RTC_SYSTEM_TIME_MIN_def)
  then show "unat (t * 1000000 + RTC_SYSTEM_TIME_MIN) < 315537897600000000" using t by simp
  have "\<not> RTC_SYSTEM_TIME_MAX + 1000000 \<le> t * 1000000 + RTC_SYSTEM_TIME_MIN"
    using u t by (simp add: word_le_nat_alt RTC_SYSTEM_TIME_MAX_def)
  moreover assume "ok p" "ok q" "q \<noteq> 0" "GetTick_to_var m p = t * 1000000 + RTC_SYSTEM_TIME_MIN"
  ultimately show "cellRtcGetSystemTime ok p q m = (CELL_OK, st_be64 m q t)"
    using epoch_seconds [OF b] by (simp add: cellRtcGetSystemTime_def st_nonnull_def not_less[symmetric])
qed (simp add: cellRtcSetSystemTime_def)

interpretation file_time: rtc_epoch cellRtcGetWin32FileTime cellRtcSetWin32FileTime
  "\<lambda>t. t div 10 + RTC_FILETIME_OFFSET" "\<lambda>t. t div 10 * 10" "\<lambda>t. unat t < 2650467744000000000"
proof
  fix t :: u64 and q p m and ok :: "addr \<Rightarrow> bool"
  assume t: "unat t < 2650467744000000000"
  then have u: "unat (t div 10 + RTC_FILETIME_OFFSET) = unat t div 10 + 50491123200000000"
    by (simp add: unat_word_ariths unat_div RTC_FILETIME_OFFSET_def)
  then show "unat (t div 10 + RTC_FILETIME_OFFSET) < 315537897600000000" using t by simp
  have "RTC_FILETIME_OFFSET \<le> t div 10 + RTC_FILETIME_OFFSET"
    using u by (simp add: word_le_nat_alt) (simp add: RTC_FILETIME_OFFSET_def)
  moreover assume "ok p" "ok q" "q \<noteq> 0" "GetTick_to_var m p = t div 10 + RTC_FILETIME_OFFSET"
  ultimately show "cellRtcGetWin32FileTime ok p q m = (CELL_OK, st_be64 m q (t div 10 * 10))"
    by (simp add: cellRtcGetWin32FileTime_def st_nonnull_def not_less[symmetric])
qed (simp add: cellRtcSetWin32FileTime_def)

text \<open>
  A Unix time set with \<^verbatim>\<open>cellRtcSetTime_t\<close> before the year 10000 is what \<^verbatim>\<open>cellRtcGetTime_t\<close>
  reads from the date.
\<close>

theorem time_t_roundtrip:
  assumes "unat t < 253402300800" "ok p" "ok q" "q \<noteq> 0" and m': "m' = snd (cellRtcSetTime_t ok p t m)"
  shows "cellRtcGetTime_t ok p q m' = (CELL_OK, st_be64 m' q t)"
  unfolding m' using assms by (intro time_t.set_get)

theorem time_t_roundtrip_witness:
  "let m' = snd (cellRtcSetTime_t (\<lambda>_. True) 0x100 1700000000 (\<lambda>_. 0)) in
   cellRtcGetTime_t (\<lambda>_. True) 0x100 0x200 m' = (CELL_OK, st_be64 m' 0x200 1700000000)"
  unfolding Let_def by (rule time_t_roundtrip [OF _ TrueI TrueI _ refl]) simp_all

text \<open>
  A system time (seconds since 2000) below 3155760000 survives \<^verbatim>\<open>cellRtcSetSystemTime\<close> and
  \<^verbatim>\<open>cellRtcGetSystemTime\<close>.
\<close>

theorem system_time_roundtrip:
  assumes "unat t < 3155760000" "ok p" "ok q" "q \<noteq> 0" and m': "m' = snd (cellRtcSetSystemTime ok p t m)"
  shows "cellRtcGetSystemTime ok p q m' = (CELL_OK, st_be64 m' q t)"
  unfolding m' using assms by (intro system_time.set_get)

theorem system_time_roundtrip_witness:
  "let m' = snd (cellRtcSetSystemTime (\<lambda>_. True) 0x100 3155759999 (\<lambda>_. 0)) in
   cellRtcGetSystemTime (\<lambda>_. True) 0x100 0x200 m' = (CELL_OK, st_be64 m' 0x200 3155759999)"
  unfolding Let_def by (rule system_time_roundtrip [OF _ TrueI TrueI _ refl]) simp_all

lemma day_number_1970: "day_number 1970 1 1 = 719162"
  using days_before_closed [of 1969] by (simp add: day_number_def month_tables)

lemma valid_time_t:
  assumes v: "cellRtcCheckValid_value d = CELL_OK" and N: "N = day_number (unat (year d)) (unat (month d)) (unat (day d))"
  shows "date_time_to_tick d < RTC_MAGIC_OFFSET \<longleftrightarrow> N < 719162"
    "719162 \<le> N \<Longrightarrow> (date_time_to_tick d - RTC_MAGIC_OFFSET) div 1000000
      = of_nat (86400 * (N - 719162) + 3600 * unat (hour d) + 60 * unat (minute d) + unat (second d))"
proof -
  define r where "r = 3600 * unat (hour d) + 60 * unat (minute d) + unat (second d)"
  have b: "unat (hour d) < 24" "unat (minute d) < 60" "unat (second d) < 60" "unat (microsecond d) < 1000000"
    and vd: "valid_date (unat (year d)) (unat (month d)) (unat (day d))" using v by (simp_all add: check_valid_iff)
  have r: "r < 86400" using b by (simp add: r_def)
  have t: "unat (date_time_to_tick d) = 86400000000 * N + 1000000 * r + unat (microsecond d)"
    using valid_tick [OF vd] by (simp add: tick_value_linear r_def flip: N)
  show less: "date_time_to_tick d < RTC_MAGIC_OFFSET \<longleftrightarrow> N < 719162"
  proof -
    have "unat RTC_MAGIC_OFFSET = 62135596800000000" by (simp add: RTC_MAGIC_OFFSET_def)
    then show ?thesis unfolding word_less_nat_alt t using r b(4) by (intro iffI; linarith)
  qed
  show "(date_time_to_tick d - RTC_MAGIC_OFFSET) div 1000000
      = of_nat (86400 * (N - 719162) + 3600 * unat (hour d) + 60 * unat (minute d) + unat (second d))" if n: "719162 \<le> N"
  proof -
    have "RTC_MAGIC_OFFSET \<le> date_time_to_tick d" using less n by (simp add: not_less [symmetric])
    then have "unat (date_time_to_tick d - RTC_MAGIC_OFFSET) = 1000000 * (86400 * (N - 719162) + r) + unat (microsecond d)"
      using t n by (simp add: unat_sub diff_mult_distrib2) (simp add: RTC_MAGIC_OFFSET_def)
    then have "unat ((date_time_to_tick d - RTC_MAGIC_OFFSET) div 1000000) = 86400 * (N - 719162) + r"
      using b(4) by (simp add: unat_div)
    then have "(date_time_to_tick d - RTC_MAGIC_OFFSET) div 1000000 = of_nat (86400 * (N - 719162) + r)" by (metis of_nat_unat ucast_id)
    then show ?thesis by (simp only: r_def add.assoc)
  qed
qed

text \<open>
  C37: \<^verbatim>\<open>cellRtcGetTime_t\<close> stores the Unix time of every valid date from 1970 on, the seconds since 1 January 1970, and for an
  earlier one it stores zero and answers with an error; so it does for a date outside the years 1 to 9999, although it ignores the error
  of \<^verbatim>\<open>cellRtcGetTick\<close>.
\<close>

theorem time_t_counts_seconds:
  assumes "ok p" "ok q" "q \<noteq> 0" and d: "d = ld_date m p" and N: "N = day_number (unat (year d)) (unat (month d)) (unat (day d))"
    and v: "cellRtcCheckValid_value d = CELL_OK \<or> year d = 0 \<or> 10000 \<le> year d"
  shows "cellRtcGetTime_t ok p q m =
    (if cellRtcCheckValid_value d = CELL_OK \<and> day_number 1970 1 1 \<le> N
     then (CELL_OK, st_be64 m q (of_nat (86400 * (N - day_number 1970 1 1) + 3600 * unat (hour d) + 60 * unat (minute d) + unat (second d))))
     else (rtc_err CELL_RTC_ERROR_INVALID_VALUE, st_be64 m q 0))"
proof (cases "cellRtcCheckValid_value d = CELL_OK")
  case True
  then have "GetTick_to_var m p = date_time_to_tick d"
    using d by (auto simp: GetTick_to_var_def check_valid_iff valid_date_def word_le_nat_alt)
  then show ?thesis
    using assms(1-3) valid_time_t [OF True N] True
    by (simp add: cellRtcGetTime_t_def st_nonnull_def day_number_1970 [simplified] not_less)
next
  case False
  then have "GetTick_to_var m p = 0" using v d by (auto simp: GetTick_to_var_def)
  then show ?thesis using assms(1-3) False by (simp add: cellRtcGetTime_t_def st_nonnull_def RTC_MAGIC_OFFSET_def)
qed

theorem time_t_counts_seconds_witness:
  "cellRtcGetTime_t (\<lambda>_. True) 0x100 0x200 (st_date (\<lambda>_. 0) 0x100 sample_date)
     = (CELL_OK, st_be64 (st_date (\<lambda>_. 0) 0x100 sample_date) 0x200 951868798)"
proof -
  have "day_number 2000 2 29 = 730178" using days_before_closed [of 1999] by (simp add: day_number_def month_tables is_leap_year_def)
  then show ?thesis
    using time_t_counts_seconds [of "\<lambda>_. True" "0x100" "0x200" sample_date "st_date (\<lambda>_. 0) 0x100 sample_date", OF _ _ _ _ refl]
      sample_date_valid
    by (simp add: cell_date.ld_st day_number_1970 [simplified] sample_date_def)
qed

lemma sint_small_u64: "unat (w :: u64) < 9223372036854775808 \<Longrightarrow> sint w = int (unat w)"
proof -
  assume "unat w < 9223372036854775808"
  then have "uint w < 9223372036854775808" using uint_nat [of w] by linarith
  moreover have "- 9223372036854775808 \<le> uint w" using uint_ge_0 [of w] by linarith
  ultimately have "signed_take_bit 63 (uint w) = uint w"
    by (intro signed_take_bit_int_eq_self) simp_all
  then have "sint w = uint w" by (simp add: sint_uint)
  then show ?thesis by (simp only: uint_nat)
qed

lemma host_tick_inverse:
  fixes x :: u64
  shows "host_tick (x div 1000000) (x mod 1000000 * 1000) = x + RTC_MAGIC_OFFSET"
proof -
  define r where "r = unat x mod 1000000"
  have r: "r < 1000000" by (simp add: r_def)
  have n: "unat (x mod 1000000 * 1000) = r * 1000"
    using r by (simp add: unat_word_ariths unat_mod r_def)
  then have "sint (x mod 1000000 * 1000) = int (r * 1000)"
    using r sint_small_u64 [of "x mod 1000000 * 1000"] by simp
  then have "tdiv (sint (x mod 1000000 * 1000)) 1000 = int r" by (simp add: tdiv_nonneg)
  then have "word_of_int (tdiv (sint (x mod 1000000 * 1000)) 1000) = x mod 1000000"
    by (simp add: word_unat_eq_iff unat_of_nat unat_mod r_def)
  then show ?thesis
    unfolding host_tick_def using mod_div_mult_eq [of x 1000000] by simp
qed

text \<open>
  \<^verbatim>\<open>cellRtcSetCurrentTick\<close> hands the host the seconds and nanoseconds from which
  \<^verbatim>\<open>cellRtcGetCurrentTick\<close> computes the tick again.
\<close>

theorem current_tick_roundtrip:
  assumes "p \<noteq> 0" "RTC_MAGIC_OFFSET \<le> ld_be64 m p"
  shows "\<exists>s n. (\<forall>h. cellRtcSetCurrentTick h p m =
        (if failed (set_current_time h s n) then set_current_time h s n else CELL_OK))
    \<and> (\<forall>h ok q. get_current_time h = (0, s, n) \<and> ok q \<longrightarrow>
        cellRtcGetCurrentTick h ok q m = (CELL_OK, st_be64 m q (ld_be64 m p)))"
proof -
  let ?x = "ld_be64 m p - RTC_MAGIC_OFFSET"
  show ?thesis
    using assms host_tick_inverse [of ?x]
    by (intro exI [of _ "?x div 1000000"] exI [of _ "?x mod 1000000 * 1000"])
      (auto simp: cellRtcSetCurrentTick_def cellRtcGetCurrentTick_def Let_def failed_def not_less[symmetric])
qed

theorem current_tick_roundtrip_witness:
  "\<exists>s n. (\<forall>h. cellRtcSetCurrentTick h 0x100 leap_day_mem =
        (if failed (set_current_time h s n) then set_current_time h s n else CELL_OK))
    \<and> cellRtcGetCurrentTick (sample_host\<lparr>get_current_time := (0, s, n)\<rparr>) (\<lambda>_. True) 0x200 leap_day_mem
      = (CELL_OK, st_be64 leap_day_mem 0x200 (ld_be64 leap_day_mem 0x100))"
proof -
  have "unat (ld_be64 leap_day_mem 0x100) = unat (date_time_to_tick sample_date)"
    by (simp add: leap_day_mem_def cell_be64.ld_st)
  also have "\<dots> \<ge> 62135596800000000"
    using valid_tick [of sample_date] sample_date_valid days_before_closed [of 1999]
    by (simp add: check_valid_iff) (simp add: sample_date_def tick_value_def day_number_def month_tables is_leap_year_def)
  finally have "RTC_MAGIC_OFFSET \<le> ld_be64 leap_day_mem 0x100"
    by (simp add: word_le_nat_alt RTC_MAGIC_OFFSET_def)
  from current_tick_roundtrip [OF _ this] obtain s n where sn: "\<forall>h. cellRtcSetCurrentTick h 0x100 leap_day_mem =
        (if failed (set_current_time h s n) then set_current_time h s n else CELL_OK)"
    "\<forall>h ok q. get_current_time h = (0, s, n) \<and> ok q \<longrightarrow>
        cellRtcGetCurrentTick h ok q leap_day_mem = (CELL_OK, st_be64 leap_day_mem q (ld_be64 leap_day_mem 0x100))"
    by auto
  then show ?thesis by (intro exI [of _ s] exI [of _ n]) simp
qed

end
