(* ===== verification/Rtc_Format.thy ===== *)
theory Rtc_Format
  imports Rtc_Ops
begin

text \<open>
  \<^verbatim>\<open>rpcs3/Emu/Cell/Modules/cellRtc.cpp\<close>: printing and parsing dates. A guest string is
  the function from positions to bytes at its address. The loops that skip blanks and read the digits
  of a fraction end at the first other byte; on a memory without one they do not end, which is the
  value \<open>None\<close>. \<open>sc\<close> is whether the compiler's \<^verbatim>\<open>char\<close> is signed.
\<close>

section \<open>Characters\<close>

definition ascii :: "u8 \<Rightarrow> u8" where "ascii num = num + 0x30"

definition isdigit :: "u8 \<Rightarrow> bool" where "isdigit c \<longleftrightarrow> 0x30 \<le> c \<and> c \<le> 0x39"

definition digit :: "u8 \<Rightarrow> nat" where "digit c = unat (c - 0x30)"

definition isblank :: "u8 \<Rightarrow> bool" where "isblank c \<longleftrightarrow> c = 0x20 \<or> c = 0x09"

definition tolower :: "u8 \<Rightarrow> u8" where "tolower c = (if 0x41 \<le> c \<and> c \<le> 0x5A then c + 0x20 else c)"

definition toupper :: "u8 \<Rightarrow> u8" where "toupper c = (if 0x61 \<le> c \<and> c \<le> 0x7A then c - 0x20 else c)"

definition lit :: "char \<Rightarrow> u8" where "lit c = of_char c"

definition WEEKDAY_NAMES :: "string list" where
  "WEEKDAY_NAMES = [''sunday'', ''monday'', ''tuesday'', ''wednesday'', ''thursday'', ''friday'', ''saturday'']"

definition MONTH_NAMES :: "string list" where
  "MONTH_NAMES = [''january'', ''february'', ''march'', ''april'', ''may'', ''june'', ''july'', ''august'',
     ''september'', ''october'', ''november'', ''december'']"

definition TIME_ZONE_NAMES :: "string list" where
  "TIME_ZONE_NAMES = [''gmt'', ''est'', ''edt'', ''cst'', ''cdt'', ''mst'', ''mdt'', ''pst'', ''pdt'', ''nzdt'', ''nzst'',
     ''idle'', ''nzt'', ''aesst'', ''acsst'', ''cadt'', ''sadt'', ''aest'', ''east'', ''gst'', ''ligt'', ''acst'', ''sast'',
     ''cast'', ''awsst'', ''jst'', ''kst'', ''wdt'', ''mt'', ''awst'', ''cct'', ''wadt'', ''wst'', ''jt'', ''wast'', ''it'',
     ''bt'', ''eetdst'', ''eet'', ''cetdst'', ''fwt'', ''ist'', ''mest'', ''metdst'', ''sst'', ''bst'', ''cet'', ''dnt'',
     ''fst'', ''met'', ''mewt'', ''mez'', ''nor'', ''set'', ''swt'', ''wetdst'', ''wet'', ''wat'', ''ndt'', ''adt'', ''nft'',
     ''nst'', ''ast'', ''ydt'', ''hdt'', ''yst'', ''ahst'', ''cat'', ''nt'', ''idlw'']"

definition TIME_ZONE_VALUES :: "int list" where
  "TIME_ZONE_VALUES = [0, -10, -8, -12, -10, -14, -12, -16, -14, 26, 24, 24, 24, 22, 21, 21, 21, 20, 20, 20, 20, 19, 19,
     19, 18, 18, 18, 18, 17, 16, 16, 16, 16, 15, 14, 7, 6, 6, 4, 4, 4, 4, 4, 4, 4, 2, 2, 2, 2, 2, 2, 2, 2, 2, 2, 2, 0, -2,
     -3, -6, -5, -5, -8, -16, -18, -18, -20, -20, -22, -24]"

section \<open>Printing\<close>

text \<open>\<open>two n\<close> and \<open>four n\<close> are the characters \<^verbatim>\<open>ascii(n / 10), ascii(n % 10)\<close> and their four-digit form.\<close>

definition two :: "nat \<Rightarrow> u8 list" where
  "two n = [ascii (of_nat (n div 10)), ascii (of_nat (n mod 10))]"

definition four :: "nat \<Rightarrow> u8 list" where
  "four n = [ascii (of_nat (n div 1000)), ascii (of_nat (n div 100 mod 10)), ascii (of_nat (n div 10 mod 10)),
     ascii (of_nat (n mod 10))]"

definition short_name :: "string \<Rightarrow> u8 list" where
  "short_name s = [toupper (lit (s ! 0)), lit (s ! 1), lit (s ! 2)]"

definition zone_sign :: "u32 \<Rightarrow> u8" where
  "zone_sign tz = (if sint tz < 0 then lit CHR ''-'' else lit CHR ''+'')"

definition zone_abs :: "u32 \<Rightarrow> int" where
  "zone_abs tz = (if sint tz < 0 then sint (- tz) else sint tz)"

definition zone_hours :: "u32 \<Rightarrow> nat" where
  "zone_hours tz = unat (word_of_int (tmod (tdiv (zone_abs tz) 60) 100) :: u32)"

definition zone_minutes :: "u32 \<Rightarrow> nat" where
  "zone_minutes tz = unat (word_of_int (tmod (zone_abs tz) 60) :: u32)"

definition rfc2822_text :: "CellRtcDateTime \<Rightarrow> u32 \<Rightarrow> u8 list" where
  "rfc2822_text d tz =
     (let weekdayIdx = nat (sint (cellRtcGetDayOfWeek (ucast (year d)) (ucast (month d)) (ucast (day d)))) in
      short_name (WEEKDAY_NAMES ! weekdayIdx) @ [lit CHR '','', lit CHR '' ''] @ two (unat (day d)) @ [lit CHR '' '']
      @ short_name (MONTH_NAMES ! (unat (month d) - 1)) @ [lit CHR '' '']
      @ four (unat (year d)) @ [lit CHR '' ''] @ two (unat (hour d)) @ [lit CHR '':''] @ two (unat (minute d)) @ [lit CHR '':'']
      @ two (unat (second d)) @ [lit CHR '' ''] @ [zone_sign tz] @ two (zone_hours tz) @ two (zone_minutes tz) @ [0])"

definition rfc3339_text :: "CellRtcDateTime \<Rightarrow> u32 \<Rightarrow> u8 list" where
  "rfc3339_text d tz =
     four (unat (year d)) @ [lit CHR ''-''] @ two (unat (month d)) @ [lit CHR ''-''] @ two (unat (day d)) @ [lit CHR ''T'']
     @ two (unat (hour d)) @ [lit CHR '':''] @ two (unat (minute d)) @ [lit CHR '':''] @ two (unat (second d)) @ [lit CHR ''.'']
     @ [ascii (of_nat (unat (microsecond d) div 100000)), ascii (of_nat (unat (microsecond d) div 10000 mod 10))]
     @ (if tz = 0 then [lit CHR ''Z'', 0]
        else [zone_sign tz] @ two (zone_hours tz) @ [lit CHR '':''] @ two (zone_minutes tz) @ [0])"

fun st_bytes :: "vmem \<Rightarrow> addr \<Rightarrow> u8 list \<Rightarrow> vmem" where
  "st_bytes m a [] = m"
| "st_bytes m a (b # bs) = st_bytes (st_u8 m a b) (a + 1) bs"

text \<open>The shared head of both formatters: the tick, shifted to the zone, as a valid date.\<close>

definition zone_tick :: "rtc_host \<Rightarrow> addr \<Rightarrow> u32 \<Rightarrow> vmem \<Rightarrow> u64" where
  "zone_tick h pUtc tz m =
     (if pUtc = 0
      then (case get_current_time h of (ret, sec, nsec) \<Rightarrow> if failed ret then 0 else host_tick sec nsec)
      else ld_be64 m pUtc) + scast tz * 60 * tick_resolution"

definition format_with ::
  "(CellRtcDateTime \<Rightarrow> u32 \<Rightarrow> u8 list) \<Rightarrow> rtc_host \<Rightarrow> (addr \<Rightarrow> bool) \<Rightarrow> addr \<Rightarrow> addr \<Rightarrow> u32 \<Rightarrow> vmem \<Rightarrow> rtc_result"
where
  "format_with text_of h ok psz pUtc tz m =
     (if \<not> ok psz then (bad_pointer, m)
      else if \<not> ok pUtc then (bad_pointer, m)
      else (let d = tick_to_date_time (zone_tick h pUtc tz m); ret = cellRtcCheckValid_value d in
        if ret \<noteq> CELL_OK then (ret, m) else (CELL_OK, st_bytes m psz (text_of d tz))))"

definition cellRtcFormatRfc2822 :: "rtc_host \<Rightarrow> (addr \<Rightarrow> bool) \<Rightarrow> addr \<Rightarrow> addr \<Rightarrow> u32 \<Rightarrow> vmem \<Rightarrow> rtc_result" where
  "cellRtcFormatRfc2822 = format_with rfc2822_text"

definition cellRtcFormatRfc3339 :: "rtc_host \<Rightarrow> (addr \<Rightarrow> bool) \<Rightarrow> addr \<Rightarrow> addr \<Rightarrow> u32 \<Rightarrow> vmem \<Rightarrow> rtc_result" where
  "cellRtcFormatRfc3339 = format_with rfc3339_text"

definition cellRtcFormatRfc2822LocalTime :: "rtc_host \<Rightarrow> (addr \<Rightarrow> bool) \<Rightarrow> addr \<Rightarrow> addr \<Rightarrow> vmem \<Rightarrow> rtc_result" where
  "cellRtcFormatRfc2822LocalTime h ok psz pUtc m =
     (if \<not> ok psz then (bad_pointer, m)
      else if \<not> ok pUtc then (bad_pointer, m)
      else (case get_timezone h of (ret, timezone, summertime) \<Rightarrow>
        if failed ret then (ret, m) else cellRtcFormatRfc2822 h ok psz pUtc (timezone + summertime) m))"

definition cellRtcFormatRfc3339LocalTime :: "rtc_host \<Rightarrow> (addr \<Rightarrow> bool) \<Rightarrow> addr \<Rightarrow> addr \<Rightarrow> vmem \<Rightarrow> rtc_result" where
  "cellRtcFormatRfc3339LocalTime h ok psz pUtc m =
     (if \<not> ok psz then (bad_pointer, m)
      else if \<not> ok pUtc then (bad_pointer, m)
      else (case get_timezone h of (ret, timezone, summertime) \<Rightarrow>
        if failed ret then (ret, m) else cellRtcFormatRfc3339 h ok psz pUtc (timezone + summertime) m))"

section \<open>Parsing\<close>

type_synonym gstring = "u32 \<Rightarrow> u8"

definition gstr :: "vmem \<Rightarrow> addr \<Rightarrow> gstring" where
  "gstr m p = (\<lambda>pos. ld_u8 m (p + pos))"

text \<open>\<^verbatim>\<open>rtcParseComponent\<close>: one or two digits after an optional delimiter; \<open>None\<close> is \<^verbatim>\<open>umax\<close>.\<close>

definition rtcParseComponent :: "gstring \<Rightarrow> u32 \<Rightarrow> u8 \<Rightarrow> (u16 \<times> u32) option" where
  "rtcParseComponent s pos delimiter =
     (if delimiter \<noteq> 0 \<and> s pos \<noteq> delimiter then None
      else (let pos = (if delimiter \<noteq> 0 then pos + 1 else pos) in
        if \<not> isdigit (s pos) then None
        else if isdigit (s (pos + 1)) then Some (of_nat (digit (s pos) * 10 + digit (s (pos + 1))), pos + 2)
        else Some (of_nat (digit (s pos)), pos + 1)))"

fun match_len :: "gstring \<Rightarrow> u32 \<Rightarrow> string \<Rightarrow> nat" where
  "match_len s pos [] = 0"
| "match_len s pos (c # cs) = (if tolower (s pos) = lit c then Suc (match_len s (pos + 1) cs) else 0)"

text \<open>\<^verbatim>\<open>rtcParseName\<close>: the index of the first name that matches, or the number of names.\<close>

fun parse_name :: "gstring \<Rightarrow> u32 \<Rightarrow> bool \<Rightarrow> string list \<Rightarrow> nat \<Rightarrow> nat \<times> u32" where
  "parse_name s pos allow_short_name [] name_idx = (name_idx, pos)"
| "parse_name s pos allow_short_name (name # names) name_idx =
     (let ch_idx = match_len s pos name in
      if ch_idx = length name then (name_idx, pos + of_nat (length name))
      else if allow_short_name \<and> ch_idx \<ge> 3 then (name_idx, pos + 3)
      else parse_name s pos allow_short_name names (Suc name_idx))"

definition rtcParseName :: "gstring \<Rightarrow> u32 \<Rightarrow> string list \<Rightarrow> bool \<Rightarrow> nat \<times> u32" where
  "rtcParseName s pos names allow_short_name = parse_name s pos allow_short_name names 0"

definition digits4 :: "gstring \<Rightarrow> u32 \<Rightarrow> bool" where
  "digits4 s pos \<longleftrightarrow> isdigit (s pos) \<and> isdigit (s (pos + 1)) \<and> isdigit (s (pos + 2)) \<and> isdigit (s (pos + 3))"

definition number2 :: "gstring \<Rightarrow> u32 \<Rightarrow> nat" where
  "number2 s pos = digit (s pos) * 10 + digit (s (pos + 1))"

definition number4 :: "gstring \<Rightarrow> u32 \<Rightarrow> nat" where
  "number4 s pos = digit (s pos) * 1000 + digit (s (pos + 1)) * 100 + digit (s (pos + 2)) * 10 + digit (s (pos + 3))"

text \<open>The optional year, seconds and time zone of \<^verbatim>\<open>rtcParseRfc2822\<close>.\<close>

definition parse_year :: "gstring \<Rightarrow> u32 \<Rightarrow> (u16 \<times> u32) option" where
  "parse_year s pos =
     (if \<not> isdigit (s pos) \<or> \<not> isdigit (s (pos + 1)) then None
      else if \<not> isdigit (s (pos + 2)) \<or> \<not> isdigit (s (pos + 3))
      then (let y = number2 s pos in Some (of_nat (y + (if y < 50 then 2000 else 1900)), pos + 2))
      else Some (of_nat (number4 s pos), pos + 4))"

definition parse_second :: "gstring \<Rightarrow> u32 \<Rightarrow> (u16 \<times> u32) option" where
  "parse_second s pos = (if s pos \<noteq> lit CHR '' '' then rtcParseComponent s pos (lit CHR '':'') else Some (0, pos + 1))"

definition parse_zone :: "gstring \<Rightarrow> u32 \<Rightarrow> int option" where
  "parse_zone s pos =
     (if s pos \<noteq> lit CHR '' '' then Some 0
      else (let pos = pos + 1 in
        if s pos = lit CHR ''+'' \<or> s pos = lit CHR ''-'' then
          (let time_zone = (if digits4 s (pos + 1)
             then int (number4 s (pos + 1)) div 100 * 60 + int (number4 s (pos + 1)) mod 60 else - 1)
           in Some (if s pos = lit CHR ''-'' then - time_zone else time_zone))
        else if s pos \<noteq> lit CHR ''U'' \<and> s (pos + 1) \<noteq> lit CHR ''T'' then
          (case rtcParseName s pos TIME_ZONE_NAMES False of (idx, pos') \<Rightarrow>
             if idx < length TIME_ZONE_NAMES then Some (TIME_ZONE_VALUES ! idx * 30)
             else (let letter = toupper (s pos') in
               if lit CHR ''A'' \<le> letter \<and> letter \<le> lit CHR ''M'' \<and> letter \<noteq> lit CHR ''J''
               then Some ((uint letter - uint (lit CHR ''A'')) * 60)
               else if lit CHR ''N'' \<le> letter \<and> letter \<le> lit CHR ''Y''
               then Some ((uint (lit CHR ''N'') - uint letter) * 60)
               else if letter \<noteq> lit CHR ''Z'' then None else Some 0))
        else Some 0))"

definition space_or_hyphen :: "u8 \<Rightarrow> bool" where
  "space_or_hyphen c \<longleftrightarrow> c = lit CHR '' '' \<or> c = lit CHR ''-''"

text \<open>The date and zone of an RFC 2822 string; every failure is \<^verbatim>\<open>CELL_RTC_ERROR_BAD_PARSE\<close>.\<close>

definition parse_rfc2822 :: "gstring \<Rightarrow> u32 \<Rightarrow> (CellRtcDateTime \<times> int) option" where
  "parse_rfc2822 s pos =
     (case rtcParseComponent s pos 0 of None \<Rightarrow> None | Some (dy, pos) \<Rightarrow>
      if \<not> space_or_hyphen (s pos) then None else
      (case rtcParseName s (pos + 1) MONTH_NAMES True of (idx, pos) \<Rightarrow>
      if idx \<ge> length MONTH_NAMES then None else
      if \<not> space_or_hyphen (s pos) then None else
      (case parse_year s (pos + 1) of None \<Rightarrow> None | Some (y, pos) \<Rightarrow>
      (case rtcParseComponent s pos (lit CHR '' '') of None \<Rightarrow> None | Some (h, pos) \<Rightarrow>
      if h > 25 then None else
      (case rtcParseComponent s pos (lit CHR '':'') of None \<Rightarrow> None | Some (mi, pos) \<Rightarrow>
      (case parse_second s pos of None \<Rightarrow> None | Some (sec, pos) \<Rightarrow>
      (case parse_zone s pos of None \<Rightarrow> None | Some tz \<Rightarrow>
       Some (\<lparr>year = y, month = of_nat (idx + 1), day = dy, hour = h, minute = mi, second = sec, microsecond = 0\<rparr>, tz))))))))"

definition store_utc :: "(addr \<Rightarrow> bool) \<Rightarrow> addr \<Rightarrow> CellRtcDateTime \<Rightarrow> u64 \<Rightarrow> vmem \<Rightarrow> vmem" where
  "store_utc ok pUtc d minutes m = snd (cellRtcTickAddMinutes ok pUtc pUtc minutes (GetTick_from_var d pUtc m))"

definition rtcParseRfc2822 :: "(addr \<Rightarrow> bool) \<Rightarrow> addr \<Rightarrow> addr \<Rightarrow> u32 \<Rightarrow> vmem \<Rightarrow> rtc_result" where
  "rtcParseRfc2822 ok pUtc psz pos m =
     (case parse_rfc2822 (gstr m psz) pos of
        None \<Rightarrow> (rtc_err CELL_RTC_ERROR_BAD_PARSE, m)
      | Some (d, time_zone) \<Rightarrow> (CELL_OK, store_utc ok pUtc d (word_of_int (- time_zone)) m))"

partial_function (option) skip_blanks :: "gstring \<Rightarrow> u32 \<Rightarrow> u32 option" where
  [code]: "skip_blanks s pos = (if isblank (s pos) then skip_blanks s (pos + 1) else Some pos)"

partial_function (option) parse_fraction :: "gstring \<Rightarrow> u32 \<Rightarrow> u32 \<Rightarrow> u32 \<Rightarrow> (u32 \<times> u32) option" where
  [code]: "parse_fraction s pos mul us =
     (if isdigit (s pos) then parse_fraction s (pos + 1) (mul div 10) (us + of_nat (digit (s pos)) * mul)
      else Some (us, pos))"

definition field2 :: "gstring \<Rightarrow> u32 \<Rightarrow> u16" where
  "field2 s pos = (if isdigit (s pos) \<and> isdigit (s (pos + 1)) then of_nat (number2 s pos) else 0xffff)"

definition field4 :: "gstring \<Rightarrow> u32 \<Rightarrow> u16" where
  "field4 s pos = (if digits4 s pos then of_nat (number4 s pos) else 0xffff)"

text \<open>The time offset after the seconds of an RFC 3339 string, in minutes to add.\<close>

definition parse_offset :: "gstring \<Rightarrow> u32 \<Rightarrow> int option" where
  "parse_offset s pos =
     (if s pos \<noteq> lit CHR ''Z'' \<and> s pos \<noteq> lit CHR ''z'' \<and> s pos \<noteq> lit CHR ''+'' \<and> s pos \<noteq> lit CHR ''-'' then None
      else if s pos = lit CHR ''+'' \<or> s pos = lit CHR ''-'' then
        (if \<not> isdigit (s (pos + 1)) \<or> \<not> isdigit (s (pos + 2)) \<or> s (pos + 3) \<noteq> lit CHR '':''
            \<or> \<not> isdigit (s (pos + 4)) \<or> \<not> isdigit (s (pos + 5)) then None
         else (let minutes_to_add = int (number2 s (pos + 1)) * 60 + int (number2 s (pos + 4)) in
           Some (if s pos = lit CHR ''+'' then - minutes_to_add else minutes_to_add)))
      else Some 0)"

text \<open>\<^verbatim>\<open>cellRtcParseRfc3339\<close> on a string: an error, or the date and the minutes to add.\<close>

definition parse_rfc3339 :: "gstring \<Rightarrow> (CellRtcError + (CellRtcDateTime \<times> int)) option" where
  "parse_rfc3339 s =
     (if s 4 \<noteq> lit CHR ''-'' then Some (Inl CELL_RTC_ERROR_INVALID_YEAR)
      else if s 7 \<noteq> lit CHR ''-'' then Some (Inl CELL_RTC_ERROR_INVALID_MONTH)
      else if s 10 \<noteq> lit CHR ''T'' \<and> s 10 \<noteq> lit CHR ''t'' then Some (Inl CELL_RTC_ERROR_INVALID_DAY)
      else if s 13 \<noteq> lit CHR '':'' then Some (Inl CELL_RTC_ERROR_INVALID_HOUR)
      else if s 16 \<noteq> lit CHR '':'' then Some (Inl CELL_RTC_ERROR_INVALID_MINUTE)
      else (case (if s 19 = lit CHR ''.'' then parse_fraction s 20 100000 0 else Some (0, 19)) of
        None \<Rightarrow> None
      | Some (us, pos) \<Rightarrow>
          (case parse_offset s pos of
             None \<Rightarrow> Some (Inl CELL_RTC_ERROR_BAD_PARSE)
           | Some minutes_to_add \<Rightarrow>
               Some (Inr (\<lparr>year = field4 s 0, month = field2 s 5, day = field2 s 8, hour = field2 s 11,
                 minute = field2 s 14, second = field2 s 17, microsecond = us\<rparr>, minutes_to_add)))))"

definition cellRtcParseRfc3339 :: "(addr \<Rightarrow> bool) \<Rightarrow> addr \<Rightarrow> addr \<Rightarrow> vmem \<Rightarrow> rtc_result option" where
  "cellRtcParseRfc3339 ok pUtc psz m =
     (if \<not> ok pUtc then Some (bad_pointer, m)
      else if \<not> ok psz then Some (bad_pointer, m)
      else (case parse_rfc3339 (gstr m psz) of
        None \<Rightarrow> None
      | Some (Inl e) \<Rightarrow> Some (rtc_err e, m)
      | Some (Inr (d, minutes_to_add)) \<Rightarrow> Some (CELL_OK, store_utc ok pUtc d (word_of_int minutes_to_add) m)))"

text \<open>The day of an asctime string: blank-padded, in which case any byte up to \<open>9\<close> counts, or digits.\<close>

definition char_val :: "bool \<Rightarrow> u8 \<Rightarrow> int" where
  "char_val sc c = (if sc then sint c else uint c)"

definition parse_day :: "bool \<Rightarrow> gstring \<Rightarrow> u32 \<Rightarrow> (u16 \<times> u32) option" where
  "parse_day sc s pos =
     (if s pos = lit CHR '' '' then
        (if char_val sc (s (pos + 1)) > 0x39 then None
         else Some (word_of_int (char_val sc (s (pos + 1))) - 0x30, pos + 2))
      else if isdigit (s pos) then
        (if isdigit (s (pos + 1)) then Some (of_nat (number2 s pos), pos + 2) else Some (of_nat (digit (s pos)), pos + 1))
      else None)"

text \<open>The rest of an asctime string after its month.\<close>

definition parse_asctime :: "bool \<Rightarrow> gstring \<Rightarrow> u32 \<Rightarrow> u16 \<Rightarrow> CellRtcDateTime option" where
  "parse_asctime sc s pos mo =
     (if s pos \<noteq> lit CHR '' '' then None else
      (case parse_day sc s (pos + 1) of None \<Rightarrow> None | Some (dy, pos) \<Rightarrow>
      (case rtcParseComponent s pos (lit CHR '' '') of None \<Rightarrow> None | Some (h, pos) \<Rightarrow>
      (case rtcParseComponent s pos (lit CHR '':'') of None \<Rightarrow> None | Some (mi, pos) \<Rightarrow>
      (case rtcParseComponent s pos (lit CHR '':'') of None \<Rightarrow> None | Some (sec, pos) \<Rightarrow>
      if s pos \<noteq> lit CHR '' '' then None else
      if \<not> digits4 s (pos + 1) then None else
      Some \<lparr>year = of_nat (number4 s (pos + 1)), month = mo, day = dy, hour = h, minute = mi, second = sec,
        microsecond = 0\<rparr>)))))"

definition cellRtcParseDateTime :: "bool \<Rightarrow> (addr \<Rightarrow> bool) \<Rightarrow> addr \<Rightarrow> addr \<Rightarrow> vmem \<Rightarrow> rtc_result option" where
  "cellRtcParseDateTime sc ok pUtc psz m =
     (let s = gstr m psz; bad = Some (rtc_err CELL_RTC_ERROR_BAD_PARSE, m) in
      if \<not> ok pUtc \<or> \<not> ok psz then Some (bad_pointer, m)
      else (case skip_blanks s 0 of None \<Rightarrow> None | Some pos \<Rightarrow>
        if digits4 s pos then cellRtcParseRfc3339 ok pUtc (psz + pos) m
        else (case rtcParseName s pos WEEKDAY_NAMES True of (idx, pos) \<Rightarrow>
          if idx = length WEEKDAY_NAMES then bad
          else (case skip_blanks s (if s pos = lit CHR '','' then pos + 1 else pos) of None \<Rightarrow> None | Some pos \<Rightarrow>
            (case rtcParseName s pos MONTH_NAMES True of (idx, pos) \<Rightarrow>
              if idx \<ge> length MONTH_NAMES then Some (rtcParseRfc2822 ok pUtc psz pos m)
              else (case parse_asctime sc s pos (of_nat (idx + 1)) of
                None \<Rightarrow> bad
              | Some d \<Rightarrow> Some (CELL_OK, GetTick_from_var d pUtc m)))))))"

section \<open>The loops end\<close>

lemma skip_blanks_step: "isblank (s pos) \<Longrightarrow> skip_blanks s pos = skip_blanks s (pos + 1)"
  and skip_blanks_stop: "\<not> isblank (s pos) \<Longrightarrow> skip_blanks s pos = Some pos"
  by (simp_all add: skip_blanks.simps [of s pos])

lemma parse_fraction_step: "isdigit (s pos) \<Longrightarrow>
    parse_fraction s pos mul us = parse_fraction s (pos + 1) (mul div 10) (us + of_nat (digit (s pos)) * mul)"
  and parse_fraction_stop: "\<not> isdigit (s pos) \<Longrightarrow> parse_fraction s pos mul us = Some (us, pos)"
  by (simp_all add: parse_fraction.simps [of s pos])

lemma skip_blanks_ends: "\<not> isblank (s (pos + of_nat n)) \<Longrightarrow> \<exists>q. skip_blanks s pos = Some q"
proof (induction n arbitrary: pos)
  case (Suc n)
  then show ?case
    using Suc.IH [of "pos + 1"] by (cases "isblank (s pos)") (auto simp: skip_blanks_step skip_blanks_stop add.assoc)
qed (auto simp: skip_blanks_stop)

lemma parse_fraction_ends: "\<not> isdigit (s (pos + of_nat n)) \<Longrightarrow> \<exists>r. parse_fraction s pos mul us = Some r"
proof (induction n arbitrary: pos mul us)
  case (Suc n)
  then show ?case
    using Suc.IH [of "pos + 1"] by (cases "isdigit (s pos)") (auto simp: parse_fraction_step parse_fraction_stop add.assoc)
qed (auto simp: parse_fraction_stop)

lemma pos_reaches: "\<exists>n. (x :: u32) = pos + of_nat n"
  by (rule exI [of _ "unat (x - pos)"]) simp

lemma parse_rfc3339_ends:
  assumes "s x = 0"
  shows "\<exists>r. parse_rfc3339 s = Some r"
proof -
  obtain n where "x = 20 + of_nat n" using pos_reaches by blast
  then obtain us pos where "parse_fraction s 20 100000 0 = Some (us, pos)"
    using parse_fraction_ends [of s 20 n] assms by (fastforce simp: isdigit_def)
  then show ?thesis by (auto simp: parse_rfc3339_def split: option.splits)
qed

text \<open>
  C38: parsing a date ends, with a result or an error code, on every memory that holds a zero byte
  anywhere, and in particular on every terminated string.
\<close>

theorem parse_date_time_ends:
  assumes "m x = 0"
  shows "\<exists>r. cellRtcParseDateTime sc ok pUtc psz m = Some r"
proof -
  have z: "gstr m p (x - p) = 0" for p using assms by (simp add: gstr_def ld_u8_def)
  have blanks: "\<exists>q. skip_blanks (gstr m psz) pos = Some q" for pos
  proof -
    obtain n where "x - psz = pos + of_nat n" using pos_reaches by blast
    then show ?thesis using z [of psz] by (intro skip_blanks_ends [of _ _ n]) (simp add: isblank_def)
  qed
  have rfc3339: "\<exists>r. cellRtcParseRfc3339 ok pUtc p m = Some r" for p
  proof -
    obtain r where "parse_rfc3339 (gstr m p) = Some r" using parse_rfc3339_ends z [of p] by blast
    then show ?thesis by (cases r) (auto simp: cellRtcParseRfc3339_def)
  qed
  let ?s = "gstr m psz"
  obtain q where q: "skip_blanks ?s 0 = Some q" using blanks by blast
  obtain w q1 where w: "rtcParseName ?s q WEEKDAY_NAMES True = (w, q1)" by fastforce
  obtain q2 where q2: "skip_blanks ?s (if ?s q1 = lit CHR '','' then q1 + 1 else q1) = Some q2" using blanks by blast
  obtain mo q3 where "rtcParseName ?s q2 MONTH_NAMES True = (mo, q3)" by fastforce
  then show ?thesis
    using rfc3339 by (cases "parse_asctime sc ?s q3 (of_nat (mo + 1))") (simp_all add: cellRtcParseDateTime_def Let_def q w q2)
qed

theorem parse_date_time_ends_witness:
  "\<exists>r. cellRtcParseDateTime True (\<lambda>_. True) 0x100 0x200 (\<lambda>_. 0) = Some r"
  by (rule parse_date_time_ends) simp

section \<open>Digits\<close>

lemma digit_cases:
  assumes "n < (10::nat)"
  obtains "n = 0" | "n = 1" | "n = 2" | "n = 3" | "n = 4" | "n = 5" | "n = 6" | "n = 7" | "n = 8" | "n = 9"
  using assms by atomize_elim presburger

lemma isdigit_ascii [simp]: "n < 10 \<Longrightarrow> isdigit (ascii (of_nat n))"
  by (erule digit_cases) (simp_all add: isdigit_def ascii_def word_le_nat_alt)

lemma digit_ascii [simp]: "n < 10 \<Longrightarrow> digit (ascii (of_nat n)) = n"
  by (erule digit_cases) (simp_all add: digit_def ascii_def)

lemma st_bytes_other: "(\<And>i. i < length bs \<Longrightarrow> x \<noteq> a + of_nat i) \<Longrightarrow> st_bytes m a bs x = m x"
proof (induction bs arbitrary: m a)
  case (Cons b bs)
  have "x \<noteq> a + 1 + of_nat i" if "i < length bs" for i
    using Cons.prems [of "Suc i"] that by (simp add: add.assoc)
  then have "st_bytes (st_u8 m a b) (a + 1) bs x = st_u8 m a b x" by (rule Cons.IH)
  moreover have "x \<noteq> a" using Cons.prems [of 0] by simp
  ultimately show ?case by (simp only: st_bytes.simps) (simp add: st_u8_def)
qed simp

lemma st_bytes_nth:
  "i < length bs \<Longrightarrow> length bs \<le> 2 ^ 32 \<Longrightarrow> st_bytes m a bs (a + of_nat i) = bs ! i"
proof (induction bs arbitrary: m a i)
  case (Cons b bs)
  show ?case
  proof (cases i)
    case 0
    have "a \<noteq> a + 1 + of_nat j" if "j < length bs" for j
    proof
      assume "a = a + 1 + of_nat j"
      then have "(of_nat (Suc j) :: u32) = 0" by simp
      then have "2 ^ 32 dvd Suc j" by (simp add: word_of_nat_eq_0_iff del: of_nat_Suc)
      then show False using that Cons.prems(2) by (auto dest: dvd_imp_le)
    qed
    then show ?thesis using 0 st_bytes_other [of bs a "a + 1" "st_u8 m a b"] by (simp add: st_u8_def)
  next
    case (Suc j)
    then show ?thesis using Cons.IH [of j "st_u8 m a b" "a + 1"] Cons.prems by (simp add: add.assoc)
  qed
qed simp

text \<open>A string that starts with the given bytes.\<close>

definition starts_with :: "gstring \<Rightarrow> u8 list \<Rightarrow> bool" where
  "starts_with s bs \<longleftrightarrow> (\<forall>i < length bs. s (of_nat i) = bs ! i)"

lemma starts_with_st_bytes: "length bs \<le> 2 ^ 32 \<Longrightarrow> starts_with (gstr (st_bytes m p bs) p) bs"
  by (simp add: starts_with_def gstr_def ld_u8_def st_bytes_nth)

lemma starts_with_numeral:
  assumes "starts_with s bs"
  shows "bs \<noteq> [] \<Longrightarrow> s 0 = bs ! 0" "1 < length bs \<Longrightarrow> s 1 = bs ! 1"
    "numeral k < length bs \<Longrightarrow> s (numeral k) = bs ! numeral k"
  using assms [unfolded starts_with_def, rule_format, of 0] assms [unfolded starts_with_def, rule_format, of 1]
    assms [unfolded starts_with_def, rule_format, of "numeral k"] by simp_all

section \<open>Numbers\<close>

definition at2 :: "gstring \<Rightarrow> u32 \<Rightarrow> nat \<Rightarrow> bool" where
  "at2 s pos n \<longleftrightarrow> s pos = ascii (of_nat (n div 10)) \<and> s (pos + 1) = ascii (of_nat (n mod 10)) \<and> n < 100"

definition at4 :: "gstring \<Rightarrow> u32 \<Rightarrow> nat \<Rightarrow> bool" where
  "at4 s pos n \<longleftrightarrow> s pos = ascii (of_nat (n div 1000)) \<and> s (pos + 1) = ascii (of_nat (n div 100 mod 10))
     \<and> s (pos + 2) = ascii (of_nat (n div 10 mod 10)) \<and> s (pos + 3) = ascii (of_nat (n mod 10)) \<and> n < 10000"

lemma at2:
  assumes "at2 s pos n"
  shows "isdigit (s pos)" "isdigit (s (pos + 1))" "number2 s pos = n" "field2 s pos = of_nat n"
proof -
  have "n div 10 < 10" using assms by (auto simp: at2_def)
  then show *: "isdigit (s pos)" "isdigit (s (pos + 1))" "number2 s pos = n"
    using assms by (simp_all add: at2_def number2_def)
  then show "field2 s pos = of_nat n" by (simp add: field2_def)
qed

lemma at4:
  assumes "at4 s pos n"
  shows "digits4 s pos" "number4 s pos = n" "field4 s pos = of_nat n"
proof -
  have "n div 1000 < 10" using assms by (auto simp: at4_def)
  moreover have "n div 1000 * 1000 + n div 100 mod 10 * 100 + n div 10 mod 10 * 10 + n mod 10 = n"
  proof -
    have "n div 100 = n div 10 div 10" "n div 1000 = n div 100 div 10" by (simp_all flip: div_mult2_eq)
    then show ?thesis
      using div_mult_mod_eq [of n 10] div_mult_mod_eq [of "n div 10" 10] div_mult_mod_eq [of "n div 100" 10]
      by linarith
  qed
  ultimately show *: "digits4 s pos" "number4 s pos = n"
    using assms by (simp_all add: at4_def digits4_def number4_def)
  then show "field4 s pos = of_nat n" by (simp add: field4_def)
qed

lemma zone_parts:
  assumes "\<bar>sint tz\<bar> < 6000"
  shows "zone_hours tz = nat \<bar>sint tz\<bar> div 60" "zone_minutes tz = nat \<bar>sint tz\<bar> mod 60"
proof -
  have abs: "zone_abs tz = \<bar>sint tz\<bar>"
  proof (cases "sint tz < 0")
    case True
    have "sint (word_of_int (- sint tz) :: u32) = - sint tz"
      using assms True by (intro sint_word_of_int_u32) linarith+
    then show ?thesis using True by (simp add: zone_abs_def)
  qed (simp add: zone_abs_def)
  define a where "a = nat \<bar>sint tz\<bar>"
  have a: "zone_abs tz = int a" "a < 6000" using assms abs by (simp_all add: a_def)
  have "tmod (tdiv (int a) 60) 100 = int (a div 60)" "tmod (int a) 60 = int (a mod 60)"
    using a(2) by (simp_all add: tdiv_nonneg tmod_nonneg zdiv_int zmod_int)
  moreover have "a div 60 < 4294967296" "a mod 60 < 4294967296" using a(2) by simp_all
  ultimately show "zone_hours tz = a div 60" "zone_minutes tz = a mod 60"
    unfolding zone_hours_def zone_minutes_def a(1) by (simp_all add: unat_of_nat)
qed

section \<open>RFC 3339\<close>

text \<open>The bytes of a printed date, field by field.\<close>

lemma valid_bounds:
  assumes "cellRtcCheckValid_value d = CELL_OK"
  shows "unat (year d) < 10000" "unat (month d) < 100" "unat (day d) < 100" "unat (hour d) < 100" "unat (hour d) < 24"
    "unat (minute d) < 100" "unat (second d) < 100" "unat (microsecond d) < 1000000"
proof -
  have v: "valid_date (unat (year d)) (unat (month d)) (unat (day d))" using assms by (simp add: check_valid_iff)
  then show "unat (month d) < 100" "unat (day d) < 100"
    using month_table(4) [of "unat (month d) - 1" "is_leap_year (unat (year d))"] by (fastforce simp: valid_date_def)+
qed (use assms in \<open>auto simp: check_valid_iff\<close>)

lemma zone_bounds: "\<bar>sint tz\<bar> < 6000 \<Longrightarrow> zone_hours tz < 100" "\<bar>sint tz\<bar> < 6000 \<Longrightarrow> zone_minutes tz < 100"
  by (auto simp: zone_parts)

lemma rfc3339_fields:
  assumes v: "cellRtcCheckValid_value d = CELL_OK" and tz: "\<bar>sint tz\<bar> < 6000"
    and s: "starts_with s (rfc3339_text d tz)"
  shows "at4 s 0 (unat (year d))" "at2 s 5 (unat (month d))" "at2 s 8 (unat (day d))" "at2 s 11 (unat (hour d))"
    "at2 s 14 (unat (minute d))" "at2 s 17 (unat (second d))" "at2 s 20 (unat (microsecond d) div 10000)"
    "s 4 = lit CHR ''-''" "s 7 = lit CHR ''-''" "s 10 = lit CHR ''T''" "s 13 = lit CHR '':''" "s 16 = lit CHR '':''"
    "s 19 = lit CHR ''.''" "s 22 = (if tz = 0 then lit CHR ''Z'' else zone_sign tz)"
    "tz \<noteq> 0 \<Longrightarrow> at2 s 23 (zone_hours tz)" "tz \<noteq> 0 \<Longrightarrow> s 25 = lit CHR '':''" "tz \<noteq> 0 \<Longrightarrow> at2 s 26 (zone_minutes tz)"
proof -
  have us: "unat (microsecond d) div 10000 < 100" using valid_bounds(8) [OF v] by auto
  have us10: "unat (microsecond d) div 10000 div 10 = unat (microsecond d) div 100000" by (simp flip: div_mult2_eq)
  note bytes = s [unfolded rfc3339_text_def two_def four_def append.simps]
  note simps = starts_with_numeral [OF bytes] at2_def at4_def valid_bounds [OF v] zone_bounds [OF tz] us us10
  show "at4 s 0 (unat (year d))" "at2 s 5 (unat (month d))" "at2 s 8 (unat (day d))" "at2 s 11 (unat (hour d))"
    "at2 s 14 (unat (minute d))" "at2 s 17 (unat (second d))" "at2 s 20 (unat (microsecond d) div 10000)"
    "s 4 = lit CHR ''-''" "s 7 = lit CHR ''-''" "s 10 = lit CHR ''T''" "s 13 = lit CHR '':''" "s 16 = lit CHR '':''"
    "s 19 = lit CHR ''.''" "s 22 = (if tz = 0 then lit CHR ''Z'' else zone_sign tz)"
    by (simp_all add: simps)
  show "at2 s 23 (zone_hours tz)" "s 25 = lit CHR '':''" "at2 s 26 (zone_minutes tz)" if "tz \<noteq> 0"
    using that by (simp_all add: simps)
qed

lemma lit_codes:
  "lit CHR '' '' = 0x20" "lit CHR ''+'' = 0x2B" "lit CHR '','' = 0x2C" "lit CHR ''-'' = 0x2D" "lit CHR ''.'' = 0x2E"
  "lit CHR '':'' = 0x3A" "lit CHR ''T'' = 0x54" "lit CHR ''U'' = 0x55" "lit CHR ''Z'' = 0x5A" "lit CHR ''z'' = 0x7A"
  by (simp_all add: lit_def)

lemma not_digits: "\<not> isdigit 0x20" "\<not> isdigit 0x2B" "\<not> isdigit 0x2C" "\<not> isdigit 0x2D" "\<not> isdigit 0x2E"
    "\<not> isdigit 0x3A" "\<not> isdigit 0x5A" "\<not> isdigit 0"
  by (simp_all add: isdigit_def word_le_nat_alt)

lemma parse_fraction_two:
  assumes "at2 s 20 n" "\<not> isdigit (s 22)"
  shows "parse_fraction s 20 100000 0 = Some (of_nat (n * 10000), 22)"
proof -
  have d: "isdigit (s 20)" "isdigit (s 21)" "digit (s 20) * 10 + digit (s 21) = n"
    using at2 [OF assms(1)] by (simp_all add: number2_def)
  have "parse_fraction s 20 100000 0 = parse_fraction s 21 10000 (of_nat (digit (s 20)) * 100000)"
    using parse_fraction_step [of s 20 100000 0] d(1) by simp
  also have "\<dots> = parse_fraction s 22 1000 (of_nat (digit (s 20)) * 100000 + of_nat (digit (s 21)) * 10000)"
    using parse_fraction_step [of s 21 10000] d(2) by simp
  also have "\<dots> = Some (of_nat (digit (s 20)) * 100000 + of_nat (digit (s 21)) * 10000, 22)"
    using assms(2) by (rule parse_fraction_stop)
  finally show ?thesis by (simp add: algebra_simps flip: d(3))
qed

lemma zone_sign_minutes:
  assumes "\<bar>sint tz\<bar> < 6000"
  shows "int (zone_hours tz) * 60 + int (zone_minutes tz) = \<bar>sint tz\<bar>"
proof -
  have "zone_hours tz * 60 + zone_minutes tz = nat \<bar>sint tz\<bar>" using zone_parts [OF assms] by simp
  then show ?thesis by linarith
qed

lemma parse_offset_text:
  assumes tz: "\<bar>sint tz\<bar> < 6000" and "s 22 = (if tz = 0 then lit CHR ''Z'' else zone_sign tz)"
    "tz \<noteq> 0 \<Longrightarrow> at2 s 23 (zone_hours tz)" "tz \<noteq> 0 \<Longrightarrow> s 25 = lit CHR '':''" "tz \<noteq> 0 \<Longrightarrow> at2 s 26 (zone_minutes tz)"
  shows "parse_offset s 22 = Some (- sint tz)"
proof (cases "tz = 0")
  case False
  have h: "isdigit (s 23)" "isdigit (s 24)" "number2 s 23 = zone_hours tz"
    using at2 [OF assms(3) [OF False]] by simp_all
  have mi: "isdigit (s 26)" "isdigit (s 27)" "number2 s 26 = zone_minutes tz"
    using at2 [OF assms(5) [OF False]] by simp_all
  have "s 22 = zone_sign tz" using assms(2) False by simp
  then show ?thesis
    using h mi assms(4) [OF False] zone_sign_minutes [OF tz]
    by (auto simp: parse_offset_def zone_sign_def lit_codes split: if_splits)
qed (use assms in \<open>simp add: parse_offset_def lit_codes\<close>)

lemma parse_rfc3339_text:
  assumes v: "cellRtcCheckValid_value d = CELL_OK" and tz: "\<bar>sint tz\<bar> < 6000"
    and s: "starts_with s (rfc3339_text d tz)"
  shows "parse_rfc3339 s =
    Some (Inr (d\<lparr>microsecond := of_nat (unat (microsecond d) div 10000 * 10000)\<rparr>, - sint tz))"
proof -
  note f = rfc3339_fields [OF assms]
  have "\<not> isdigit (s 22)" using f(14) by (simp add: zone_sign_def lit_codes not_digits)
  then have "parse_fraction s 20 100000 0 = Some (of_nat (unat (microsecond d) div 10000 * 10000), 22)"
    using parse_fraction_two f(7) by blast
  moreover have "parse_offset s 22 = Some (- sint tz)" by (rule parse_offset_text [OF tz f(14-17)])
  ultimately show ?thesis
    using at4 [OF f(1)] at2 [OF f(2)] at2 [OF f(3)] at2 [OF f(4)] at2 [OF f(5)] at2 [OF f(6)] f(8-13)
    by (simp add: parse_rfc3339_def)
qed

lemma truncated_tick:
  assumes t: "unat t div 86400000000 < days_before 9999" and d: "d = tick_to_date_time t"
    and k: "k dvd 1000000" "k \<noteq> 0" and d': "d' = d\<lparr>microsecond := of_nat (unat (microsecond d) div k * k)\<rparr>"
  shows "date_time_to_tick d' = t - of_nat (unat t mod k)"
proof -
  define us where "us = unat (microsecond d)"
  have v: "cellRtcCheckValid_value d = CELL_OK" using tick_check_valid [OF t] d by simp
  then have vd: "valid_date (unat (year d)) (unat (month d)) (unat (day d))" and us: "us < 1000000"
    by (simp_all add: check_valid_iff us_def)
  define X where "X = tick_value (day_number (unat (year d)) (unat (month d)) (unat (day d)))
    (unat (hour d)) (unat (minute d)) (unat (second d)) 0"
  have X: "tick_value (day_number (unat (year d)) (unat (month d)) (unat (day d)))
    (unat (hour d)) (unat (minute d)) (unat (second d)) u = X + u" for u
    by (simp add: X_def tick_value_def)
  have "1000000 dvd X" by (simp add: X_def tick_value_def)
  then have "k dvd X" using k(1) by (rule dvd_trans [rotated])
  have "unat t div 86400000000 < days_before 65535" using t by (simp add: days_before_9999 days_before_65535)
  then have "date_time_to_tick d = t" unfolding d by (rule tick_roundtrip)
  then have "unat t = X + us" using valid_tick [OF vd] by (simp only: X us_def)
  then have tk: "unat t mod k = us mod k" using \<open>k dvd X\<close> by (auto elim!: dvdE)
  have "us div k * k < 4294967296" using us div_times_less_eq_dividend [of us k] by linarith
  then have "unat (of_nat (us div k * k) :: u32) = us div k * k"
    by (simp add: unat_of_nat del: of_nat_mult)
  then have "unat (date_time_to_tick d') = X + us div k * k"
    using valid_tick [of d'] vd X by (simp add: d' us_def del: of_nat_mult)
  also have "\<dots> = unat t - us mod k"
    using \<open>unat t = X + us\<close> div_mult_mod_eq [of us k] by linarith
  also have "\<dots> = unat (t - of_nat (us mod k))"
  proof -
    have "us mod k \<le> unat t" using \<open>unat t = X + us\<close> mod_less_eq_dividend [of us k] by linarith
    moreover have "us mod k < 18446744073709551616" using us mod_less_eq_dividend [of us k] by linarith
    ultimately show ?thesis by (subst unat_sub) (simp_all add: word_le_nat_alt unat_of_nat)
  qed
  finally show ?thesis by (simp add: word_unat_eq_iff tk)
qed

lemma rfc3339_length: "length (rfc3339_text d tz) \<le> 2 ^ 32"
  by (simp add: rfc3339_text_def two_def four_def)

lemma format_ok:
  assumes "ok psz" "ok pUtc" "pUtc \<noteq> 0"
    and t: "t = ld_be64 m pUtc + scast tz * 60000000" "unat t div 86400000000 < days_before 9999"
  shows "format_with text_of h ok psz pUtc tz m = (CELL_OK, st_bytes m psz (text_of (tick_to_date_time t) tz))"
  using assms tick_check_valid [OF t(2)] by (simp add: format_with_def zone_tick_def Let_def mult.assoc)

lemma store_utc_ok:
  assumes "ok q" "year d \<noteq> 0" "year d < 10000"
  shows "ld_be64 (store_utc ok q d minutes m) q = date_time_to_tick d + minutes * 60000000"
  using assms by (simp add: store_utc_def GetTick_from_var_def add_minutes.add_ok cell_be64.ld_st not_less[symmetric])

text \<open>
  C39: a tick printed as RFC 3339 text in a zone less than 100 hours away, where its date is in the years 1 to 9999, and parsed again is the same
  tick cut to hundredths of a second.
\<close>

theorem rfc3339_roundtrip:
  assumes ok: "ok psz" "ok pUtc" "pUtc \<noteq> 0" "ok q" and tz: "\<bar>sint tz\<bar> < 6000"
    and t: "t = ld_be64 m pUtc + scast tz * 60000000" "unat t div 86400000000 < days_before 9999"
    and r: "r = cellRtcFormatRfc3339 h ok psz pUtc tz m"
  shows "fst r = CELL_OK \<and> (\<exists>m'. cellRtcParseDateTime sc ok q psz (snd r) = Some (CELL_OK, m')
    \<and> ld_be64 m' q = ld_be64 m pUtc - of_nat (unat t mod 10000))"
proof -
  define d where "d = tick_to_date_time t"
  define d' where "d' = d\<lparr>microsecond := of_nat (unat (microsecond d) div 10000 * 10000)\<rparr>"
  have v: "cellRtcCheckValid_value d = CELL_OK" using tick_check_valid [OF t(2)] by (simp add: d_def)
  have r': "r = (CELL_OK, st_bytes m psz (rfc3339_text d tz))"
    unfolding r cellRtcFormatRfc3339_def d_def by (rule format_ok [where ok = ok, OF ok(1-3) t])
  define s where "s = gstr (snd r) psz"
  have sw: "starts_with s (rfc3339_text d tz)"
    using starts_with_st_bytes [OF rfc3339_length] by (simp add: s_def r')
  have "digits4 s 0" by (rule at4 [OF rfc3339_fields(1) [OF v tz sw]])
  then have "skip_blanks s 0 = Some 0"
    by (intro skip_blanks_stop) (auto simp: digits4_def isblank_def isdigit_def word_le_nat_alt)
  then have "cellRtcParseDateTime sc ok q psz (snd r) = Some (CELL_OK, store_utc ok q d' (word_of_int (- sint tz)) (snd r))"
    using \<open>digits4 s 0\<close> ok parse_rfc3339_text [OF v tz sw]
    by (simp add: cellRtcParseDateTime_def cellRtcParseRfc3339_def Let_def d'_def flip: s_def)
  moreover have "year d' \<noteq> 0 \<and> year d' < 10000"
    using v by (auto simp: check_valid_iff valid_date_def d'_def word_less_nat_alt)
  then have "ld_be64 (store_utc ok q d' (word_of_int (- sint tz)) (snd r)) q
      = t - of_nat (unat t mod 10000) + word_of_int (- sint tz) * 60000000"
    using store_utc_ok [of ok q d'] ok truncated_tick [OF t(2) d_def _ _ d'_def] by simp
  then have "ld_be64 (store_utc ok q d' (word_of_int (- sint tz)) (snd r)) q = ld_be64 m pUtc - of_nat (unat t mod 10000)"
    by (simp add: t(1))
  ultimately show ?thesis by (simp add: r')
qed

definition format_mem :: vmem where
  "format_mem = st_be64 (\<lambda>_. 0) 0x100 RTC_MAGIC_OFFSET"

lemma format_mem: "ld_be64 format_mem 0x100 = RTC_MAGIC_OFFSET"
  by (simp add: format_mem_def cell_be64.ld_st)

lemma format_mem_tick: "unat (RTC_MAGIC_OFFSET + scast (330 :: u32) * 60000000) div 86400000000 < days_before 9999"
  by (simp add: RTC_MAGIC_OFFSET_def days_before_9999)

theorem rfc3339_roundtrip_witness:
  "let r = cellRtcFormatRfc3339 sample_host (\<lambda>_. True) 0x200 0x100 330 format_mem in
   fst r = CELL_OK \<and> (\<exists>m'. cellRtcParseDateTime True (\<lambda>_. True) 0x300 0x200 (snd r) = Some (CELL_OK, m')
     \<and> ld_be64 m' 0x300 = ld_be64 format_mem 0x100
         - of_nat (unat (ld_be64 format_mem 0x100 + scast (330 :: u32) * 60000000) mod 10000))"
  unfolding Let_def
  by (rule rfc3339_roundtrip [where ok = "\<lambda>_. True", OF TrueI TrueI _ TrueI _ refl _ refl])
    (simp_all add: format_mem format_mem_tick [simplified])

section \<open>RFC 2822\<close>

lemma weekday_range:
  assumes "cellRtcCheckValid_value d = CELL_OK"
  shows "nat (sint (cellRtcGetDayOfWeek (ucast (year d)) (ucast (month d)) (ucast (day d)))) < 7"
  using weekday_correct [of "unat (year d)" "unat (month d)" "unat (day d)"] assms by (simp add: check_valid_iff)

lemma weekday_cases:
  assumes "w < (7::nat)"
  obtains "w = 0" | "w = 1" | "w = 2" | "w = 3" | "w = 4" | "w = 5" | "w = 6"
  using assms by atomize_elim presburger

definition short_at :: "gstring \<Rightarrow> u32 \<Rightarrow> string \<Rightarrow> bool" where
  "short_at s pos name \<longleftrightarrow> s pos = toupper (lit (name ! 0)) \<and> s (pos + 1) = lit (name ! 1) \<and> s (pos + 2) = lit (name ! 2)"

lemma parse_weekday:
  assumes "w < 7" "short_at s 0 (WEEKDAY_NAMES ! w)" "s 3 = lit CHR '',''"
  shows "rtcParseName s 0 WEEKDAY_NAMES True = (w, 3)"
  using assms
  by (cases w rule: weekday_cases)
    (simp_all add: short_at_def rtcParseName_def WEEKDAY_NAMES_def tolower_def toupper_def lit_def word_le_nat_alt)

lemma parse_month:
  assumes "w < 12" "short_at s 8 (MONTH_NAMES ! w)" "s 11 = lit CHR '' ''"
  shows "rtcParseName s 8 MONTH_NAMES True = (w, 11)"
  using assms
  by (cases w rule: month_cases)
    (simp_all add: short_at_def rtcParseName_def MONTH_NAMES_def tolower_def toupper_def lit_def word_le_nat_alt)

lemma tolower_digit: "isdigit c \<Longrightarrow> tolower c = c"
  by (simp add: isdigit_def tolower_def word_le_nat_alt)

lemma digit_no_letter: "isdigit c \<Longrightarrow> 0x61 \<le> d \<Longrightarrow> c \<noteq> d"
  by (auto simp: isdigit_def word_le_nat_alt)

lemma parse_no_name:
  assumes "isdigit (s pos)" "list_all (\<lambda>name. name \<noteq> [] \<and> 0x61 \<le> lit (hd name)) names"
  shows "parse_name s pos short names i = (i + length names, pos)"
  using assms(2)
proof (induction names arbitrary: i)
  case (Cons name names)
  then obtain c cs where name: "name = c # cs" "0x61 \<le> lit c" by (cases name) auto
  have "tolower (s pos) \<noteq> lit c"
    using tolower_digit [OF assms(1)] digit_no_letter [OF assms(1) name(2)] by simp
  then have "match_len s pos name = 0" using name by simp
  then show ?case using Cons name by simp
qed simp

lemma parse_no_month: "isdigit (s pos) \<Longrightarrow> rtcParseName s pos MONTH_NAMES True = (12, pos)"
  unfolding rtcParseName_def
  by (subst parse_no_name) (simp_all add: MONTH_NAMES_def lit_def word_le_nat_alt)

lemma parse_component:
  assumes "at2 s pos n"
  shows "rtcParseComponent s pos 0 = Some (of_nat n, pos + 2)"
    and "delimiter \<noteq> 0 \<Longrightarrow> s p = delimiter \<Longrightarrow> pos = p + 1 \<Longrightarrow> rtcParseComponent s p delimiter = Some (of_nat n, p + 3)"
  using at2 [OF assms] by (auto simp: rtcParseComponent_def number2_def Let_def)

text \<open>The minutes the parser reads from the zone that the printer wrote for \<open>tz\<close>.\<close>

definition zone_read :: "int \<Rightarrow> int" where
  "zone_read tz = sgn tz * (\<bar>tz\<bar> div 60 * 60 + (\<bar>tz\<bar> div 60 * 100 + \<bar>tz\<bar> mod 60) mod 60)"

lemma parse_zone_text:
  assumes tz: "\<bar>sint tz\<bar> < 6000" and "s 25 = lit CHR '' ''" "s 26 = zone_sign tz"
    and h: "at2 s 27 (zone_hours tz)" and mi: "at2 s 29 (zone_minutes tz)"
  shows "parse_zone s 25 = Some (zone_read (sint tz))"
proof -
  define a where "a = nat \<bar>sint tz\<bar>"
  have z: "zone_hours tz = a div 60" "zone_minutes tz = a mod 60" and a: "\<bar>sint tz\<bar> = int a"
    using zone_parts [OF tz] by (simp_all add: a_def)
  have d: "digits4 s 27" using at2 [OF h] at2 [OF mi] by (simp add: digits4_def)
  have n: "number4 s 27 = a div 60 * 100 + a mod 60"
    using at2(3) [OF h] at2(3) [OF mi] z by (simp add: number4_def number2_def)
  have "a mod 60 < 100" by (rule less_trans [of _ 60]) simp_all
  then have n': "int (number4 s 27) div 100 * 60 + int (number4 s 27) mod 60
      = int a div 60 * 60 + (int a div 60 * 100 + int a mod 60) mod 60"
    unfolding n by (simp add: zdiv_int zmod_int)
  show ?thesis
  proof (cases "sint tz < 0")
    case True
    then show ?thesis
      using assms(2,3) d n' a by (simp add: parse_zone_def zone_sign_def lit_codes Let_def zone_read_def)
  next
    case False
    then have "parse_zone s 25 = Some (int (number4 s 27) div 100 * 60 + int (number4 s 27) mod 60)"
      using assms(2,3) d by (simp add: parse_zone_def zone_sign_def lit_codes Let_def)
    then show ?thesis using False a unfolding n' by (cases "a = 0") (simp_all add: zone_read_def)
  qed
qed

lemma rfc2822_fields:
  assumes v: "cellRtcCheckValid_value d = CELL_OK" and tz: "\<bar>sint tz\<bar> < 6000"
    and s: "starts_with s (rfc2822_text d tz)"
  shows "short_at s 0 (WEEKDAY_NAMES ! nat (sint (cellRtcGetDayOfWeek (ucast (year d)) (ucast (month d)) (ucast (day d)))))"
    "s 3 = lit CHR '',''" "s 4 = lit CHR '' ''" "at2 s 5 (unat (day d))" "s 7 = lit CHR '' ''"
    "short_at s 8 (MONTH_NAMES ! (unat (month d) - 1))" "s 11 = lit CHR '' ''" "at4 s 12 (unat (year d))"
    "s 16 = lit CHR '' ''" "at2 s 17 (unat (hour d))" "s 19 = lit CHR '':''" "at2 s 20 (unat (minute d))"
    "s 22 = lit CHR '':''" "at2 s 23 (unat (second d))" "s 25 = lit CHR '' ''" "s 26 = zone_sign tz"
    "at2 s 27 (zone_hours tz)" "at2 s 29 (zone_minutes tz)"
proof -
  note bytes = s [unfolded rfc2822_text_def two_def four_def short_name_def Let_def append.simps]
  note simps = starts_with_numeral [OF bytes] at2_def at4_def short_at_def valid_bounds [OF v] zone_bounds [OF tz]
  show "short_at s 0 (WEEKDAY_NAMES ! nat (sint (cellRtcGetDayOfWeek (ucast (year d)) (ucast (month d)) (ucast (day d)))))"
    "s 3 = lit CHR '',''" "s 4 = lit CHR '' ''" "at2 s 5 (unat (day d))" "s 7 = lit CHR '' ''"
    "short_at s 8 (MONTH_NAMES ! (unat (month d) - 1))" "s 11 = lit CHR '' ''" "at4 s 12 (unat (year d))"
    "s 16 = lit CHR '' ''" "at2 s 17 (unat (hour d))" "s 19 = lit CHR '':''" "at2 s 20 (unat (minute d))"
    "s 22 = lit CHR '':''" "at2 s 23 (unat (second d))" "s 25 = lit CHR '' ''" "s 26 = zone_sign tz"
    "at2 s 27 (zone_hours tz)" "at2 s 29 (zone_minutes tz)"
    by (simp_all add: simps)
qed

lemma parse_rfc2822_text:
  assumes v: "cellRtcCheckValid_value d = CELL_OK" and tz: "\<bar>sint tz\<bar> < 6000"
    and s: "starts_with s (rfc2822_text d tz)"
  shows "parse_rfc2822 s 5 = Some (d\<lparr>microsecond := 0\<rparr>, zone_read (sint tz))"
proof -
  note f = rfc2822_fields [OF assms]
  have mo: "unat (month d) - 1 < 12" "of_nat (unat (month d) - 1 + 1) = month d"
    using v by (auto simp: check_valid_iff valid_date_def simp del: of_nat_add)
  have y: "parse_year s 12 = Some (year d, 16)"
    using at4 [OF f(8)] by (simp add: parse_year_def digits4_def)
  have c: "rtcParseComponent s 5 0 = Some (day d, 7)" "rtcParseComponent s 16 (lit CHR '' '') = Some (hour d, 19)"
    "rtcParseComponent s 19 (lit CHR '':'') = Some (minute d, 22)" "parse_second s 22 = Some (second d, 25)"
    using parse_component(1) [OF f(4)] parse_component(2) [OF f(10) _ f(9)] parse_component(2) [OF f(12) _ f(11)]
      parse_component(2) [OF f(14) _ f(13)] f(13)
    by (simp_all add: lit_codes parse_second_def)
  have "\<not> hour d > 25" using valid_bounds(5) [OF v] by (simp add: word_less_nat_alt)
  then show ?thesis
    using mo y c parse_month [OF mo(1) f(6,7)] parse_zone_text [OF tz f(15-18)] f(5,7)
    by (simp add: parse_rfc2822_def space_or_hyphen_def MONTH_NAMES_def)
qed

lemma rfc2822_length: "length (rfc2822_text d tz) \<le> 2 ^ 32"
  by (simp add: rfc2822_text_def two_def four_def short_name_def Let_def)

lemma weekday_letter: "w < 7 \<Longrightarrow> short_at s 0 (WEEKDAY_NAMES ! w) \<Longrightarrow> \<not> isdigit (s 0) \<and> \<not> isblank (s 0)"
  by (cases w rule: weekday_cases)
    (simp_all add: short_at_def WEEKDAY_NAMES_def lit_def toupper_def isdigit_def isblank_def word_le_nat_alt)

lemma parse_date_time_rfc2822:
  assumes v: "cellRtcCheckValid_value d = CELL_OK" and tz: "\<bar>sint tz\<bar> < 6000"
    and s: "starts_with (gstr m psz) (rfc2822_text d tz)" and "ok q" "ok psz"
  shows "cellRtcParseDateTime sc ok q psz m =
    Some (CELL_OK, store_utc ok q (d\<lparr>microsecond := 0\<rparr>) (word_of_int (- zone_read (sint tz))) m)"
proof -
  define s where "s = gstr m psz"
  note f = rfc2822_fields [OF v tz s, folded s_def]
  let ?w = "nat (sint (cellRtcGetDayOfWeek (ucast (year d)) (ucast (month d)) (ucast (day d))))"
  have w: "?w < 7"
    by (rule weekday_range [OF v])
  have start: "skip_blanks s 0 = Some 0" "\<not> digits4 s 0"
    using weekday_letter [OF w f(1)] by (simp_all add: skip_blanks_stop digits4_def)
  have "isdigit (s 5)" using at2 [OF f(4)] by simp
  then have "\<not> isblank (s 5)" by (auto simp: isdigit_def isblank_def word_le_nat_alt)
  then have "skip_blanks s 4 = Some 5"
    using skip_blanks_step [of s 4] f(3) by (simp add: isblank_def lit_codes skip_blanks_stop)
  then show ?thesis
    using start parse_weekday [OF w f(1,2)] parse_no_month [where s = s, OF \<open>isdigit (s 5)\<close>] parse_rfc2822_text [OF v tz s] w f(2) assms(4,5)
    by (simp add: cellRtcParseDateTime_def rtcParseRfc2822_def Let_def WEEKDAY_NAMES_def MONTH_NAMES_def flip: s_def)
qed

text \<open>
  C40: a tick printed as RFC 2822 text in a zone less than 100 hours away, where its date is in the years 1 to 9999, and parsed again is the tick cut to whole seconds, shifted by
  the error the parser makes in the minutes of the zone: it takes the four digits modulo 60 instead of
  100, so only zones whose hours are a multiple of three are read back as they were written.
\<close>

theorem rfc2822_roundtrip:
  assumes ok: "ok psz" "ok pUtc" "pUtc \<noteq> 0" "ok q" and tz: "\<bar>sint tz\<bar> < 6000"
    and t: "t = ld_be64 m pUtc + scast tz * 60000000" "unat t div 86400000000 < days_before 9999"
    and r: "r = cellRtcFormatRfc2822 h ok psz pUtc tz m"
  shows "fst r = CELL_OK \<and> (\<exists>m'. cellRtcParseDateTime sc ok q psz (snd r) = Some (CELL_OK, m')
    \<and> ld_be64 m' q = ld_be64 m pUtc - of_nat (unat t mod 1000000)
        + word_of_int (sint tz - zone_read (sint tz)) * 60000000)"
proof -
  define d where "d = tick_to_date_time t"
  have v: "cellRtcCheckValid_value d = CELL_OK" using tick_check_valid [OF t(2)] by (simp add: d_def)
  have r': "r = (CELL_OK, st_bytes m psz (rfc2822_text d tz))"
    unfolding r cellRtcFormatRfc2822_def d_def by (rule format_ok [where ok = ok, OF ok(1-3) t])
  have "starts_with (gstr (snd r) psz) (rfc2822_text d tz)"
    using starts_with_st_bytes [OF rfc2822_length] by (simp add: r')
  note parse = parse_date_time_rfc2822 [OF v tz this, where ok = ok and q = q and sc = sc, OF ok(4,1)]
  have "d\<lparr>microsecond := 0\<rparr> = d\<lparr>microsecond := of_nat (unat (microsecond d) div 1000000 * 1000000)\<rparr>"
    using valid_bounds(8) [OF v] by simp
  from truncated_tick [OF t(2) d_def _ _ this]
  have "date_time_to_tick (d\<lparr>microsecond := 0\<rparr>) = t - of_nat (unat t mod 1000000)" by simp
  moreover have "year d \<noteq> 0 \<and> year d < 10000"
    using v by (auto simp: check_valid_iff valid_date_def word_less_nat_alt)
  ultimately have "ld_be64 (store_utc ok q (d\<lparr>microsecond := 0\<rparr>) (word_of_int (- zone_read (sint tz))) (snd r)) q
      = ld_be64 m pUtc - of_nat (unat t mod 1000000) + word_of_int (sint tz - zone_read (sint tz)) * 60000000"
    using ok(4) by (simp add: store_utc_ok t(1) algebra_simps)
  then show ?thesis using parse by (simp add: r')
qed

theorem rfc2822_roundtrip_witness:
  "zone_read 330 = 350 \<and> (let r = cellRtcFormatRfc2822 sample_host (\<lambda>_. True) 0x200 0x100 330 format_mem in
   fst r = CELL_OK \<and> (\<exists>m'. cellRtcParseDateTime True (\<lambda>_. True) 0x300 0x200 (snd r) = Some (CELL_OK, m')
     \<and> ld_be64 m' 0x300 = ld_be64 format_mem 0x100
         - of_nat (unat (ld_be64 format_mem 0x100 + scast (330 :: u32) * 60000000) mod 1000000)
         + word_of_int (sint (330 :: u32) - zone_read (sint (330 :: u32))) * 60000000))"
proof (intro conjI)
  show "zone_read 330 = 350" by (simp add: zone_read_def)
qed (unfold Let_def,
    rule rfc2822_roundtrip [where ok = "\<lambda>_. True", OF TrueI TrueI _ TrueI _ refl _ refl],
    simp_all add: format_mem format_mem_tick [simplified])

end
