(* ===== verification/Lv2_Queue.thy ===== *)
theory Lv2_Queue
  imports Prelude
begin

text \<open>
  The waiting queues of kernel objects (\<^verbatim>\<open>rpcs3/Emu/Cell/lv2/sys_sync.h\<close>): threads linked through
  \<^verbatim>\<open>next_cpu\<close>, the newest first. The loops over a list are partial functions, since a cyclic list
  would never end; on a list without a cycle they are shown to end and to do what the same operation
  does on a HOL list.
\<close>

section \<open>Threads and priorities\<close>

type_synonym tid = nat

text \<open>The bit fields of \<^verbatim>\<open>ppu_thread::ppu_prio_t\<close>; both numbers are signed.\<close>

record ppu_prio =
  prio :: "13 word"
  order :: "50 word"
  preserve_bit :: bool

text \<open>\<open>again\<close> is the flag \<^verbatim>\<open>cpu_flag::again\<close> of a thread that was stopped while it waited.\<close>

record ppu_thread =
  next_cpu :: "tid option"
  tprio :: ppu_prio
  again :: bool

type_synonym threads = "tid \<Rightarrow> ppu_thread"

definition SYS_SYNC_FIFO :: u32 where
  "SYS_SYNC_FIFO = 1"

definition SYS_SYNC_PRIORITY :: u32 where
  "SYS_SYNC_PRIORITY = 2"

definition SYS_SYNC_PRIORITY_INHERIT :: u32 where
  "SYS_SYNC_PRIORITY_INHERIT = 3"

definition set_next :: "tid \<Rightarrow> tid option \<Rightarrow> threads \<Rightarrow> threads" where
  "set_next t v h = h(t := (h t)\<lparr>next_cpu := v\<rparr>)"

text \<open>A link is the variable \<^verbatim>\<open>first\<close> itself (\<open>None\<close>) or the \<^verbatim>\<open>next_cpu\<close> of a thread.\<close>

definition set_link :: "tid option \<Rightarrow> tid option \<Rightarrow> tid option \<times> threads \<Rightarrow> tid option \<times> threads" where
  "set_link parent v = (\<lambda>(first, h). case parent of None \<Rightarrow> (v, h) | Some p \<Rightarrow> (first, set_next p v h))"

section \<open>Operations\<close>

text \<open>The thread whose successor is the object, if there is one.\<close>

partial_function (option) unqueue_loop :: "threads \<Rightarrow> tid option \<Rightarrow> tid \<Rightarrow> tid option option" where
  [code]: "unqueue_loop h it object =
     (case it of
        None \<Rightarrow> Some None
      | Some t \<Rightarrow> if next_cpu (h t) = Some object then Some (Some t) else unqueue_loop h (next_cpu (h t)) object)"

definition unqueue :: "bool \<Rightarrow> tid \<Rightarrow> tid option \<times> threads \<Rightarrow> (tid option \<times> tid option \<times> threads) option" where
  "unqueue modify_node object = (\<lambda>(first, h).
     if first = Some object then
       Some (Some object, next_cpu (h object), if modify_node then set_next object None h else h)
     else (case unqueue_loop h first object of
         None \<Rightarrow> None
       | Some None \<Rightarrow> Some (None, first, h)
       | Some (Some it) \<Rightarrow>
           (let h = set_next it (next_cpu (h object)) h in
            Some (Some object, first, if modify_node then set_next object None h else h))))"

partial_function (option) fifo_loop :: "threads \<Rightarrow> tid option \<Rightarrow> tid \<Rightarrow> (tid option \<times> tid) option" where
  [code]: "fifo_loop h parent it =
     (case next_cpu (h it) of
        Some next \<Rightarrow> fifo_loop h (Some it) next
      | None \<Rightarrow> Some (parent, it))"

definition before_prio :: "ppu_prio \<Rightarrow> ppu_prio \<Rightarrow> bool" where
  "before_prio a b \<longleftrightarrow> sint (prio a) < sint (prio b) \<or> prio a = prio b \<and> sint (order a) < sint (order b)"

partial_function (option) prio_loop :: "threads \<Rightarrow> tid option \<Rightarrow> tid \<Rightarrow> ppu_prio \<Rightarrow> tid \<Rightarrow> (tid option \<times> tid) option" where
  [code]: "prio_loop h parent found p it =
     (case next_cpu (h it) of
        None \<Rightarrow> Some (parent, found)
      | Some next \<Rightarrow>
          if before_prio (tprio (h next)) p then prio_loop h (Some it) next (tprio (h next)) next
          else prio_loop h parent found p next)"

definition schedule :: "u32 \<Rightarrow> bool \<Rightarrow> tid option \<times> threads \<Rightarrow> (tid option \<times> tid option \<times> threads) option" where
  "schedule protocol modify_node = (\<lambda>(first, h).
     case first of
       None \<Rightarrow> Some (None, first, h)
     | Some it \<Rightarrow>
         if protocol = SYS_SYNC_FIFO then
           (case fifo_loop h None it of
              None \<Rightarrow> None
            | Some (parent_found, it) \<Rightarrow>
                Some (Some it, if again (h it) then (first, h) else set_link parent_found None (first, h)))
         else
           (case prio_loop h None it (tprio (h it)) it of
              None \<Rightarrow> None
            | Some (parent_found, found) \<Rightarrow>
                Some (Some found, if again (h found) then (first, h)
                  else (case set_link parent_found (next_cpu (h found)) (first, h) of
                    (first, h) \<Rightarrow> (first, if modify_node then set_next found None h else h)))))"

text \<open>Whether a waiting thread was stopped: the calls that wake threads give up then and are repeated later.\<close>

partial_function (option) any_again :: "threads \<Rightarrow> tid option \<Rightarrow> bool option" where
  [code]: "any_again h cpu = (case cpu of None \<Rightarrow> Some False
     | Some t \<Rightarrow> if again (h t) then Some True else any_again h (next_cpu (h t)))"

text \<open>The tag is the counter \<^verbatim>\<open>g_priority_order_tag\<close>.\<close>

definition emplace :: "tid \<Rightarrow> tid option \<times> threads \<times> u64 \<Rightarrow> tid option \<times> threads \<times> u64" where
  "emplace object = (\<lambda>(first, h, tag).
     let h = set_next object first h; tag = tag + 1; p = tprio (h object);
         p = (if preserve_bit p then p\<lparr>preserve_bit := False\<rparr> else p\<lparr>order := ucast tag\<rparr>)
     in (Some object, h(object := (h object)\<lparr>tprio := p\<rparr>), tag))"

section \<open>Lists in memory\<close>

fun chain :: "threads \<Rightarrow> tid option \<Rightarrow> tid list \<Rightarrow> bool" where
  "chain h p [] \<longleftrightarrow> p = None"
| "chain h p (t # ts) \<longleftrightarrow> p = Some t \<and> chain h (next_cpu (h t)) ts"

fun path :: "threads \<Rightarrow> tid option \<Rightarrow> tid list \<Rightarrow> tid option \<Rightarrow> bool" where
  "path h p [] q \<longleftrightarrow> p = q"
| "path h p (t # ts) q \<longleftrightarrow> p = Some t \<and> path h (next_cpu (h t)) ts q"

lemma chain_append: "chain h p (xs @ ys) \<longleftrightarrow> (\<exists>q. path h p xs q \<and> chain h q ys)"
  by (induction xs arbitrary: p) auto

lemma chain_unique: "chain h p xs \<Longrightarrow> chain h p ys \<Longrightarrow> xs = ys"
  by (induction xs arbitrary: p ys) (case_tac ys; auto)+

lemma chain_distinct: "chain h p xs \<Longrightarrow> distinct xs"
proof (induction xs arbitrary: p)
  case (Cons t ts)
  have "t \<notin> set ts"
  proof
    assume "t \<in> set ts"
    then obtain as bs where "ts = as @ t # bs" by (auto dest: split_list)
    with Cons.prems have "chain h (Some t) (t # bs)" by (auto simp: chain_append)
    with Cons.prems have "t # bs = t # ts" using chain_unique [of h "Some t" "t # bs" "t # ts"] by simp
    then show False using \<open>ts = as @ t # bs\<close> by simp
  qed
  then show ?case using Cons by auto
qed simp

lemma path_cong: "(\<And>t. t \<in> set xs \<Longrightarrow> next_cpu (h' t) = next_cpu (h t)) \<Longrightarrow> path h' p xs q = path h p xs q"
  by (induction xs arbitrary: p) auto

lemma chain_cong: "(\<And>t. t \<in> set xs \<Longrightarrow> next_cpu (h' t) = next_cpu (h t)) \<Longrightarrow> chain h' p xs = chain h p xs"
  by (induction xs arbitrary: p) auto

lemma set_next_next [simp]: "next_cpu (set_next t v h u) = (if u = t then v else next_cpu (h u))"
  and set_next_tprio [simp]: "tprio (set_next t v h u) = tprio (h u)"
  and set_next_again [simp]: "again (set_next t v h u) = again (h u)"
  by (simp_all add: set_next_def)

lemma path_append: "path h p (xs @ ys) q \<longleftrightarrow> (\<exists>r. path h p xs r \<and> path h r ys q)"
  by (induction xs arbitrary: p) auto

text \<open>The link that leads to the rest of a list behind the threads \<open>as\<close>.\<close>

definition link_of :: "tid list \<Rightarrow> tid option" where
  "link_of as = (if as = [] then None else Some (last as))"

lemma unlink:
  assumes c: "chain h first (as @ t # bs)" and l: "set_link (link_of as) (next_cpu (h t)) (first, h) = (first', h')"
  shows "chain h' first' (as @ bs)" "u \<notin> set as \<Longrightarrow> h' u = h u" "tprio (h' u) = tprio (h u)" "again (h' u) = again (h u)"
proof -
  have d: "distinct (as @ t # bs)" using chain_distinct [OF c] .
  show "chain h' first' (as @ bs)"
  proof (cases as rule: rev_cases)
    case Nil
    then show ?thesis using c l by (auto simp: set_link_def link_of_def)
  next
    case (snoc as' q)
    then have h': "h' = set_next q (next_cpu (h t)) h" "first' = first" using l by (auto simp: set_link_def link_of_def)
    obtain r where r: "path h first as' (Some q)" "next_cpu (h q) = Some t" "chain h (next_cpu (h t)) bs"
      using c by (auto simp: snoc chain_append path_append)
    have "path h' first as' (Some q)" using r(1) d snoc by (subst path_cong [of _ _ h]) (auto simp: h')
    moreover have "chain h' (next_cpu (h t)) bs" using r(3) d snoc by (subst chain_cong [of _ _ h]) (auto simp: h')
    ultimately show ?thesis by (auto simp: snoc h'(2) chain_append path_append) (simp add: h'(1))
  qed
  show "h' u = h u" if "u \<notin> set as" using l that by (auto simp: set_link_def link_of_def set_next_def split: if_splits)
  show "tprio (h' u) = tprio (h u)" "again (h' u) = again (h u)"
    using l by (auto simp: set_link_def link_of_def split: if_splits)
qed

lemma unqueue_loop_found:
  "chain h p (as @ it # object # bs) \<Longrightarrow> unqueue_loop h p object = Some (Some it)"
proof (induction as arbitrary: p)
  case Nil
  then show ?case by (subst unqueue_loop.simps) simp
next
  case (Cons a as)
  have "object \<noteq> a" "chain h (next_cpu (h a)) (as @ it # object # bs)" "p = Some a"
    using Cons.prems chain_distinct [OF Cons.prems] by auto
  moreover have "next_cpu (h a) \<noteq> Some object"
    using \<open>chain h (next_cpu (h a)) (as @ it # object # bs)\<close> chain_distinct [OF Cons.prems] by (cases as) auto
  ultimately show ?case using Cons.IH by (subst unqueue_loop.simps) simp
qed

lemma unqueue_loop_absent:
  "chain h p xs \<Longrightarrow> object \<notin> set (tl xs) \<Longrightarrow> unqueue_loop h p object = Some None"
proof (induction xs arbitrary: p)
  case (Cons a xs)
  have "next_cpu (h a) \<noteq> Some object" using Cons.prems by (cases xs) auto
  moreover have "object \<notin> set (tl xs)" using Cons.prems by (cases xs) auto
  ultimately show ?case using Cons by (subst unqueue_loop.simps) auto
qed (subst unqueue_loop.simps, simp)

lemma fifo_loop_last:
  "chain h (Some it) (it # ys) \<Longrightarrow>
     fifo_loop h (link_of as) it = Some (link_of (as @ butlast (it # ys)), last (it # ys))"
proof (induction ys arbitrary: as it)
  case Nil
  then show ?case by (subst fifo_loop.simps) simp
next
  case (Cons y ys)
  then have "fifo_loop h (link_of (as @ [it])) y = Some (link_of ((as @ [it]) @ butlast (y # ys)), last (y # ys))" by simp
  then show ?case using Cons.prems by (subst fifo_loop.simps) (simp add: link_of_def)
qed

lemma before_trans: "before_prio a b \<Longrightarrow> before_prio b c \<Longrightarrow> before_prio a c"
  by (auto simp: before_prio_def)

text \<open>The loop keeps the position of the best thread so far in the part \<open>as @ it # xs\<close> of the list it has seen.\<close>

lemma prio_loop_best:
  "\<lbrakk>chain h (Some it) (it # ys); zs = cs @ found # ds; zs = as @ [it];
    \<forall>u\<in>set zs. \<not> before_prio (tprio (h u)) (tprio (h found))\<rbrakk> \<Longrightarrow>
   \<exists>cs' ds' found'. prio_loop h (link_of cs) found (tprio (h found)) it = Some (link_of cs', found')
     \<and> zs @ ys = cs' @ found' # ds' \<and> (\<forall>u\<in>set (zs @ ys). \<not> before_prio (tprio (h u)) (tprio (h found')))"
proof (induction ys arbitrary: it zs as cs found ds)
  case Nil
  then show ?case by (subst prio_loop.simps) auto
next
  case (Cons y ys)
  have nxt: "next_cpu (h it) = Some y" "chain h (Some y) (y # ys)" using Cons.prems(1) by auto
  show ?case
  proof (cases "before_prio (tprio (h y)) (tprio (h found))")
    case True
    have "\<forall>u\<in>set (zs @ [y]). \<not> before_prio (tprio (h u)) (tprio (h y))"
      using Cons.prems(4) before_trans [OF _ True] by (auto simp: before_prio_def)
    from Cons.IH [OF nxt(2) _ refl this, of zs "[]"]
    show ?thesis using nxt(1) True Cons.prems(3) by (subst prio_loop.simps) (simp add: link_of_def)
  next
    case False
    then have "\<forall>u\<in>set (zs @ [y]). \<not> before_prio (tprio (h u)) (tprio (h found))" using Cons.prems(4) by auto
    from Cons.IH [OF nxt(2) _ refl this, of cs "ds @ [y]"]
    show ?thesis using nxt(1) False Cons.prems(2) by (subst prio_loop.simps) simp
  qed
qed

section \<open>Which thread is scheduled\<close>

text \<open>
  Threads enter at the head with growing tags, so along a queue the tags fall. The tag is stored
  in a signed field of 50 bits: the order is kept as long as it stays below \<open>2 ^ 49\<close>.
\<close>

definition queue_ok :: "threads \<Rightarrow> u64 \<Rightarrow> tid option \<Rightarrow> tid list \<Rightarrow> bool" where
  "queue_ok h tag first xs \<longleftrightarrow> chain h first xs
     \<and> sorted_wrt (\<lambda>a b. sint (order (tprio (h b))) < sint (order (tprio (h a)))) xs
     \<and> (\<forall>t\<in>set xs. sint (order (tprio (h t))) \<le> int (unat tag)) \<and> unat tag < 562949953421312"

lemma schedule_position:
  assumes "chain h first xs" "xs \<noteq> []"
  obtains as t bs where "xs = as @ t # bs"
    "protocol = SYS_SYNC_FIFO \<Longrightarrow> bs = []"
    "protocol \<noteq> SYS_SYNC_FIFO \<Longrightarrow> \<forall>u\<in>set xs. \<not> before_prio (tprio (h u)) (tprio (h t))"
    "schedule protocol modify_node (first, h) = Some (Some t,
       if again (h t) then (first, h)
       else (case set_link (link_of as) (next_cpu (h t)) (first, h) of
         (first, h) \<Rightarrow> (first, if modify_node \<and> protocol \<noteq> SYS_SYNC_FIFO then set_next t None h else h)))"
proof -
  obtain it ys where xs: "xs = it # ys" "first = Some it" using assms by (cases xs) auto
  have c: "chain h (Some it) (it # ys)" using assms(1) xs by simp
  show ?thesis
  proof (cases "protocol = SYS_SYNC_FIFO")
    case True
    have split: "xs = butlast xs @ [last xs]" using assms(2) by simp
    have "next_cpu (h (last xs)) = None" using assms(1) by (subst (asm) split) (auto simp: chain_append)
    moreover have "fifo_loop h None it = Some (link_of (butlast xs), last xs)"
      using fifo_loop_last [OF c, of "[]"] xs by (simp add: link_of_def)
    ultimately show ?thesis
      using that [of "butlast xs" "last xs" "[]"] split True xs(2) by (auto simp: schedule_def split: prod.splits)
  next
    case False
    have start: "\<forall>u\<in>set [it]. \<not> before_prio (tprio (h u)) (tprio (h it))" "link_of [] = None"
      by (simp_all add: before_prio_def link_of_def)
    have xs': "xs = [it] @ ys" using xs(1) by simp
    obtain cs ds t where "prio_loop h None it (tprio (h it)) it = Some (link_of cs, t)" "xs = cs @ t # ds"
      "\<forall>u\<in>set xs. \<not> before_prio (tprio (h u)) (tprio (h t))"
      using prio_loop_best [OF c, of "[it]" "[]" it "[]" "[]", OF _ _ start(1)] unfolding start(2) xs'
      by (metis append_Nil)
    then show ?thesis using that [of cs t ds] False xs(2) by (auto simp: schedule_def)
  qed
qed

text \<open>Who should run next: the longest waiting thread, among those with the best priority unless the queue is FIFO.\<close>

definition chosen :: "u32 \<Rightarrow> threads \<Rightarrow> tid list \<Rightarrow> tid" where
  "chosen protocol h xs =
     (let pr = \<lambda>t. sint (prio (tprio (h t))) in
      if protocol = SYS_SYNC_FIFO then last xs else last (filter (\<lambda>t. pr t = Min (pr ` set xs)) xs))"

lemma chosen_position:
  assumes q: "queue_ok h tag first xs" and xs: "xs = as @ t # bs" and f: "protocol = SYS_SYNC_FIFO \<Longrightarrow> bs = []"
    and best: "protocol \<noteq> SYS_SYNC_FIFO \<Longrightarrow> \<forall>u\<in>set xs. \<not> before_prio (tprio (h u)) (tprio (h t))"
  shows "t = chosen protocol h xs"
proof (cases "protocol = SYS_SYNC_FIFO")
  case False
  define pr where "pr u = sint (prio (tprio (h u)))" for u
  have le: "pr t \<le> pr u" if "u \<in> set xs" for u
    using best [OF False] that by (auto simp: before_prio_def pr_def not_less)
  have "pr u \<noteq> pr t" if "u \<in> set bs" for u
  proof
    assume "pr u = pr t"
    then have "prio (tprio (h u)) = prio (tprio (h t))" by (simp add: pr_def signed_word_eqI)
    moreover have "sint (order (tprio (h u))) < sint (order (tprio (h t)))"
      using q that by (auto simp: queue_ok_def xs sorted_wrt_append)
    ultimately show False using best [OF False] that by (auto simp: before_prio_def xs)
  qed
  moreover have "Min (pr ` set xs) = pr t" using le by (intro Min_eqI) (auto simp: xs)
  ultimately have "filter (\<lambda>u. pr u = Min (pr ` set xs)) xs = filter (\<lambda>u. pr u = pr t) as @ [t]"
    by (auto simp: xs filter_empty_conv)
  then show ?thesis using False by (simp add: chosen_def Let_def flip: pr_def)
qed (use xs f in \<open>simp add: chosen_def\<close>)

text \<open>Taking a thread out keeps the queue in order.\<close>

lemma queue_ok_without:
  assumes q: "queue_ok h tag first (as @ t # bs)" and c: "chain h' first' (as @ bs)" and p: "\<And>u. tprio (h' u) = tprio (h u)"
  shows "queue_ok (if b then set_next t None h' else h') tag first' (remove1 t (as @ t # bs))"
proof -
  have d: "distinct (as @ t # bs)" using q chain_distinct unfolding queue_ok_def by blast
  have "chain (set_next t None h') first' (as @ bs)"
    using c d by (subst chain_cong [of _ _ h']) auto
  moreover have "remove1 t (as @ t # bs) = as @ bs" using d by (simp add: remove1_append)
  ultimately show ?thesis
    using q c by (auto simp: queue_ok_def p sorted_wrt_append)
qed

lemma schedule_chosen:
  assumes q: "queue_ok h tag first xs" "xs \<noteq> []" and t: "t = chosen protocol h xs"
  shows "\<exists>first' h'. schedule protocol modify_node (first, h) = Some (Some t, first', h')
    \<and> queue_ok h' tag first' (if again (h t) then xs else remove1 t xs)"
proof -
  have c: "chain h first xs" using q(1) by (simp add: queue_ok_def)
  obtain as u bs where xs: "xs = as @ u # bs" "protocol = SYS_SYNC_FIFO \<Longrightarrow> bs = []"
      "protocol \<noteq> SYS_SYNC_FIFO \<Longrightarrow> \<forall>v\<in>set xs. \<not> before_prio (tprio (h v)) (tprio (h u))"
    and s: "schedule protocol modify_node (first, h) = Some (Some u,
       if again (h u) then (first, h)
       else (case set_link (link_of as) (next_cpu (h u)) (first, h) of
         (first, h) \<Rightarrow> (first, if modify_node \<and> protocol \<noteq> SYS_SYNC_FIFO then set_next u None h else h)))"
    by (rule schedule_position [OF c q(2), where protocol = protocol and modify_node = modify_node]) (rule that)
  have u: "u = t" using chosen_position [OF q(1) xs] t by simp
  show ?thesis
  proof (cases "again (h t)")
    case False
    obtain first' h' where l: "set_link (link_of as) (next_cpu (h t)) (first, h) = (first', h')" by fastforce
    note un = unlink [OF c [unfolded xs(1) u] l]
    have "queue_ok (if modify_node \<and> protocol \<noteq> SYS_SYNC_FIFO then set_next t None h' else h') tag first' (remove1 t xs)"
      using queue_ok_without [OF q(1) [unfolded xs(1) u] un(1,3)] unfolding xs(1) u .
    then show ?thesis using s l u False by auto
  qed (use s u q(1) in auto)
qed

lemma sint_ucast_small: "uint x < 562949953421312 \<Longrightarrow> sint (ucast x :: 50 word) = uint x" for x :: u64
proof -
  assume "uint x < 562949953421312"
  moreover have "- 562949953421312 \<le> uint x" using uint_ge_0 [of x] by linarith
  ultimately have "signed_take_bit 49 (uint x) = uint x" by (intro signed_take_bit_int_eq_self) simp_all
  then show ?thesis by (simp add: signed_ucast_eq)
qed

lemma emplace_ok:
  assumes q: "queue_ok h tag first xs" and t: "t \<notin> set xs" "\<not> preserve_bit (tprio (h t))" "unat tag + 1 < 562949953421312"
  shows "\<exists>h'. emplace t (first, h, tag) = (Some t, h', tag + 1) \<and> queue_ok h' (tag + 1) (Some t) (t # xs)
    \<and> (\<forall>u. u \<noteq> t \<longrightarrow> h' u = h u) \<and> prio (tprio (h' t)) = prio (tprio (h t)) \<and> again (h' t) = again (h t)"
proof -
  define h' where "h' = h(t := (h t)\<lparr>next_cpu := first, tprio := (tprio (h t))\<lparr>order := ucast (tag + 1)\<rparr>\<rparr>)"
  have tag: "unat (tag + 1) = unat tag + 1" using t(3) by (simp add: unat_word_ariths)
  have "uint (tag + 1) = int (unat tag + 1)" by (simp only: uint_nat tag)
  then have sint: "sint (ucast (tag + 1) :: 50 word) = int (unat tag + 1)"
    using t(3) sint_ucast_small [of "tag + 1"] by linarith
  have same: "h' u = h u" if "u \<in> set xs" for u using that t(1) by (auto simp: h'_def)
  have "chain h' first xs" using q same by (subst chain_cong [of _ _ h]) (auto simp: queue_ok_def)
  moreover have "next_cpu (h' t) = first" "sint (order (tprio (h' t))) = int (unat tag + 1)" by (simp_all add: h'_def sint)
  moreover have "sorted_wrt (\<lambda>a b. sint (order (tprio (h' b))) < sint (order (tprio (h' a)))) xs"
    using q by (intro sorted_wrt_mono_rel [OF _ conjunct1 [OF conjunct2 [OF q [unfolded queue_ok_def]]]]) (simp add: same)
  moreover have "\<forall>u\<in>set xs. sint (order (tprio (h' u))) \<le> int (unat tag)"
    using q by (simp add: queue_ok_def same)
  then have "\<forall>u\<in>set xs. sint (order (tprio (h' u))) \<le> int (unat tag + 1)"
    "\<forall>u\<in>set xs. sint (order (tprio (h' u))) < int (unat tag + 1)" by auto
  ultimately have "queue_ok h' (tag + 1) (Some t) (t # xs)"
    using t(3) by (simp add: queue_ok_def tag)
  then show ?thesis using t(2) by (intro exI [of _ h']) (auto simp: emplace_def h'_def set_next_def Let_def)
qed

lemma unqueue_position:
  assumes c: "chain h first (as @ t # bs)" and l: "set_link (link_of as) (next_cpu (h t)) (first, h) = (first', h')"
  shows "unqueue modify_node t (first, h) = Some (Some t, first', if modify_node then set_next t None h' else h')"
proof (cases as rule: rev_cases)
  case Nil
  then show ?thesis using c l by (auto simp: unqueue_def set_link_def link_of_def)
next
  case (snoc as' it)
  have "first \<noteq> Some t" using c chain_distinct [OF c] snoc by (cases as') auto
  moreover have "unqueue_loop h first t = Some (Some it)"
    using unqueue_loop_found [of h first as' it t bs] c snoc by simp
  ultimately show ?thesis using l snoc by (auto simp: unqueue_def set_link_def link_of_def Let_def)
qed

lemma unqueue_ok:
  assumes q: "queue_ok h tag first xs" and t: "t \<in> set xs"
  shows "\<exists>first' h'. unqueue modify_node t (first, h) = Some (Some t, first', h') \<and> queue_ok h' tag first' (remove1 t xs)"
proof -
  obtain as bs where xs: "xs = as @ t # bs" using t by (auto dest: split_list)
  have c: "chain h first (as @ t # bs)" using q xs by (simp add: queue_ok_def)
  obtain first' h' where l: "set_link (link_of as) (next_cpu (h t)) (first, h) = (first', h')" by fastforce
  show ?thesis
    using unqueue_position [OF c l] queue_ok_without [OF q [unfolded xs] unlink(1,3) [OF c l], of modify_node] xs by blast
qed

lemma unqueue_absent: "chain h first xs \<Longrightarrow> t \<notin> set xs \<Longrightarrow> unqueue modify_node t (first, h) = Some (None, first, h)"
  using unqueue_loop_absent [of h first xs t] by (cases xs) (auto simp: unqueue_def)

lemma any_again_chain: "chain h p xs \<Longrightarrow> any_again h p = Some (\<exists>t\<in>set xs. again (h t))"
proof (induction xs arbitrary: p)
  case (Cons t xs)
  then show ?case by (subst any_again.simps) auto
qed (subst any_again.simps, simp)

text \<open>The same for lists whose tags are not in order, with the flags of the threads.\<close>

lemma chain_without:
  assumes c: "chain h first (as @ t # bs)" and l: "set_link (link_of as) (next_cpu (h t)) (first, h) = (first', h')"
  shows "chain (if b then set_next t None h' else h') first' (remove1 t (as @ t # bs))
    \<and> (\<forall>u. again ((if b then set_next t None h' else h') u) = again (h u))"
proof -
  have d: "distinct (as @ t # bs)" using chain_distinct [OF c] .
  have "chain (set_next t None h') first' (as @ bs)"
    using unlink(1) [OF c l] d by (subst chain_cong [of _ _ h']) auto
  moreover have "remove1 t (as @ t # bs) = as @ bs" using d by (simp add: remove1_append)
  ultimately show ?thesis using unlink(1,4) [OF c l] by simp
qed

lemma unqueue_chain:
  assumes "chain h first xs" "t \<in> set xs"
  shows "\<exists>first' h'. unqueue modify_node t (first, h) = Some (Some t, first', h') \<and> chain h' first' (remove1 t xs)
    \<and> (\<forall>u. again (h' u) = again (h u))"
proof -
  obtain as bs where xs: "xs = as @ t # bs" using assms(2) by (auto dest: split_list)
  obtain first' h' where l: "set_link (link_of as) (next_cpu (h t)) (first, h) = (first', h')" by fastforce
  show ?thesis using unqueue_position [OF _ l, of bs] chain_without [OF _ l, of bs] assms(1) xs by blast
qed

lemma schedule_chain:
  assumes "chain h first xs" "xs \<noteq> []" "\<forall>t\<in>set xs. \<not> again (h t)"
  shows "\<exists>t first' h'. t \<in> set xs \<and> schedule protocol modify_node (first, h) = Some (Some t, first', h')
    \<and> chain h' first' (remove1 t xs) \<and> (\<forall>u. again (h' u) = again (h u))"
proof (rule schedule_position [OF assms(1,2), where protocol = protocol and modify_node = modify_node])
  fix as t bs
  assume xs: "xs = as @ t # bs" and s: "schedule protocol modify_node (first, h) = Some (Some t,
       if again (h t) then (first, h)
       else (case set_link (link_of as) (next_cpu (h t)) (first, h) of
         (first, h) \<Rightarrow> (first, if modify_node \<and> protocol \<noteq> SYS_SYNC_FIFO then set_next t None h else h)))"
  obtain first' h' where l: "set_link (link_of as) (next_cpu (h t)) (first, h) = (first', h')" by fastforce
  have "\<not> again (h t)" "t \<in> set xs" using assms(3) xs by auto
  then show ?thesis
    using s l chain_without [OF assms(1) [unfolded xs] l, of "modify_node \<and> protocol \<noteq> SYS_SYNC_FIFO"] unfolding xs by auto
qed

lemma emplace_chain:
  assumes "chain h first xs" "t \<notin> set xs" "emplace t (first, h, tag) = (first', h', tag')"
  shows "chain h' first' (t # xs)" "again (h' u) = again (h u)"
proof -
  have e: "first' = Some t" "next_cpu (h' u) = (if u = t then first else next_cpu (h u))" "again (h' u) = again (h u)" for u
    using assms(3) by (auto simp: emplace_def Let_def split: if_splits)
  then show "again (h' u) = again (h u)" by simp
  have "chain h' first xs" using assms(1,2) e by (subst chain_cong [of _ _ h]) auto
  then show "chain h' first' (t # xs)" using e by simp
qed

section \<open>Queues that share the threads\<close>

lemma unqueue_frame:
  assumes c: "chain h first xs" and t: "t \<in> set xs"
  shows "\<exists>first' h'. unqueue True t (first, h) = Some (Some t, first', h') \<and> chain h' first' (remove1 t xs)
    \<and> (\<forall>u. again (h' u) = again (h u)) \<and> (\<forall>u. u \<notin> set xs \<longrightarrow> next_cpu (h' u) = next_cpu (h u))"
proof -
  obtain as bs where xs: "xs = as @ t # bs" using t by (auto dest: split_list)
  obtain first' h' where l: "set_link (link_of as) (next_cpu (h t)) (first, h) = (first', h')" by fastforce
  have c': "chain h first (as @ t # bs)" using c xs by simp
  show ?thesis using unqueue_position [OF c' l, of True] chain_without [OF c' l, of True] unlink(2) [OF c' l] xs by auto
qed

lemma schedule_frame:
  assumes c: "chain h first xs" "xs \<noteq> []"
  obtains t where "t \<in> set xs" "again (h t)" "schedule prot True (first, h) = Some (Some t, first, h)"
  | t first' h' where "t \<in> set xs" "\<not> again (h t)" "schedule prot True (first, h) = Some (Some t, first', h')" "chain h' first' (remove1 t xs)"
    "\<And>u. again (h' u) = again (h u)" "\<And>u. u \<notin> set xs \<Longrightarrow> next_cpu (h' u) = next_cpu (h u)" "prot = SYS_SYNC_FIFO \<Longrightarrow> t = last xs"
    "\<And>u. tprio (h' u) = tprio (h u)" "prot \<noteq> SYS_SYNC_FIFO \<Longrightarrow> \<forall>u\<in>set xs. \<not> before_prio (tprio (h u)) (tprio (h t))"
proof (rule schedule_position [OF c, where protocol = prot and modify_node = True])
  fix as t bs
  assume xs: "xs = as @ t # bs" and f: "prot = SYS_SYNC_FIFO \<Longrightarrow> bs = []" and best: "prot \<noteq> SYS_SYNC_FIFO \<Longrightarrow> \<forall>u\<in>set xs. \<not> before_prio (tprio (h u)) (tprio (h t))"
    and s: "schedule prot True (first, h) = Some (Some t,
       if again (h t) then (first, h)
       else (case set_link (link_of as) (next_cpu (h t)) (first, h) of
         (first, h) \<Rightarrow> (first, if True \<and> prot \<noteq> SYS_SYNC_FIFO then set_next t None h else h)))"
  obtain first' h' where l: "set_link (link_of as) (next_cpu (h t)) (first, h) = (first', h')" by fastforce
  have c': "chain h first (as @ t # bs)" using c(1) xs by simp
  show ?thesis
  proof (cases "again (h t)")
    case True
    then show ?thesis using that(1) [of t] s xs by simp
  next
    case False
    let ?h = "if prot \<noteq> SYS_SYNC_FIFO then set_next t None h' else h'"
    show ?thesis
    proof (rule that(2) [OF _ False])
      show "schedule prot True (first, h) = Some (Some t, first', ?h)" using s l False by simp
      show "chain ?h first' (remove1 t xs)" "again (?h u) = again (h u)" for u
        using chain_without [OF c' l, of "prot \<noteq> SYS_SYNC_FIFO"] xs by auto
      show "next_cpu (?h u) = next_cpu (h u)" if "u \<notin> set xs" for u using unlink(2) [OF c' l, of u] that xs by auto
      show "tprio (?h u) = tprio (h u)" for u using unlink(3) [OF c' l, of u] by simp
    qed (use xs f best in auto)
  qed
qed

text \<open>
  C21: scheduling ends on every waiting queue and picks the thread that has waited longest, under the
  priority protocols the longest waiting one of the best priority; it leaves the queue of the other threads in
  their order, or everything as it was when the thread is to repeat its call.
\<close>

theorem schedule_longest_waiting:
  assumes "queue_ok h tag first xs" "xs \<noteq> []" "t = chosen protocol h xs"
  shows "\<exists>first' h'. schedule protocol modify_node (first, h) = Some (Some t, first', h')
    \<and> queue_ok h' tag first' (if again (h t) then xs else remove1 t xs)"
  by (rule schedule_chosen [OF assms])

definition sample_threads :: threads where
  "sample_threads t = \<lparr>next_cpu = (if t = 3 then Some 2 else if t = 2 then Some 1 else None),
     tprio = \<lparr>prio = (if t = 1 then 5 else 3), order = of_nat t, preserve_bit = False\<rparr>, again = False\<rparr>"

lemma sample_queue_ok: "queue_ok sample_threads 3 (Some 3) [3, 2, 1]"
  by (simp add: queue_ok_def sample_threads_def)

lemma sample_chosen: "chosen SYS_SYNC_PRIORITY sample_threads [3, 2, 1] = 2"
  by (simp add: chosen_def sample_threads_def SYS_SYNC_PRIORITY_def SYS_SYNC_FIFO_def)

theorem schedule_longest_waiting_witness:
  "\<exists>first' h'. schedule SYS_SYNC_PRIORITY True (Some 3, sample_threads) = Some (Some 2, first', h') \<and> queue_ok h' 3 first' [3, 1]"
  using schedule_longest_waiting [OF sample_queue_ok _ sample_chosen [symmetric], of True] by (simp add: sample_threads_def)

end
