(* ===== verification/Lv2_Event_Flag.thy ===== *)
theory Lv2_Event_Flag
  imports Lv2_Queue
begin

text \<open>
  The kernel event flag (\<^verbatim>\<open>rpcs3/Emu/Cell/lv2/sys_event_flag.h\<close>, \<^verbatim>\<open>sys_event_flag.cpp\<close>): a pattern of 64 bits, and
  threads that wait until all or some of the bits they name are set. The pattern is changed without the mutex by the
  calls that can only clear bits, so \<^verbatim>\<open>sys_event_flag_set\<close> decides on a copy whom to wake, and repeats the decision when
  the bits it rests on have changed before it is written back.
\<close>

unbundle bit_operations_syntax

section \<open>Modes and patterns\<close>

definition SYS_SYNC_WAITER_SINGLE :: u32 where
  "SYS_SYNC_WAITER_SINGLE = 0x10000"

definition SYS_SYNC_WAITER_MULTIPLE :: u32 where
  "SYS_SYNC_WAITER_MULTIPLE = 0x20000"

definition SYS_EVENT_FLAG_WAIT_AND :: "'a::len word" where
  "SYS_EVENT_FLAG_WAIT_AND = 0x01"

definition SYS_EVENT_FLAG_WAIT_OR :: "'a::len word" where
  "SYS_EVENT_FLAG_WAIT_OR = 0x02"

definition SYS_EVENT_FLAG_WAIT_CLEAR :: "'a::len word" where
  "SYS_EVENT_FLAG_WAIT_CLEAR = 0x10"

definition SYS_EVENT_FLAG_WAIT_CLEAR_ALL :: "'a::len word" where
  "SYS_EVENT_FLAG_WAIT_CLEAR_ALL = 0x20"

definition check_mode :: "u32 \<Rightarrow> bool" where
  "check_mode mode \<longleftrightarrow> (mode AND 0xf = SYS_EVENT_FLAG_WAIT_AND \<or> mode AND 0xf = SYS_EVENT_FLAG_WAIT_OR)
     \<and> (mode AND NOT 0xf = 0 \<or> mode AND NOT 0xf = SYS_EVENT_FLAG_WAIT_CLEAR \<or> mode AND NOT 0xf = SYS_EVENT_FLAG_WAIT_CLEAR_ALL)"

text \<open>Whether the wait is over, the pattern it leaves, and the pattern it reports.\<close>

definition check_pattern :: "u64 \<Rightarrow> u64 \<Rightarrow> u64 \<Rightarrow> bool \<times> u64 \<times> u64" where
  "check_pattern pat bitptn mode =
     (if mode AND 0xf = SYS_EVENT_FLAG_WAIT_AND \<and> pat AND bitptn \<noteq> bitptn
         \<or> mode AND 0xf = SYS_EVENT_FLAG_WAIT_OR \<and> pat AND bitptn = 0 then (False, pat, pat)
      else if mode AND NOT 0xf = SYS_EVENT_FLAG_WAIT_CLEAR then (True, pat AND NOT bitptn, pat)
      else if mode AND NOT 0xf = SYS_EVENT_FLAG_WAIT_CLEAR_ALL then (True, 0, pat)
      else (True, pat, pat))"

section \<open>State\<close>

text \<open>
  The registers through which a waiting thread and the thread that wakes it communicate: the result, the bits and the mode
  of the wait, the pattern to report, and a mark used while the waiters are served.
\<close>

record ef_regs =
  gpr3 :: u64
  gpr4 :: u64
  gpr5 :: u64
  gpr6 :: u64
  gpr7 :: u64

type_synonym regs = "tid \<Rightarrow> ef_regs"

text \<open>
  \<open>Set_commit\<close> is a thread in \<^verbatim>\<open>sys_event_flag_set\<close> between a decision and the attempt to write it back, with its variables
  \<^verbatim>\<open>bitptn\<close>, \<^verbatim>\<open>pattern\<close>, \<^verbatim>\<open>to_write\<close>, \<^verbatim>\<open>dependant_mask\<close> and \<^verbatim>\<open>count\<close>.
\<close>

datatype ef_pc = Idle | Wait_lock u64 u32 | Asleep | Stopped | Woken | Set_lock u64 | Set_commit u64 u64 u64 u64 nat

record ef_state =
  ef_type :: u32
  protocol :: u32
  pattern :: u64
  sq :: "tid option"
  thr :: threads
  order_tag :: u64
  lock :: "tid option"
  regs :: regs
  pc :: "tid \<Rightarrow> ef_pc"

abbreviation ef_goto :: "tid \<Rightarrow> ef_pc \<Rightarrow> ef_state \<Rightarrow> ef_state" where
  "ef_goto t p s \<equiv> s\<lparr>pc := (pc s)(t := p)\<rparr>"

section \<open>Waiting\<close>

definition ef_wait_begin :: "tid \<Rightarrow> u64 \<Rightarrow> u32 \<Rightarrow> ef_state \<Rightarrow> ef_state" where
  "ef_wait_begin t bitptn mode s =
     (let r = \<lparr>gpr3 = - 1, gpr4 = bitptn, gpr5 = ucast mode, gpr6 = 0, gpr7 = gpr7 (regs s t)\<rparr>;
          s = s\<lparr>regs := (regs s)(t := r)\<rparr> in
      if \<not> check_mode mode then ef_goto t Idle s
      else (case check_pattern (pattern s) bitptn (ucast mode) of
        (ok, pat, res) \<Rightarrow> ef_goto t (if ok then Idle else Wait_lock bitptn mode)
           (s\<lparr>pattern := pat, regs := (regs s)(t := r\<lparr>gpr6 := res\<rparr>)\<rparr>)))"

definition ef_wait_locked :: "tid \<Rightarrow> u64 \<Rightarrow> u32 \<Rightarrow> ef_state \<Rightarrow> ef_state" where
  "ef_wait_locked t bitptn mode s =
     (case check_pattern (pattern s) bitptn (ucast mode) of
        (ok, pat, res) \<Rightarrow>
          (let s = s\<lparr>pattern := pat, regs := (regs s)(t := (regs s t)\<lparr>gpr6 := res\<rparr>)\<rparr> in
           if ok then ef_goto t Idle s
           else if ef_type s = SYS_SYNC_WAITER_SINGLE \<and> sq s \<noteq> None then ef_goto t Idle s
           else (case emplace t (sq s, thr s, order_tag s) of
             (first, h, tag) \<Rightarrow> (ef_goto t Asleep s)\<lparr>sq := first, thr := h, order_tag := tag\<rparr>)))"

definition CELL_ETIMEDOUT :: u64 where
  "CELL_ETIMEDOUT = 0x8001000B"

definition CELL_ECANCELED :: u64 where
  "CELL_ECANCELED = 0x80010013"

definition ef_wait_timeout :: "tid \<Rightarrow> ef_state \<Rightarrow> ef_state" where
  "ef_wait_timeout t s = (case unqueue True t (sq s, thr s) of
       Some (Some u, first, h) \<Rightarrow> (ef_goto t Idle s)\<lparr>sq := first, thr := h,
         regs := (regs s)(t := (regs s t)\<lparr>gpr3 := CELL_ETIMEDOUT, gpr6 := pattern s\<rparr>)\<rparr>
     | Some (None, first, h) \<Rightarrow> ef_goto t Idle s
     | None \<Rightarrow> s)"

definition ef_wait_stopped :: "tid \<Rightarrow> ef_state \<Rightarrow> ef_state" where
  "ef_wait_stopped t s = (ef_goto t Stopped s)\<lparr>thr := (thr s)(t := (thr s t)\<lparr>again := True\<rparr>)\<rparr>"

definition ef_trywait :: "u64 \<Rightarrow> u32 \<Rightarrow> ef_state \<Rightarrow> ef_state" where
  "ef_trywait bitptn mode s =
     (if \<not> check_mode mode then s else s\<lparr>pattern := fst (snd (check_pattern (pattern s) bitptn (ucast mode)))\<rparr>)"

definition ef_clear :: "u64 \<Rightarrow> ef_state \<Rightarrow> ef_state" where
  "ef_clear bitptn s = s\<lparr>pattern := pattern s AND bitptn\<rparr>"

section \<open>Setting bits\<close>

text \<open>A loop over the waiting threads that leaves their order alone.\<close>

partial_function (option) for_cpu :: "(tid \<Rightarrow> 's \<Rightarrow> 's) \<Rightarrow> threads \<Rightarrow> tid option \<Rightarrow> 's \<Rightarrow> 's option" where
  [code]: "for_cpu f h cpu s = (case cpu of None \<Rightarrow> Some s | Some t \<Rightarrow> for_cpu f h (next_cpu (h t)) (f t s))"

definition prio_of :: "threads \<Rightarrow> tid \<Rightarrow> int" where
  "prio_of h t = sint (prio (tprio (h t)))"

definition set_mark :: "u64 \<Rightarrow> tid \<Rightarrow> regs \<Rightarrow> regs" where
  "set_mark v t r = r(t := (r t)\<lparr>gpr7 := v\<rparr>)"

definition better :: "u32 \<Rightarrow> threads \<Rightarrow> regs \<Rightarrow> tid \<Rightarrow> tid option \<times> int \<Rightarrow> tid option \<times> int" where
  "better prot h r t = (\<lambda>(it, pr).
     if gpr7 (r t) = 0 \<and> (prot \<noteq> SYS_SYNC_PRIORITY \<or> prio_of h t \<le> pr) then (Some t, prio_of h t) else (it, pr))"

definition get_next :: "u32 \<Rightarrow> threads \<Rightarrow> tid option \<Rightarrow> regs \<Rightarrow> (tid option \<times> regs) option" where
  "get_next prot h first r = (case for_cpu (better prot h r) h first (None, 2147483647) of
       None \<Rightarrow> None
     | Some (None, pr) \<Rightarrow> Some (None, r)
     | Some (Some it, pr) \<Rightarrow> Some (Some it, set_mark 1 it r))"

text \<open>The body of the loop over the waiters, on the registers, \<^verbatim>\<open>to_write\<close>, \<^verbatim>\<open>dependant_mask\<close> and \<^verbatim>\<open>count\<close>; the flag says to leave the loop.\<close>

definition serve_one :: "u64 \<Rightarrow> tid \<Rightarrow> regs \<times> u64 \<times> u64 \<times> nat \<Rightarrow> bool \<times> regs \<times> u64 \<times> u64 \<times> nat" where
  "serve_one bitptn it = (\<lambda>(r, to_write, dep, count).
     let pat = gpr4 (r it); mode = gpr5 (r it);
         dep_or = (if mode AND 0xf = SYS_EVENT_FLAG_WAIT_OR \<or> bitptn AND pat AND to_write = pat then 0 else pat) in
     case check_pattern to_write pat mode of
       (True, to_write, res) \<Rightarrow> (to_write = 0, r(it := (r it)\<lparr>gpr6 := res, gpr3 := 0\<rparr>), to_write, dep OR dep_or, count + 1)
     | (False, to_write, res) \<Rightarrow> (False, r(it := (r it)\<lparr>gpr6 := res, gpr3 := - 1\<rparr>), to_write, dep, count))"

partial_function (option) set_loop :: "u32 \<Rightarrow> threads \<Rightarrow> tid option \<Rightarrow> u64 \<Rightarrow> regs \<times> u64 \<times> u64 \<times> nat
    \<Rightarrow> (regs \<times> u64 \<times> u64 \<times> nat) option" where
  [code]: "set_loop prot h first bitptn st = (case st of (r, v) \<Rightarrow>
     (case get_next prot h first r of
        None \<Rightarrow> None
      | Some (None, r) \<Rightarrow> Some (r, v)
      | Some (Some it, r) \<Rightarrow>
          (case serve_one bitptn it (r, v) of (stop, st) \<Rightarrow> if stop then Some st else set_loop prot h first bitptn st)))"

text \<open>One decision, for the value \<open>pat\<close> of the pattern.\<close>

definition set_pass :: "u32 \<Rightarrow> threads \<Rightarrow> tid option \<Rightarrow> u64 \<Rightarrow> u64 \<Rightarrow> regs \<Rightarrow> (regs \<times> u64 \<times> u64 \<times> nat) option" where
  "set_pass prot h first bitptn pat r = (case for_cpu (set_mark 0) h first r of
       None \<Rightarrow> None
     | Some r \<Rightarrow> (case set_loop prot h first bitptn (r, pat OR bitptn, 0, 0) of
         None \<Rightarrow> None
       | Some (r, to_write, dep, count) \<Rightarrow> Some (r, to_write, dep AND NOT bitptn, count)))"

definition decide :: "tid \<Rightarrow> u64 \<Rightarrow> ef_state \<Rightarrow> ef_state" where
  "decide t bitptn s = (case set_pass (protocol s) (thr s) (sq s) bitptn (pattern s) (regs s) of
       None \<Rightarrow> s
     | Some (r, to_write, dep, count) \<Rightarrow>
         (ef_goto t (Set_commit bitptn (pattern s) to_write dep count) s)\<lparr>regs := r, lock := Some t\<rparr>)"

definition set_begin :: "tid \<Rightarrow> u64 \<Rightarrow> ef_state \<Rightarrow> ef_state" where
  "set_begin t bitptn s = (if pattern s AND bitptn = bitptn then ef_goto t Idle s else ef_goto t (Set_lock bitptn) s)"

definition set_locked :: "tid \<Rightarrow> u64 \<Rightarrow> ef_state \<Rightarrow> ef_state" where
  "set_locked t bitptn s = (case any_again (thr s) (sq s) of
       None \<Rightarrow> s
     | Some True \<Rightarrow> ef_goto t Idle s
     | Some False \<Rightarrow> decide t bitptn s)"

text \<open>The loop that takes the threads to wake out of the queue; \<open>link\<close> is the pointer it stands at.\<close>

partial_function (option) remove_loop :: "regs \<Rightarrow> tid option \<Rightarrow> tid option \<times> threads \<Rightarrow> tid list
    \<Rightarrow> (tid list \<times> tid option \<times> threads) option" where
  [code]: "remove_loop r link q woken = (case q of (first, h) \<Rightarrow>
     (case (case link of None \<Rightarrow> first | Some p \<Rightarrow> next_cpu (h p)) of
        None \<Rightarrow> Some (woken, first, h)
      | Some t \<Rightarrow>
          if gpr3 (r t) = 0 then
            (case set_link link (next_cpu (h t)) (first, h) of
               (first, h) \<Rightarrow> remove_loop r link (first, set_next t None h) (woken @ [t]))
          else remove_loop r (Some t) (first, h) woken))"

definition commits :: "u64 \<Rightarrow> u64 \<Rightarrow> u64 \<Rightarrow> bool" where
  "commits x pat dep \<longleftrightarrow> (x XOR pat) AND dep = 0"

definition written :: "u64 \<Rightarrow> u64 \<Rightarrow> u64 \<Rightarrow> u64 \<Rightarrow> u64" where
  "written bitptn pat to_write x = (x OR bitptn) AND NOT ((pat OR bitptn) AND NOT to_write)"

definition set_commit :: "tid \<Rightarrow> u64 \<Rightarrow> u64 \<Rightarrow> u64 \<Rightarrow> u64 \<Rightarrow> nat \<Rightarrow> ef_state \<Rightarrow> ef_state" where
  "set_commit t bitptn pat to_write dep count s =
     (if \<not> commits (pattern s) pat dep then decide t bitptn s
      else (let s = s\<lparr>pattern := written bitptn pat to_write (pattern s)\<rparr> in
        if count = 0 then (ef_goto t Idle s)\<lparr>lock := None\<rparr>
        else (case remove_loop (regs s) None (sq s, thr s) [] of
            None \<Rightarrow> s
          | Some (woken, first, h) \<Rightarrow> s\<lparr>sq := first, thr := h, lock := None,
              pc := \<lambda>u. if u = t then Idle else if u \<in> set woken then Woken else pc s u\<rparr>)))"

section \<open>Cancelling\<close>

partial_function (option) cancel_loop :: "u64 \<Rightarrow> tid option \<times> threads \<Rightarrow> regs \<Rightarrow> tid list
    \<Rightarrow> (tid list \<times> (tid option \<times> threads) \<times> regs) option" where
  [code]: "cancel_loop pat q r woken = (case schedule SYS_SYNC_FIFO True q of
       None \<Rightarrow> None
     | Some (None, q) \<Rightarrow> Some (woken, q, r)
     | Some (Some u, q) \<Rightarrow> cancel_loop pat q (r(u := (r u)\<lparr>gpr3 := CELL_ECANCELED, gpr6 := pat\<rparr>)) (woken @ [u]))"

definition ef_cancel :: "ef_state \<Rightarrow> ef_state" where
  "ef_cancel s = (case any_again (thr s) (sq s) of
       None \<Rightarrow> s
     | Some True \<Rightarrow> s
     | Some False \<Rightarrow> (case cancel_loop (pattern s) (sq s, thr s) (regs s) [] of
         None \<Rightarrow> s
       | Some (woken, (first, h), r) \<Rightarrow> s\<lparr>sq := first, thr := h, regs := r,
           pc := \<lambda>u. if u \<in> set woken then Woken else pc s u\<rparr>))"

inductive ef_step :: "ef_state \<Rightarrow> ef_state \<Rightarrow> bool" where
  "pc s t = Idle \<Longrightarrow> ef_step s (ef_wait_begin t bitptn mode s)"
| "pc s t = Wait_lock bitptn mode \<Longrightarrow> lock s = None \<Longrightarrow> ef_step s (ef_wait_locked t bitptn mode s)"
| "pc s t = Asleep \<or> pc s t = Woken \<Longrightarrow> lock s = None \<Longrightarrow> ef_step s (ef_wait_timeout t s)"
| "pc s t = Asleep \<Longrightarrow> lock s = None \<Longrightarrow> ef_step s (ef_wait_stopped t s)"
| "pc s t = Woken \<Longrightarrow> ef_step s (ef_goto t Idle s)"
| "ef_step s (ef_trywait bitptn mode s)"
| "ef_step s (ef_clear bitptn s)"
| "pc s t = Idle \<Longrightarrow> ef_step s (set_begin t bitptn s)"
| "pc s t = Set_lock bitptn \<Longrightarrow> lock s = None \<Longrightarrow> ef_step s (set_locked t bitptn s)"
| "pc s t = Set_commit bitptn pat to_write dep count \<Longrightarrow> ef_step s (set_commit t bitptn pat to_write dep count s)"
| "lock s = None \<Longrightarrow> ef_step s (ef_cancel s)"

section \<open>The loops\<close>

lemma for_cpu_chain: "chain h p xs \<Longrightarrow> for_cpu f h p s = Some (fold f xs s)"
proof (induction xs arbitrary: p s)
  case (Cons t xs)
  then show ?case by (subst for_cpu.simps) auto
qed (subst for_cpu.simps, simp)

text \<open>
  The order in which the waiters are served: the longest waiting first, and by priority if the protocol asks for it.
\<close>

definition visit :: "u32 \<Rightarrow> threads \<Rightarrow> tid list \<Rightarrow> tid list" where
  "visit prot h xs = (if prot = SYS_SYNC_PRIORITY then sort_key (prio_of h) (rev xs) else rev xs)"

lemma visit_set [simp]: "set (visit prot h xs) = set xs"
  and visit_distinct [simp]: "distinct (visit prot h xs) = distinct xs"
  and visit_filter: "filter P (visit prot h xs) = visit prot h (filter P xs)"
  by (simp_all add: visit_def filter_sort rev_filter)

lemma prio_bound: "prio_of h t \<le> 2147483647"
  using sint_less [of "prio (tprio (h t))"] by (simp add: prio_of_def)

lemma better_pair: "better prot h r t (it, pr) =
    (if gpr7 (r t) = 0 \<and> (prot \<noteq> SYS_SYNC_PRIORITY \<or> prio_of h t \<le> pr) then (Some t, prio_of h t) else (it, pr))"
  by (simp add: better_def)

lemma better_filter: "fold (better prot h r) xs a = fold (better prot h r) (filter (\<lambda>t. gpr7 (r t) = 0) xs) a"
  by (induction xs arbitrary: a) (auto simp: better_pair)

lemma better_last:
  assumes "\<forall>t\<in>set xs. gpr7 (r t) = 0" "xs \<noteq> []" "prot \<noteq> SYS_SYNC_PRIORITY"
  shows "fold (better prot h r) xs a = (Some (last xs), prio_of h (last xs))"
  using assms by (induction xs arbitrary: a rule: rev_induct) (auto simp: better_def split: prod.splits)

lemma better_best:
  assumes "\<forall>t\<in>set xs. gpr7 (r t) = 0" "xs \<noteq> []"
  shows "\<exists>t. fold (better SYS_SYNC_PRIORITY h r) xs (None, 2147483647) = (Some t, prio_of h t)
    \<and> (\<forall>u\<in>set xs. prio_of h t \<le> prio_of h u) \<and> t = last (filter (\<lambda>u. prio_of h u = prio_of h t) xs) \<and> t \<in> set xs"
  using assms
proof (induction xs rule: rev_induct)
  case (snoc x xs)
  show ?case
  proof (cases "xs = []")
    case True
    then show ?thesis using snoc.prems prio_bound [of h x] by (simp add: better_pair)
  next
    case False
    then obtain t where t: "fold (better SYS_SYNC_PRIORITY h r) xs (None, 2147483647) = (Some t, prio_of h t)"
      "\<forall>u\<in>set xs. prio_of h t \<le> prio_of h u" "t = last (filter (\<lambda>u. prio_of h u = prio_of h t) xs)" "t \<in> set xs"
      using snoc by auto
    show ?thesis
    proof (cases "prio_of h x \<le> prio_of h t")
      case True
      then show ?thesis using t snoc.prems by (intro exI [of _ x]) (auto simp: better_pair)
    next
      case False
      then show ?thesis using t snoc.prems by (intro exI [of _ t]) (auto simp: better_pair)
    qed
  qed
qed simp

lemma hd_sort_key:
  assumes "ys \<noteq> []" "\<forall>u\<in>set ys. f t \<le> f u" "t = hd (filter (\<lambda>u. f u = f t) ys)" "t \<in> set ys"
  shows "hd (sort_key f ys) = t"
proof (cases "sort_key f ys")
  case Nil
  then show ?thesis using assms(1) by (metis length_0_conv length_sort)
next
  case (Cons z zs)
  have set: "set (z # zs) = set ys" using set_sort [of f ys] Cons by simp
  have sorted: "sorted (map f (z # zs))" using sorted_sort_key [of f ys] Cons by simp
  have "t \<in> set (z # zs)" unfolding set by (rule assms(4))
  then have "f z \<le> f t" using sorted by auto
  moreover have "z \<in> set ys" unfolding set [symmetric] by simp
  ultimately have z: "f z = f t" using assms(2) by (intro antisym) simp_all
  have "filter (\<lambda>u. f u = f t) (z # zs) = filter (\<lambda>u. f u = f t) ys" using sort_key_stable [of f "f t" ys] Cons by simp
  then have "hd (filter (\<lambda>u. f u = f t) ys) = z" using z by (simp only: filter.simps) (metis (mono_tags) list.sel(1))
  then show ?thesis using assms(3) Cons by simp
qed

lemma get_next_visit:
  assumes "chain h first xs"
  shows "get_next prot h first r = Some (case visit prot h (filter (\<lambda>t. gpr7 (r t) = 0) xs) of
      [] \<Rightarrow> (None, r) | t # ts \<Rightarrow> (Some t, set_mark 1 t r))"
proof -
  let ?us = "filter (\<lambda>t. gpr7 (r t) = 0) xs"
  have g: "for_cpu (better prot h r) h first a = Some (fold (better prot h r) ?us a)" for a
    using for_cpu_chain [OF assms] better_filter by metis
  show ?thesis
  proof (cases "?us = []")
    case True
    then show ?thesis unfolding get_next_def g True by (simp add: visit_def)
  next
    case False
    then have v: "visit prot h ?us \<noteq> []" by (metis set_empty visit_set)
    have "\<exists>pr. fold (better prot h r) ?us (None, 2147483647) = (Some (hd (visit prot h ?us)), pr)"
    proof (cases "prot = SYS_SYNC_PRIORITY")
      case True
      obtain t where t: "fold (better SYS_SYNC_PRIORITY h r) ?us (None, 2147483647) = (Some t, prio_of h t)"
        "\<forall>u\<in>set ?us. prio_of h t \<le> prio_of h u" "t = last (filter (\<lambda>u. prio_of h u = prio_of h t) ?us)" "t \<in> set ?us"
        using better_best [of ?us r h] False by auto
      have "filter (\<lambda>u. prio_of h u = prio_of h t) (rev ?us) = rev (filter (\<lambda>u. prio_of h u = prio_of h t) ?us)"
        by (simp only: rev_filter)
      then have "hd (filter (\<lambda>u. prio_of h u = prio_of h t) (rev ?us)) = t" using t(3) by (simp only: hd_rev)
      then have "hd (sort_key (prio_of h) (rev ?us)) = t" using False t(2,4) by (intro hd_sort_key) (simp_all only: set_rev rev_is_Nil_conv not_False_eq_True)
      then show ?thesis using True t(1) by (simp add: visit_def)
    next
      case p: False
      then show ?thesis using False better_last [of ?us r prot h] by (simp add: visit_def hd_rev)
    qed
    then show ?thesis using v unfolding get_next_def g by (auto split: list.split)
  qed
qed

section \<open>Serving the waiters in one go\<close>

primrec serve :: "u64 \<Rightarrow> tid list \<Rightarrow> regs \<times> u64 \<times> u64 \<times> nat \<Rightarrow> regs \<times> u64 \<times> u64 \<times> nat" where
  "serve bitptn [] st = st"
| "serve bitptn (t # ts) st = (case serve_one bitptn t (set_mark 1 t (fst st), snd st) of
     (stop, st) \<Rightarrow> if stop then st else serve bitptn ts st)"

text \<open>What a waiter's own registers say about a pattern.\<close>

definition sat :: "u64 \<Rightarrow> ef_regs \<Rightarrow> bool" where
  "sat pat r = fst (check_pattern pat (gpr4 r) (gpr5 r))"

definition after :: "u64 \<Rightarrow> ef_regs \<Rightarrow> u64" where
  "after pat r = fst (snd (check_pattern pat (gpr4 r) (gpr5 r)))"

definition sub :: "u64 \<Rightarrow> u64 \<Rightarrow> bool" where
  "sub x y \<longleftrightarrow> x AND y = x"

lemma bits_eq: "x = y \<longleftrightarrow> (\<forall>n. bit x n \<longleftrightarrow> bit y n)" for x y :: u64
  by (metis bit_eqI)

lemma sub_bit: "sub x y \<longleftrightarrow> (\<forall>n. bit x n \<longrightarrow> bit y n)"
  by (auto simp: sub_def bits_eq bit_simps)

lemma sub_refl [simp]: "sub x x" and sub_zero [simp]: "sub 0 x" and sub_trans: "sub x y \<Longrightarrow> sub y z \<Longrightarrow> sub x z"
  by (auto simp: sub_bit)

lemma check_pattern_eq: "check_pattern pat (gpr4 r) (gpr5 r) = (sat pat r, after pat r, pat)"
  by (simp add: sat_def after_def check_pattern_def)

lemma not_and: "x AND w \<noteq> w \<longleftrightarrow> (\<exists>n. bit w n \<and> \<not> bit x n)" "x AND w = 0 \<longleftrightarrow> (\<forall>n. bit w n \<longrightarrow> \<not> bit x n)" for x :: u64
  by (auto simp: bits_eq bit_simps)

lemma sat_iff: "sat pat r \<longleftrightarrow> \<not> (gpr5 r AND 0xf = SYS_EVENT_FLAG_WAIT_AND \<and> (\<exists>n. bit (gpr4 r) n \<and> \<not> bit pat n))
    \<and> \<not> (gpr5 r AND 0xf = SYS_EVENT_FLAG_WAIT_OR \<and> (\<forall>n. bit (gpr4 r) n \<longrightarrow> \<not> bit pat n))"
  by (simp add: sat_def check_pattern_def not_and)

lemma sat_mono: "sub x y \<Longrightarrow> sat x r \<Longrightarrow> sat y r"
  by (auto simp: sat_iff sub_bit)

lemma sat_and: "sat pat r \<Longrightarrow> gpr5 r AND 0xf = SYS_EVENT_FLAG_WAIT_AND \<Longrightarrow> sub (gpr4 r) pat"
  by (auto simp: sat_iff sub_bit)

lemma after_sub: "sub (after pat r) pat"
  by (auto simp: after_def check_pattern_def sub_bit bit_simps)

lemma after_unsat: "\<not> sat pat r \<Longrightarrow> after pat r = pat"
  by (auto simp: after_def sat_def check_pattern_def)

lemma after_sat: "sat pat r \<Longrightarrow> after pat r = (if gpr5 r AND NOT 0xf = SYS_EVENT_FLAG_WAIT_CLEAR then pat AND NOT (gpr4 r)
    else if gpr5 r AND NOT 0xf = SYS_EVENT_FLAG_WAIT_CLEAR_ALL then 0 else pat)"
  by (auto simp: after_def sat_def check_pattern_def)

lemma after_meet: "sat pat r = sat (pat AND y) r \<Longrightarrow> after (pat AND y) r = after pat r AND y"
  by (cases "sat pat r") (simp_all add: after_sat after_unsat and.assoc and.commute [of y])

lemma mode_cases: "\<not> sat pat r \<Longrightarrow> gpr5 r AND 0xf = SYS_EVENT_FLAG_WAIT_AND \<or> gpr5 r AND 0xf = SYS_EVENT_FLAG_WAIT_OR"
  by (auto simp: sat_iff)

lemma same_wait: "gpr4 r' = gpr4 r \<Longrightarrow> gpr5 r' = gpr5 r \<Longrightarrow> sat pat r' = sat pat r \<and> after pat r' = after pat r"
  by (simp add: sat_def after_def)

text \<open>The reference: each waiter in turn looks at the pattern the ones before it have left.\<close>

primrec grant :: "regs \<Rightarrow> tid list \<Rightarrow> u64 \<Rightarrow> tid list \<times> u64" where
  "grant r [] pat = ([], pat)"
| "grant r (t # ts) pat = (case grant r ts (after pat (r t)) of
     (woken, rest) \<Rightarrow> (if sat pat (r t) then t # woken else woken, rest))"

lemma grant_cong: "\<forall>t\<in>set ts. gpr4 (r' t) = gpr4 (r t) \<and> gpr5 (r' t) = gpr5 (r t) \<Longrightarrow> grant r' ts pat = grant r ts pat"
proof (induction ts arbitrary: pat)
  case (Cons t ts)
  then show ?case using same_wait [of "r' t" "r t"] by simp
qed simp

lemma grant_sub: "sub (snd (grant r ts pat)) pat"
proof (induction ts arbitrary: pat)
  case (Cons t ts)
  then show ?case using sub_trans [OF Cons [of "after pat (r t)"] after_sub] by (cases "grant r ts (after pat (r t))") simp
qed simp

lemma grant_set: "set (fst (grant r ts pat)) \<subseteq> set ts"
proof (induction ts arbitrary: pat)
  case (Cons t ts)
  then show ?case using Cons [of "after pat (r t)"] by (cases "grant r ts (after pat (r t))") auto
qed simp

lemma grant_unsat:
  "t \<in> set ts \<Longrightarrow> distinct ts \<Longrightarrow> t \<notin> set (fst (grant r ts pat)) \<Longrightarrow> \<not> sat (snd (grant r ts pat)) (r t)"
proof (induction ts arbitrary: pat)
  case (Cons u ts)
  show ?case
  proof (cases "t = u")
    case True
    then have "\<not> sat pat (r t)" using Cons.prems(3) by (auto split: prod.splits if_splits)
    then show ?thesis using sat_mono [OF grant_sub [of r "u # ts" pat]] by blast
  next
    case False
    then show ?thesis using Cons.IH [of "after pat (r u)"] Cons.prems by (cases "grant r ts (after pat (r u))") (auto split: if_splits)
  qed
qed simp

lemma grant_zero: "\<forall>t\<in>set ts. \<not> sat 0 (r t) \<Longrightarrow> grant r ts 0 = ([], 0)"
  by (induction ts) (auto simp: after_unsat)

definition dep_of :: "u64 \<Rightarrow> u64 \<Rightarrow> ef_regs \<Rightarrow> u64" where
  "dep_of bitptn pat r = (if gpr5 r AND 0xf = SYS_EVENT_FLAG_WAIT_OR \<or> bitptn AND gpr4 r AND pat = gpr4 r then 0 else gpr4 r)"

lemma serve_one_eq: "serve_one bitptn t (r, pat, dep, count) =
    (if sat pat (r t) then (after pat (r t) = 0, r(t := (r t)\<lparr>gpr6 := pat, gpr3 := 0\<rparr>), after pat (r t), dep OR dep_of bitptn pat (r t), count + 1)
     else (False, r(t := (r t)\<lparr>gpr6 := pat, gpr3 := - 1\<rparr>), after pat (r t), dep, count))"
  by (simp add: serve_one_def check_pattern_eq dep_of_def Let_def)

lemma set_mark_simps [simp]: "gpr3 (set_mark v t r u) = gpr3 (r u)" "gpr4 (set_mark v t r u) = gpr4 (r u)"
  "gpr5 (set_mark v t r u) = gpr5 (r u)" "gpr7 (set_mark v t r u) = (if u = t then v else gpr7 (r u))"
  "sat pat (set_mark v t r u) = sat pat (r u)" "after pat (set_mark v t r u) = after pat (r u)"
  by (simp_all add: set_mark_def sat_def after_def)

lemma set_loop_serve:
  "chain h first xs \<Longrightarrow> visit prot h (filter (\<lambda>t. gpr7 (r t) = 0) xs) = ts \<Longrightarrow>
   set_loop prot h first bitptn (r, v) = Some (serve bitptn ts (r, v))"
proof (induction ts arbitrary: r v)
  case Nil
  then show ?case by (subst set_loop.simps) (simp add: get_next_visit)
next
  case (Cons t ts)
  obtain stop r' v' where s: "serve_one bitptn t (set_mark 1 t r, v) = (stop, r', v')" by (metis prod_cases3)
  have m: "gpr7 (r' u) = (if u = t then 1 else gpr7 (r u))" for u
    using s by (cases v) (auto simp: serve_one_eq split: if_splits)
  have d: "distinct (t # ts)" using visit_distinct [of prot h "filter (\<lambda>t. gpr7 (r t) = 0) xs"] chain_distinct [OF Cons.prems(1)] Cons.prems(2)
    by simp
  have "filter (\<lambda>u. gpr7 (r' u) = 0) xs = filter (\<lambda>u. u \<noteq> t) (filter (\<lambda>u. gpr7 (r u) = 0) xs)"
    by (auto simp: m intro: filter_cong)
  then have "visit prot h (filter (\<lambda>u. gpr7 (r' u) = 0) xs) = filter (\<lambda>u. u \<noteq> t) (t # ts)"
    using Cons.prems(2) by (simp only: visit_filter [symmetric])
  also have "\<dots> = ts" using d by (auto simp: filter_id_conv)
  finally have "set_loop prot h first bitptn (r', v') = Some (serve bitptn ts (r', v'))" by (rule Cons.IH [OF Cons.prems(1)])
  then show ?case using s by (subst set_loop.simps) (simp add: get_next_visit [OF Cons.prems(1)] Cons.prems(2))
qed

lemma serve_grant:
  assumes "distinct ts" "\<forall>t\<in>set ts. \<not> sat 0 (r t)" "serve bitptn ts (r, pat, dep, count) = (r', pat', dep', count')"
  shows "(fst (grant r ts pat), pat') = grant r ts pat \<and> count' = count + length (fst (grant r ts pat)) \<and> sub dep dep'
    \<and> (\<forall>u. gpr4 (r' u) = gpr4 (r u) \<and> gpr5 (r' u) = gpr5 (r u) \<and> (u \<notin> set ts \<longrightarrow> gpr3 (r' u) = gpr3 (r u)))
    \<and> (\<forall>u\<in>set (fst (grant r ts pat)). gpr3 (r' u) = 0)
    \<and> (\<forall>u\<in>set ts. gpr3 (r' u) = 0 \<longrightarrow> u \<in> set (fst (grant r ts pat)) \<or> gpr3 (r u) = 0 \<and> fst (grant r ts pat) \<noteq> [])"
  using assms
proof (induction ts arbitrary: r pat dep count)
  case (Cons t ts)
  let ?m = "set_mark 1 t r"
  let ?a = "after pat (r t)"
  define r1 where "r1 = ?m(t := (?m t)\<lparr>gpr6 := pat, gpr3 := if sat pat (r t) then 0 else - 1\<rparr>)"
  have r1: "gpr4 (r1 u) = gpr4 (r u)" "gpr5 (r1 u) = gpr5 (r u)" "gpr3 (r1 u) = (if u = t then (if sat pat (r t) then 0 else - 1) else gpr3 (r u))" for u
    by (simp_all add: r1_def)
  have g: "grant r1 ts p = grant r ts p" for p using r1 by (intro grant_cong) simp
  have z: "\<forall>u\<in>set ts. \<not> sat 0 (r1 u)" using Cons.prems(2) same_wait [OF r1(1,2)] by simp
  show ?case
  proof (cases "sat pat (r t) \<and> ?a = 0")
    case True
    then have "r' = r1" "pat' = 0" "count' = count + 1" "dep' = dep OR dep_of bitptn pat (?m t)"
      using Cons.prems(3) by (auto simp: serve_one_eq r1_def)
    moreover have "grant r (t # ts) pat = ([t], 0)" using True grant_zero [of ts r] Cons.prems(2) by simp
    ultimately show ?thesis using r1 True by (auto simp: sub_bit bit_simps)
  next
    case False
    let ?d = "if sat pat (r t) then dep OR dep_of bitptn pat (?m t) else dep" and ?c = "if sat pat (r t) then count + 1 else count"
    have "serve bitptn ts (r1, ?a, ?d, ?c) = (r', pat', dep', count')"
      using Cons.prems(3) False by (auto simp: serve_one_eq r1_def split: if_splits)
    note IH = Cons.IH [OF _ z this, unfolded g]
    have d: "distinct ts" "t \<notin> set ts" using Cons.prems(1) by simp_all
    note IH = IH [OF d(1)]
    have "sub dep ?d" by (auto simp: sub_bit bit_simps)
    then have sd: "sub dep dep'" using IH sub_trans by blast
    have gr: "grant r (t # ts) pat = (if sat pat (r t) then t # fst (grant r ts ?a) else fst (grant r ts ?a), pat')"
      using IH by (cases "grant r ts ?a") simp
    show ?thesis
      unfolding gr fst_conv using IH r1 d(2) sd by (auto split: if_splits)
  qed
qed simp

lemma bit_diff [simp]: "bit (d AND NOT b) n \<longleftrightarrow> bit d n \<and> \<not> bit b n" for d b :: u64
  using bit_imp_le_length [of d n] by (auto simp: bit_simps)

lemma commits_bit: "commits x pat dep \<longleftrightarrow> (\<forall>n. bit dep n \<longrightarrow> bit x n = bit pat n)"
  unfolding commits_def by (auto simp: bits_eq bit_simps)

text \<open>A waiter that is served for the copy \<open>pat0\<close> of the pattern is served for the smaller pattern \<open>x\<close> if the bits it depends on agree.\<close>

lemma sat_dep:
  assumes "\<not> sat pat0 r" "sub pat (pat0 OR b)" "sat pat r" "commits x pat0 (d AND NOT b)" "sub (dep_of b pat r) d"
  shows "sat (pat AND (x OR b)) r"
proof -
  have pat: "bit pat n \<Longrightarrow> bit pat0 n \<or> bit b n" for n using assms(2) by (auto simp: sub_bit bit_simps)
  have d: "bit d n \<Longrightarrow> bit b n \<or> bit x n = bit pat0 n" for n using assms(4) unfolding commits_bit bit_diff by blast
  show ?thesis
    using mode_cases [OF assms(1)]
  proof
    assume m: "gpr5 r AND 0xf = SYS_EVENT_FLAG_WAIT_OR"
    then obtain n where "bit (gpr4 r) n" "bit pat n" "\<not> bit pat0 n" using assms(1,3) by (auto simp: sat_iff)
    then show ?thesis using pat m by (auto simp: sat_iff bit_simps SYS_EVENT_FLAG_WAIT_AND_def SYS_EVENT_FLAG_WAIT_OR_def)
  next
    assume m: "gpr5 r AND 0xf = SYS_EVENT_FLAG_WAIT_AND"
    have w: "bit pat n" if "bit (gpr4 r) n" for n using sat_and [OF assms(3) m] that by (auto simp: sub_bit)
    have "bit x n \<or> bit b n" if n: "bit (gpr4 r) n" for n
    proof (cases "b AND gpr4 r AND pat = gpr4 r")
      case True
      then show ?thesis using n by (auto simp: bits_eq bit_simps)
    next
      case False
      then have "dep_of b pat r = gpr4 r" using m by (simp add: dep_of_def SYS_EVENT_FLAG_WAIT_AND_def SYS_EVENT_FLAG_WAIT_OR_def)
      then have "bit d n" using assms(5) n by (simp add: sub_bit)
      then show ?thesis using d pat [OF w [OF n]] by blast
    qed
    then show ?thesis using w m by (auto simp: sat_iff bit_simps SYS_EVENT_FLAG_WAIT_AND_def SYS_EVENT_FLAG_WAIT_OR_def)
  qed
qed

lemma sub_meet [simp]: "sub (x AND y) x" "sub (x AND y) y" "sub x (x OR y)" "sub y (x OR y)"
  by (auto simp: sub_bit bit_simps)

lemma grant_dep:
  assumes "distinct ts" "\<forall>t\<in>set ts. \<not> sat pat0 (r t)" "sub pat (pat0 OR b)"
    "serve b ts (r, pat, dep, count) = (r', pat', dep', count')" "commits x pat0 (dep' AND NOT b)"
  shows "grant r ts (pat AND (x OR b)) = (fst (grant r ts pat), snd (grant r ts pat) AND (x OR b))"
  using assms
proof (induction ts arbitrary: r pat dep count)
  case (Cons t ts)
  let ?m = "set_mark 1 t r" and ?a = "after pat (r t)" and ?y = "x OR b"
  define r1 where "r1 = ?m(t := (?m t)\<lparr>gpr6 := pat, gpr3 := if sat pat (r t) then 0 else - 1\<rparr>)"
  have r1: "gpr4 (r1 u) = gpr4 (r u)" "gpr5 (r1 u) = gpr5 (r u)" for u by (simp_all add: r1_def)
  have g: "grant r1 ts p = grant r ts p" for p using r1 by (intro grant_cong) simp
  have z: "\<forall>u\<in>set ts. \<not> sat p (r u)" if "sub p pat0" for p using Cons.prems(2) sat_mono [OF that] by auto
  have z1: "\<forall>u\<in>set ts. \<not> sat p (r1 u)" if "sub p pat0" for p using z [OF that] same_wait [OF r1] by simp
  let ?d = "if sat pat (r t) then dep OR dep_of b pat (?m t) else dep" and ?c = "if sat pat (r t) then count + 1 else count"
  have m: "dep_of b pat (?m t) = dep_of b pat (r t)" by (simp add: dep_of_def)
  have sa: "sub ?a (pat0 OR b)" using sub_trans [OF after_sub] Cons.prems(3) .
  show ?case
  proof (cases "sat pat (r t) \<and> ?a = 0")
    case True
    then have "dep' = dep OR dep_of b pat (r t)" using Cons.prems(4) by (auto simp: serve_one_eq m)
    then have "sat (pat AND ?y) (r t)" using sat_dep [of pat0 "r t" pat b x dep'] Cons.prems True by simp
    then show ?thesis using True after_meet [of pat "r t" ?y] grant_zero [of ts r] z [of 0] by simp
  next
    case False
    have s: "serve b ts (r1, ?a, ?d, ?c) = (r', pat', dep', count')"
      using Cons.prems(4) False by (auto simp: serve_one_eq r1_def split: if_splits)
    have "sub ?d dep'" using serve_grant [OF _ z1 s] Cons.prems(1) by simp
    then have d: "sub (dep_of b pat (r t)) dep'" if "sat pat (r t)" using that by (auto simp: m sub_bit bit_simps)
    have "sat (pat AND ?y) (r t)" if "sat pat (r t)"
      using sat_dep [of pat0 "r t" pat b x dep'] Cons.prems d that by simp
    moreover have "sat pat (r t)" if "sat (pat AND ?y) (r t)" using sat_mono [OF _ that, of pat] by simp
    ultimately have eq: "sat pat (r t) = sat (pat AND ?y) (r t)" by blast
    have IH: "grant r ts (?a AND ?y) = (fst (grant r ts ?a), snd (grant r ts ?a) AND ?y)"
      using Cons.IH [OF _ z1 sa s Cons.prems(5)] Cons.prems(1) by (simp add: g)
    show ?thesis using eq after_meet [OF eq] IH by (cases "grant r ts ?a") auto
  qed
qed simp

lemma marks: "gpr3 (fold (set_mark v) xs r u) = gpr3 (r u) \<and> gpr4 (fold (set_mark v) xs r u) = gpr4 (r u)
    \<and> gpr5 (fold (set_mark v) xs r u) = gpr5 (r u) \<and> (u \<in> set xs \<longrightarrow> gpr7 (fold (set_mark v) xs r u) = v)"
  by (induction xs rule: rev_induct) auto

lemma set_pass_serve:
  assumes "chain h first xs"
  obtains r' to_write dep count where "set_pass prot h first b pat r = Some (r', to_write, dep AND NOT b, count)"
    "serve b (visit prot h xs) (fold (set_mark 0) xs r, pat OR b, 0, 0) = (r', to_write, dep, count)"
proof -
  let ?r = "fold (set_mark 0) xs r"
  have "filter (\<lambda>t. gpr7 (?r t) = 0) xs = xs" using marks [of 0 xs r] by (simp add: filter_id_conv)
  then have "set_loop prot h first b (?r, pat OR b, 0, 0) = Some (serve b (visit prot h xs) (?r, pat OR b, 0, 0))"
    by (intro set_loop_serve [OF assms]) simp
  then show ?thesis
    using that by (cases "serve b (visit prot h xs) (?r, pat OR b, 0, 0)") (simp add: set_pass_def for_cpu_chain [OF assms])
qed

lemma link_value: "chain h first (as @ xs) \<Longrightarrow> (case link_of as of None \<Rightarrow> first | Some p \<Rightarrow> next_cpu (h p)) = (case xs of [] \<Rightarrow> None | t # ts \<Rightarrow> Some t)"
  by (cases as rule: rev_cases; cases xs) (auto simp: link_of_def chain_append path_append)

lemma remove_loop_chain:
  assumes "chain h first (as @ xs)"
  shows "\<exists>first' h'. remove_loop r (link_of as) (first, h) woken = Some (woken @ filter (\<lambda>t. gpr3 (r t) = 0) xs, first', h')
    \<and> chain h' first' (as @ filter (\<lambda>t. gpr3 (r t) \<noteq> 0) xs) \<and> (\<forall>u. again (h' u) = again (h u))"
  using assms
proof (induction xs arbitrary: as h first woken)
  case Nil
  then show ?case using link_value [OF Nil] by (subst remove_loop.simps) simp
next
  case (Cons t xs)
  show ?case
  proof (cases "gpr3 (r t) = 0")
    case True
    obtain first1 h1 where l: "set_link (link_of as) (next_cpu (h t)) (first, h) = (first1, h1)" by fastforce
    have "distinct (as @ t # xs)" using chain_distinct [OF Cons.prems] .
    then have c: "chain (set_next t None h1) first1 (as @ xs)"
      using unlink(1) [OF Cons.prems l] by (subst chain_cong [of _ _ h1]) auto
    show ?thesis
      using Cons.IH [OF c, of "woken @ [t]"] unlink(4) [OF Cons.prems l]
      by (subst remove_loop.simps) (simp add: link_value [OF Cons.prems] l True)
  next
    case False
    have "link_of (as @ [t]) = Some t" by (simp add: link_of_def)
    then show ?thesis
      using Cons.IH [of h first "as @ [t]" woken] Cons.prems by (subst remove_loop.simps) (simp add: link_value [OF Cons.prems] False)
  qed
qed

lemma cancel_loop_chain:
  assumes "chain h first xs" "\<forall>t\<in>set xs. \<not> again (h t)"
  shows "\<exists>h' r' ws. cancel_loop pat (first, h) r woken = Some (woken @ ws, (None, h'), r') \<and> set ws = set xs
    \<and> (\<forall>u. again (h' u) = again (h u)) \<and> (\<forall>u. u \<notin> set xs \<longrightarrow> r' u = r u)"
  using assms
proof (induction "length xs" arbitrary: xs h first r woken)
  case 0
  then show ?case by (subst cancel_loop.simps) (simp add: schedule_def)
next
  case (Suc n)
  then have ne: "xs \<noteq> []" by auto
  obtain t first' h' where t: "t \<in> set xs" "schedule SYS_SYNC_FIFO True (first, h) = Some (Some t, first', h')"
    "chain h' first' (remove1 t xs)" "\<forall>u. again (h' u) = again (h u)"
    using schedule_chain [OF Suc.prems(1) ne Suc.prems(2)] by blast
  have s: "set (remove1 t xs) = set xs - {t}" using chain_distinct [OF Suc.prems(1)] by simp
  have "\<exists>h'' r' ws. cancel_loop pat (first', h') (r(t := (r t)\<lparr>gpr3 := CELL_ECANCELED, gpr6 := pat\<rparr>)) (woken @ [t])
      = Some ((woken @ [t]) @ ws, (None, h''), r') \<and> set ws = set (remove1 t xs) \<and> (\<forall>u. again (h'' u) = again (h' u))
      \<and> (\<forall>u. u \<notin> set (remove1 t xs) \<longrightarrow> r' u = (r(t := (r t)\<lparr>gpr3 := CELL_ECANCELED, gpr6 := pat\<rparr>)) u)"
    using Suc.prems(2) Suc.hyps(2) t s by (intro Suc.hyps(1)) (auto simp: length_remove1)
  then obtain h'' r' ws where l: "cancel_loop pat (first', h') (r(t := (r t)\<lparr>gpr3 := CELL_ECANCELED, gpr6 := pat\<rparr>)) (woken @ [t])
      = Some ((woken @ [t]) @ ws, (None, h''), r')" and ws: "set ws = set (remove1 t xs)" "\<forall>u. again (h'' u) = again (h' u)"
      and r': "\<forall>u. u \<notin> set (remove1 t xs) \<longrightarrow> r' u = (r(t := (r t)\<lparr>gpr3 := CELL_ECANCELED, gpr6 := pat\<rparr>)) u" by blast
  have "set (t # ws) = set xs" unfolding list.set(2) ws(1) s using t(1) by blast
  moreover have "r' u = r u" if "u \<notin> set xs" for u
  proof -
    have "u \<noteq> t" "u \<notin> set (remove1 t xs)" unfolding s using that t(1) by blast+
    then show ?thesis using r' by simp
  qed
  moreover have "cancel_loop pat (first, h) r woken = Some (woken @ t # ws, (None, h''), r')"
    using l by (subst cancel_loop.simps) (simp add: t(2))
  ultimately show ?case using t(4) ws(2) by metis
qed

end
