(* ===== verification/Lv2_Event_Sys.thy ===== *)
theory Lv2_Event_Sys
  imports Lv2_Event_Flag
begin

text \<open>
  The event flag as a system of threads: the invariant of the steps of \<open>Lv2_Event_Flag\<close>, and what holds in every interleaving.
\<close>

unbundle bit_operations_syntax

section \<open>Invariant\<close>

definition ef_in_queue :: "ef_pc \<Rightarrow> bool" where
  "ef_in_queue p \<longleftrightarrow> p = Asleep \<or> p = Stopped"

text \<open>What a thread knows between its decision and the write: the pattern has only lost bits, and whoever is left waits rightly.\<close>

fun ef_pc_ok :: "ef_state \<Rightarrow> tid list \<Rightarrow> tid \<Rightarrow> ef_pc \<Rightarrow> bool" where
  "ef_pc_ok s xs t (Set_commit b pat to_write dep count) \<longleftrightarrow> lock s = Some t \<and> sub (pattern s) pat \<and> sub to_write (pat OR b)
     \<and> (\<forall>u\<in>set xs. \<not> sat pat (regs s u)) \<and> (\<forall>u\<in>set xs. gpr3 (regs s u) \<noteq> 0 \<longrightarrow> \<not> sat to_write (regs s u))
     \<and> (count = 0 \<longrightarrow> (\<forall>u\<in>set xs. gpr3 (regs s u) \<noteq> 0))"
| "ef_pc_ok s xs t (Wait_lock b mode) \<longleftrightarrow> lock s \<noteq> Some t \<and> gpr3 (regs s t) \<noteq> 0 \<and> gpr4 (regs s t) = b \<and> gpr5 (regs s t) = ucast mode"
| "ef_pc_ok s xs t _ \<longleftrightarrow> lock s \<noteq> Some t"

definition ef_inv :: "ef_state \<Rightarrow> tid list \<Rightarrow> bool" where
  "ef_inv s xs \<longleftrightarrow> chain (thr s) (sq s) xs
     \<and> (\<forall>t. ef_in_queue (pc s t) \<longleftrightarrow> t \<in> set xs)
     \<and> (\<forall>t. ef_pc_ok s xs t (pc s t))
     \<and> (\<forall>t\<in>set xs. \<not> sat (pattern s) (regs s t))
     \<and> (lock s = None \<longrightarrow> (\<forall>t\<in>set xs. gpr3 (regs s t) \<noteq> 0))
     \<and> (ef_type s = SYS_SYNC_WAITER_SINGLE \<longrightarrow> length xs \<le> 1)"

lemma ef_invD:
  assumes "ef_inv s xs"
  shows "chain (thr s) (sq s) xs" "ef_in_queue (pc s t) \<longleftrightarrow> t \<in> set xs" "ef_pc_ok s xs t (pc s t)"
    "t \<in> set xs \<Longrightarrow> \<not> sat (pattern s) (regs s t)" "lock s = None \<Longrightarrow> t \<in> set xs \<Longrightarrow> gpr3 (regs s t) \<noteq> 0"
    "ef_type s = SYS_SYNC_WAITER_SINGLE \<Longrightarrow> length xs \<le> 1"
  using assms unfolding ef_inv_def by blast+

lemma ef_pc_ok_mono:
  assumes "ef_pc_ok s xs t p" "lock s' = lock s" "sub (pattern s') (pattern s)" "set ys \<subseteq> set xs"
    "\<And>u. u \<in> set ys \<or> u = t \<and> (\<exists>b m. p = Wait_lock b m) \<Longrightarrow> regs s' u = regs s u"
  shows "ef_pc_ok s' ys t p"
proof (cases p)
  case (Set_commit b pat tw d n)
  then have "sub (pattern s') pat" using assms(1) sub_trans [OF assms(3)] by simp
  moreover have "regs s' u = regs s u" "u \<in> set xs" if "u \<in> set ys" for u using assms(4,5) that by auto
  ultimately show ?thesis using assms(1,2) Set_commit by simp
next
  case (Wait_lock b m)
  then have "regs s' t = regs s t" using assms(5) by blast
  then show ?thesis using assms(1,2) Wait_lock by simp
qed (use assms(1,2) in auto)

text \<open>A thread outside the queue moves on, and perhaps bits are cleared.\<close>

lemma ef_inv_move:
  assumes inv: "ef_inv s xs" and q: "\<not> ef_in_queue (pc s t)" "\<not> ef_in_queue p"
    and x: "sub x (pattern s)" and p: "ef_pc_ok (s\<lparr>pattern := x, regs := (regs s)(t := r)\<rparr>) xs t p"
    and c: "\<And>b pat tw d n. pc s t \<noteq> Set_commit b pat tw d n"
  shows "ef_inv (ef_goto t p (s\<lparr>pattern := x, regs := (regs s)(t := r)\<rparr>)) xs"
proof -
  let ?s = "ef_goto t p (s\<lparr>pattern := x, regs := (regs s)(t := r)\<rparr>)"
  have n: "t \<notin> set xs" using ef_invD(2) [OF inv, of t] q(1) by simp
  have same: "regs ?s u = regs s u" if "u \<in> set xs" for u using that n by auto
  show ?thesis
    unfolding ef_inv_def
  proof (intro conjI allI ballI impI)
    show "ef_in_queue (pc ?s u) \<longleftrightarrow> u \<in> set xs" for u using ef_invD(2) [OF inv, of u] q n by auto
    show "ef_pc_ok ?s xs u (pc ?s u)" for u
    proof (cases "u = t")
      case True
      then show ?thesis using p by (cases p) auto
    next
      case False
      then have "ef_pc_ok ?s xs u (pc s u)" using x same n by (intro ef_pc_ok_mono [OF ef_invD(3) [OF inv, of u]]) auto
      then show ?thesis using False by simp
    qed
    show "\<not> sat (pattern ?s) (regs ?s u)" if "u \<in> set xs" for u
      using ef_invD(4) [OF inv that] sat_mono [OF x] same [OF that] by auto
    show "gpr3 (regs ?s u) \<noteq> 0" if "lock ?s = None" "u \<in> set xs" for u
      using ef_invD(5) [OF inv, of u] that same by simp
  qed (use ef_invD(1,6) [OF inv] in auto)
qed

lemma ef_inv_clear: "ef_inv s xs \<Longrightarrow> sub x (pattern s) \<Longrightarrow> ef_inv (s\<lparr>pattern := x\<rparr>) xs"
  unfolding ef_inv_def using sat_mono [of x "pattern s"]
  by (auto intro!: ef_pc_ok_mono [of s xs _ _ "s\<lparr>pattern := x\<rparr>" xs])

lemma check_sub: "sub (fst (snd (check_pattern pat w m))) pat"
  using after_sub [of pat "\<lparr>gpr3 = 0, gpr4 = w, gpr5 = m, gpr6 = 0, gpr7 = 0\<rparr>"] by (simp add: after_def)

lemma ef_inv_trywait: "ef_inv s xs \<Longrightarrow> ef_inv (ef_trywait b m s) xs"
  unfolding ef_trywait_def using ef_inv_clear [OF _ check_sub] by simp

lemma ef_inv_clear_call: "ef_inv s xs \<Longrightarrow> ef_inv (ef_clear b s) xs"
  unfolding ef_clear_def using ef_inv_clear [of s xs "pattern s AND b"] by simp

lemma ef_inv_wait_begin:
  assumes inv: "ef_inv s xs" and t: "pc s t = Idle"
  shows "ef_inv (ef_wait_begin t b m s) xs"
proof -
  have l: "lock s \<noteq> Some t" using ef_invD(3) [OF inv, of t] t by simp
  obtain ok pat res where c: "check_pattern (pattern s) b (ucast m) = (ok, pat, res)" by (metis prod_cases3)
  have sub: "sub pat (pattern s)" using check_sub [of "pattern s" b "ucast m"] c by simp
  let ?r = "\<lparr>gpr3 = - 1, gpr4 = b, gpr5 = ucast m, gpr6 = 0, gpr7 = gpr7 (regs s t)\<rparr>"
  have "ef_inv (ef_goto t (if ok then Idle else Wait_lock b m) (s\<lparr>pattern := pat, regs := (regs s)(t := ?r\<lparr>gpr6 := res\<rparr>)\<rparr>)) xs"
    using t l sub by (intro ef_inv_move [OF inv]) (auto simp: ef_in_queue_def)
  moreover have "ef_inv (ef_goto t Idle (s\<lparr>pattern := pattern s, regs := (regs s)(t := ?r)\<rparr>)) xs"
    using t l by (intro ef_inv_move [OF inv]) (auto simp: ef_in_queue_def)
  ultimately show ?thesis by (simp add: ef_wait_begin_def c Let_def split: if_splits)
qed

lemma ef_inv_goto:
  assumes "ef_inv s xs" "\<not> ef_in_queue (pc s t)" "\<not> ef_in_queue p" "ef_pc_ok s xs t p" "\<And>b pat tw d n. pc s t \<noteq> Set_commit b pat tw d n"
  shows "ef_inv (ef_goto t p s) xs"
  using ef_inv_move [OF assms(1-3), of "pattern s" "regs s t"] assms(4,5) by simp

lemma ef_inv_set_begin: "ef_inv s xs \<Longrightarrow> pc s t = Idle \<Longrightarrow> ef_inv (set_begin t b s) xs"
  using ef_invD(3) [of s xs t] by (auto simp: set_begin_def ef_in_queue_def intro!: ef_inv_goto)

lemma ef_inv_wait_locked:
  assumes inv: "ef_inv s xs" and t: "pc s t = Wait_lock b m" "lock s = None"
  shows "\<exists>ys. ef_inv (ef_wait_locked t b m s) ys"
proof -
  obtain ok pat res where c: "check_pattern (pattern s) b (ucast m) = (ok, pat, res)" by (metis prod_cases3)
  have sub: "sub pat (pattern s)" using check_sub [of "pattern s" b "ucast m"] c by simp
  let ?r = "(regs s t)\<lparr>gpr6 := res\<rparr>"
  let ?s = "s\<lparr>pattern := pat, regs := (regs s)(t := ?r)\<rparr>"
  have q: "\<not> ef_in_queue (pc s t)" using t by (simp add: ef_in_queue_def)
  have idle: "ef_inv (ef_goto t Idle ?s) xs"
    using ef_inv_move [OF inv q, of Idle pat ?r] t sub by (simp add: ef_in_queue_def)
  show ?thesis
  proof (cases "ok \<or> ef_type s = SYS_SYNC_WAITER_SINGLE \<and> sq s \<noteq> None")
    case True
    then have "ef_wait_locked t b m s = ef_goto t Idle ?s" by (auto simp: ef_wait_locked_def c Let_def)
    then show ?thesis using idle by auto
  next
    case False
    obtain first h tag where e: "emplace t (sq s, thr s, order_tag s) = (first, h, tag)" by (metis prod_cases3)
    let ?s' = "(ef_goto t Asleep ?s)\<lparr>sq := first, thr := h, order_tag := tag\<rparr>"
    have s': "ef_wait_locked t b m s = ?s'" using False e by (auto simp: ef_wait_locked_def c Let_def)
    have ok: "gpr3 (regs s t) \<noteq> 0" "gpr4 (regs s t) = b" "gpr5 (regs s t) = ucast m" using ef_invD(3) [OF inv, of t] t by auto
    have n: "t \<notin> set xs" using ef_invD(2) [OF inv, of t] q by simp
    have "sat (pattern s) (regs s t) = ok" using ok c by (simp add: sat_def)
    then have "\<not> sat pat ?r" using False sat_mono [OF sub] same_wait [of ?r "regs s t"] by auto
    moreover have "\<not> sat pat (regs s u)" if "u \<in> set xs" for u using ef_invD(4) [OF inv that] sat_mono [OF sub] by blast
    moreover have "\<And>u. u \<noteq> t \<Longrightarrow> ef_pc_ok ?s' (t # xs) u (pc s u)"
    proof -
      fix u assume "u \<noteq> t"
      then show "ef_pc_ok ?s' (t # xs) u (pc s u)" using ef_invD(3) [OF inv, of u] t(2) by (cases "pc s u") auto
    qed
    moreover have "ef_type s = SYS_SYNC_WAITER_SINGLE \<Longrightarrow> xs = []"
      using False ef_invD(1) [OF inv] by (cases xs) auto
    ultimately have "ef_inv ?s' (t # xs)"
      unfolding ef_inv_def using ef_invD(2) [OF inv] ef_invD(5) [OF inv t(2)] emplace_chain(1) [OF ef_invD(1) [OF inv] n e] ok t(2) n
      by (intro conjI allI ballI impI) (auto simp: ef_in_queue_def split: if_splits)
    then show ?thesis unfolding s' by blast
  qed
qed

lemma set_pass_facts:
  assumes c: "chain h first xs" and u: "\<forall>u\<in>set xs. \<not> sat pat (r u)"
  obtains r' tw dep ws where "set_pass prot h first b pat r = Some (r', tw, dep, length ws)"
    "grant r (visit prot h xs) (pat OR b) = (ws, tw)"
    "\<And>u. gpr4 (r' u) = gpr4 (r u)" "\<And>u. gpr5 (r' u) = gpr5 (r u)"
    "\<And>u. u \<in> set ws \<Longrightarrow> gpr3 (r' u) = 0" "\<And>u. u \<in> set xs \<Longrightarrow> gpr3 (r' u) = 0 \<Longrightarrow> u \<in> set ws \<or> gpr3 (r u) = 0 \<and> ws \<noteq> []"
    "\<And>u. u \<notin> set xs \<Longrightarrow> gpr3 (r' u) = gpr3 (r u)"
    "\<And>x. commits x pat dep \<Longrightarrow> sub x pat \<Longrightarrow> grant r (visit prot h xs) (x OR b) = (ws, tw AND (x OR b))"
proof -
  let ?r = "fold (set_mark 0) xs r" and ?ts = "visit prot h xs"
  obtain r' tw dep count where p: "set_pass prot h first b pat r = Some (r', tw, dep AND NOT b, count)"
    and s: "serve b ?ts (?r, pat OR b, 0, 0) = (r', tw, dep, count)" by (rule set_pass_serve [OF c])
  have m: "gpr3 (?r u) = gpr3 (r u)" "gpr4 (?r u) = gpr4 (r u)" "gpr5 (?r u) = gpr5 (r u)" for u using marks [of 0 xs r u] by simp_all
  have g: "grant ?r ?ts p = grant r ?ts p" for p using m by (intro grant_cong) simp
  have d: "distinct ?ts" using chain_distinct [OF c] by simp
  have n: "\<forall>u\<in>set ?ts. \<not> sat p (?r u)" if "sub p pat" for p
    using u sat_mono [OF that] same_wait [OF m(2,3)] by auto
  obtain ws where ws: "grant r ?ts (pat OR b) = (ws, tw)" using serve_grant [OF d n s] g by (metis sub_zero)
  have G: "count = length ws" "gpr4 (r' v) = gpr4 (r v)" "gpr5 (r' v) = gpr5 (r v)" "v \<notin> set xs \<Longrightarrow> gpr3 (r' v) = gpr3 (r v)"
    "v \<in> set ws \<Longrightarrow> gpr3 (r' v) = 0" "v \<in> set xs \<Longrightarrow> gpr3 (r' v) = 0 \<Longrightarrow> v \<in> set ws \<or> gpr3 (r v) = 0 \<and> ws \<noteq> []" for v
    using serve_grant [OF d n s] by (simp_all add: g ws m)
  have "grant r ?ts (x OR b) = (ws, tw AND (x OR b))" if x: "commits x pat (dep AND NOT b)" "sub x pat" for x
  proof -
    have "(pat OR b) AND (x OR b) = x OR b" using x(2) by (auto simp: sub_bit bits_eq bit_simps)
    then show ?thesis using grant_dep [OF d n _ s x(1)] by (simp add: g ws)
  qed
  with p G ws show ?thesis using that [of r' tw "dep AND NOT b" ws] by simp
qed

lemma ef_inv_decide:
  assumes inv: "ef_inv s xs" and t: "\<not> ef_in_queue (pc s t)" "lock s = None \<or> lock s = Some t"
  shows "ef_inv (decide t b s) xs"
proof -
  let ?pat = "pattern s"
  obtain r' tw dep ws where p: "set_pass (protocol s) (thr s) (sq s) b ?pat (regs s) = Some (r', tw, dep, length ws)"
    and g: "grant (regs s) (visit (protocol s) (thr s) xs) (?pat OR b) = (ws, tw)"
    and r: "\<And>u. gpr4 (r' u) = gpr4 (regs s u)" "\<And>u. gpr5 (r' u) = gpr5 (regs s u)"
    "\<And>u. u \<in> set ws \<Longrightarrow> gpr3 (r' u) = 0" "\<And>u. u \<in> set xs \<Longrightarrow> gpr3 (r' u) = 0 \<Longrightarrow> u \<in> set ws \<or> gpr3 (regs s u) = 0 \<and> ws \<noteq> []"
    "\<And>u. u \<notin> set xs \<Longrightarrow> gpr3 (r' u) = gpr3 (regs s u)"
    by (rule set_pass_facts [OF ef_invD(1) [OF inv], of ?pat "regs s" "protocol s" b]) (use ef_invD(4) [OF inv] in auto)
  let ?s = "decide t b s"
  have s: "?s = (ef_goto t (Set_commit b ?pat tw dep (length ws)) s)\<lparr>regs := r', lock := Some t\<rparr>" using p by (simp add: decide_def)
  have w: "sat q (r' u) = sat q (regs s u)" for q u using same_wait [OF r(1,2)] by simp
  have n: "t \<notin> set xs" using ef_invD(2) [OF inv, of t] t(1) by simp
  have tw: "\<not> sat tw (regs s u)" if "u \<in> set xs" "gpr3 (r' u) \<noteq> 0" for u
    using grant_unsat [of u "visit (protocol s) (thr s) xs" "regs s" "?pat OR b"] that r(3) g chain_distinct [OF ef_invD(1) [OF inv]] by auto
  have stw: "sub tw (?pat OR b)" using grant_sub [of "regs s" "visit (protocol s) (thr s) xs" "?pat OR b"] g by simp
  have z: "gpr3 (r' u) \<noteq> 0" if "ws = []" "u \<in> set xs" for u using r(4) [OF that(2)] that(1) by auto
  show ?thesis
    unfolding ef_inv_def
  proof (intro conjI allI ballI impI)
    show "ef_in_queue (pc ?s u) \<longleftrightarrow> u \<in> set xs" for u using ef_invD(2) [OF inv, of u] n by (auto simp: s ef_in_queue_def)
    show "\<not> sat (pattern ?s) (regs ?s u)" if "u \<in> set xs" for u using ef_invD(4) [OF inv that] by (simp add: s w)
    show "ef_pc_ok ?s xs u (pc ?s u)" for u
    proof (cases "u = t")
      case True
      then show ?thesis using stw tw z ef_invD(4) [OF inv] by (simp add: s w)
    next
      case False
      have "u \<notin> set xs" if "pc s u = Wait_lock b' m" for b' m using ef_invD(2) [OF inv, of u] that by (simp add: ef_in_queue_def)
      then show ?thesis using ef_invD(3) [OF inv, of u] False t(2) r(1,2,5) by (cases "pc s u") (auto simp: s)
    qed
  qed (use ef_invD(1,6) [OF inv] in \<open>auto simp: s\<close>)
qed

lemma ef_inv_set_locked:
  assumes inv: "ef_inv s xs" and t: "pc s t = Set_lock b" "lock s = None"
  shows "ef_inv (set_locked t b s) xs"
proof -
  have "ef_inv (ef_goto t Idle s) xs" using t by (intro ef_inv_goto [OF inv]) (auto simp: ef_in_queue_def)
  moreover have "ef_inv (decide t b s) xs" using t by (intro ef_inv_decide [OF inv]) (auto simp: ef_in_queue_def)
  ultimately show ?thesis by (simp add: set_locked_def any_again_chain [OF ef_invD(1) [OF inv]] split: bool.split)
qed

lemma written_eq: "sub x pat \<Longrightarrow> sub tw (pat OR b) \<Longrightarrow> written b pat tw x = tw AND (x OR b)"
  unfolding written_def by (auto simp: sub_bit bits_eq bit_simps dest: bit_imp_le_length)

lemma set_commit_wake:
  assumes inv: "ef_inv s xs" and t: "pc s t = Set_commit b pat tw dep n" and c: "commits (pattern s) pat dep" and n: "n \<noteq> 0"
  obtains first h where "set_commit t b pat tw dep n s = s\<lparr>pattern := tw AND (pattern s OR b), sq := first, thr := h, lock := None,
       pc := \<lambda>u. if u = t then Idle else if u \<in> set xs \<and> gpr3 (regs s u) = 0 then Woken else pc s u\<rparr>"
    "chain h first (filter (\<lambda>u. gpr3 (regs s u) \<noteq> 0) xs)" "\<forall>u. again (h u) = again (thr s u)"
proof -
  have w: "written b pat tw (pattern s) = tw AND (pattern s OR b)" using ef_invD(3) [OF inv, of t] t by (intro written_eq) simp_all
  obtain first h where l: "remove_loop (regs s) None (sq s, thr s) [] = Some (filter (\<lambda>t. gpr3 (regs s t) = 0) xs, first, h)"
    "chain h first (filter (\<lambda>u. gpr3 (regs s u) \<noteq> 0) xs)" "\<forall>u. again (h u) = again (thr s u)"
    using remove_loop_chain [of "thr s" "sq s" "[]" xs "regs s" "[]"] ef_invD(1) [OF inv] by (auto simp: link_of_def)
  have "set_commit t b pat tw dep n s = s\<lparr>pattern := tw AND (pattern s OR b), sq := first, thr := h, lock := None,
       pc := \<lambda>u. if u = t then Idle else if u \<in> set xs \<and> gpr3 (regs s u) = 0 then Woken else pc s u\<rparr>"
    using c n by (simp add: set_commit_def Let_def w l(1) cong: if_cong)
  then show ?thesis using l(2,3) by (rule that)
qed

lemma ef_inv_set_commit:
  assumes inv: "ef_inv s xs" and t: "pc s t = Set_commit b pat tw dep n"
  shows "\<exists>ys. ef_inv (set_commit t b pat tw dep n s) ys"
proof (cases "commits (pattern s) pat dep")
  case False
  have "ef_inv (decide t b s) xs" using t ef_invD(3) [OF inv, of t] by (intro ef_inv_decide [OF inv]) (auto simp: ef_in_queue_def)
  then show ?thesis using False by (auto simp: set_commit_def)
next
  case True
  have ok: "lock s = Some t" "sub (pattern s) pat" "sub tw (pat OR b)"
    "u \<in> set xs \<Longrightarrow> gpr3 (regs s u) \<noteq> 0 \<Longrightarrow> \<not> sat tw (regs s u)" "n = 0 \<Longrightarrow> u \<in> set xs \<Longrightarrow> gpr3 (regs s u) \<noteq> 0" for u
    using ef_invD(3) [OF inv, of t] t by auto
  let ?ys = "filter (\<lambda>u. gpr3 (regs s u) \<noteq> 0) xs" and ?x = "tw AND (pattern s OR b)"
  have tx: "t \<notin> set xs" using ef_invD(2) [OF inv, of t] t by (simp add: ef_in_queue_def)
  have all: "ef_inv s' ?ys" if s': "pattern s' = ?x" "chain (thr s') (sq s') ?ys" "lock s' = None" "regs s' = regs s" "ef_type s' = ef_type s"
      "pc s' = (\<lambda>u. if u = t then Idle else if u \<in> set xs \<and> gpr3 (regs s u) = 0 then Woken else pc s u)" for s'
    unfolding ef_inv_def
  proof (intro conjI allI ballI impI)
    show "ef_in_queue (pc s' u) \<longleftrightarrow> u \<in> set ?ys" for u using ef_invD(2) [OF inv, of u] tx by (auto simp: s' ef_in_queue_def)
    show "ef_pc_ok s' ?ys u (pc s' u)" for u
      using ef_invD(3) [OF inv, of u] ok(1) by (cases "pc s u") (auto simp: s')
    show "\<not> sat (pattern s') (regs s' u)" if "u \<in> set ?ys" for u
      using that ok(4) [of u] sat_mono [OF sub_meet(1) [of tw "pattern s OR b"]] by (auto simp: s')
    show "length ?ys \<le> 1" if "ef_type s' = SYS_SYNC_WAITER_SINGLE"
      using ef_invD(6) [OF inv] that s'(5) le_trans [OF length_filter_le] by metis
  qed (use s' in auto)
  show ?thesis
  proof (cases "n = 0")
    case n: True
    have f: "?ys = xs" using ok(5) n by (simp add: filter_id_conv)
    have "set_commit t b pat tw dep n s = (ef_goto t Idle (s\<lparr>pattern := ?x\<rparr>))\<lparr>lock := None\<rparr>"
      using True n written_eq [OF ok(2,3)] by (simp add: set_commit_def Let_def)
    moreover have "ef_inv \<dots> ?ys" using ef_invD(1) [OF inv] ok(5) n by (intro all) (auto simp: f fun_eq_iff)
    ultimately show ?thesis by metis
  next
    case n: False
    obtain first h where e: "set_commit t b pat tw dep n s = s\<lparr>pattern := ?x, sq := first, thr := h, lock := None,
       pc := \<lambda>u. if u = t then Idle else if u \<in> set xs \<and> gpr3 (regs s u) = 0 then Woken else pc s u\<rparr>" "chain h first ?ys"
      by (rule set_commit_wake [OF inv t True n])
    have "ef_inv (set_commit t b pat tw dep n s) ?ys" unfolding e(1) using e(2) by (intro all) simp_all
    then show ?thesis by blast
  qed
qed

lemma ef_inv_dequeue:
  assumes inv: "ef_inv s xs" and l: "lock s = None" and c: "chain h first ys" and ys: "set ys \<subseteq> set xs" "length ys \<le> length xs"
    and p: "\<And>u. u \<in> set xs - set ys \<Longrightarrow> p u = Idle \<or> p u = Woken" "\<And>u. u \<notin> set xs - set ys \<Longrightarrow> p u = pc s u"
    and r: "\<And>u. u \<notin> set xs - set ys \<Longrightarrow> r u = regs s u"
  shows "ef_inv (s\<lparr>sq := first, thr := h, regs := r, pc := p\<rparr>) ys"
  unfolding ef_inv_def
proof (intro conjI allI ballI impI)
  let ?s = "s\<lparr>sq := first, thr := h, regs := r, pc := p\<rparr>"
  show "ef_in_queue (pc ?s u) \<longleftrightarrow> u \<in> set ys" for u
    using ef_invD(2) [OF inv, of u] p(1) [of u] p(2) [of u] ys(1) by (cases "u \<in> set xs - set ys") (auto simp: ef_in_queue_def)
  show "ef_pc_ok ?s ys u (pc ?s u)" for u
  proof (cases "u \<in> set xs - set ys")
    case True
    then show ?thesis using p(1) [OF True] l by auto
  next
    case False
    have "ef_pc_ok ?s ys u (pc s u)" using r ys False by (intro ef_pc_ok_mono [OF ef_invD(3) [OF inv, of u]]) auto
    then show ?thesis using p(2) [OF False] by simp
  qed
  show "\<not> sat (pattern ?s) (regs ?s u)" if "u \<in> set ys" for u using ef_invD(4) [OF inv, of u] that ys(1) r [of u] by auto
  show "gpr3 (regs ?s u) \<noteq> 0" if "u \<in> set ys" for u using ef_invD(5) [OF inv l, of u] that ys(1) r [of u] by auto
  show "length ys \<le> 1" if "ef_type ?s = SYS_SYNC_WAITER_SINGLE" using ef_invD(6) [OF inv] that ys(2) by simp
qed (use c in simp)

lemma ef_inv_wait_timeout:
  assumes inv: "ef_inv s xs" and t: "pc s t = Asleep \<or> pc s t = Woken" "lock s = None"
  shows "\<exists>ys. ef_inv (ef_wait_timeout t s) ys"
proof (cases "t \<in> set xs")
  case False
  then have "pc s t = Woken" using ef_invD(2) [OF inv, of t] t(1) by (auto simp: ef_in_queue_def)
  then have "ef_inv (ef_goto t Idle s) xs" using t by (intro ef_inv_goto [OF inv]) (auto simp: ef_in_queue_def)
  then show ?thesis using unqueue_absent [OF ef_invD(1) [OF inv] False] by (auto simp: ef_wait_timeout_def)
next
  case True
  obtain first h where u: "unqueue True t (sq s, thr s) = Some (Some t, first, h)" "chain h first (remove1 t xs)"
    using unqueue_chain [OF ef_invD(1) [OF inv] True] by blast
  have d: "set (remove1 t xs) = set xs - {t}" using chain_distinct [OF ef_invD(1) [OF inv]] by simp
  let ?r = "(regs s)(t := (regs s t)\<lparr>gpr3 := CELL_ETIMEDOUT, gpr6 := pattern s\<rparr>)"
  have "ef_wait_timeout t s = s\<lparr>sq := first, thr := h, regs := ?r, pc := (pc s)(t := Idle)\<rparr>"
    using u(1) by (simp add: ef_wait_timeout_def)
  moreover have "ef_inv \<dots> (remove1 t xs)"
  proof (rule ef_inv_dequeue [OF inv t(2) u(2)])
    have "set xs - set (remove1 t xs) = {t}" unfolding d using True by blast
    then show "((pc s)(t := Idle)) u = Idle \<or> ((pc s)(t := Idle)) u = Woken" if "u \<in> set xs - set (remove1 t xs)" for u using that by simp
    show "((pc s)(t := Idle)) u = pc s u" "?r u = regs s u" if "u \<notin> set xs - set (remove1 t xs)" for u
      using that \<open>set xs - set (remove1 t xs) = {t}\<close> by simp_all
  qed (simp_all add: set_remove1_subset length_remove1)
  ultimately show ?thesis by metis
qed

lemma ef_inv_wait_stopped:
  assumes inv: "ef_inv s xs" and t: "pc s t = Asleep" "lock s = None"
  shows "ef_inv (ef_wait_stopped t s) xs"
proof -
  let ?s = "ef_wait_stopped t s"
  have "chain (thr ?s) (sq ?s) xs" using ef_invD(1) [OF inv] by (subst chain_cong [of _ _ "thr s"]) (auto simp: ef_wait_stopped_def)
  moreover have "ef_pc_ok ?s xs u (pc ?s u)" for u
    using ef_invD(3) [OF inv, of u] t by (cases "pc s u") (auto simp: ef_wait_stopped_def)
  moreover have "ef_in_queue (pc ?s u) \<longleftrightarrow> u \<in> set xs" for u
    using ef_invD(2) [OF inv, of u] t by (auto simp: ef_wait_stopped_def ef_in_queue_def)
  moreover have "pattern ?s = pattern s" "regs ?s = regs s" "ef_type ?s = ef_type s" by (simp_all add: ef_wait_stopped_def)
  ultimately show ?thesis unfolding ef_inv_def using ef_invD(4,6) [OF inv] ef_invD(5) [OF inv t(2)] by auto
qed

lemma ef_inv_cancel:
  assumes inv: "ef_inv s xs" and l: "lock s = None"
  shows "\<exists>ys. ef_inv (ef_cancel s) ys"
proof (cases "\<exists>t\<in>set xs. again (thr s t)")
  case True
  then show ?thesis using inv by (auto simp: ef_cancel_def any_again_chain [OF ef_invD(1) [OF inv]])
next
  case False
  then have a: "\<forall>t\<in>set xs. \<not> again (thr s t)" by blast
  obtain h r ws where c: "cancel_loop (pattern s) (sq s, thr s) (regs s) [] = Some (ws, (None, h), r)" "set ws = set xs"
    "\<forall>u. u \<notin> set xs \<longrightarrow> r u = regs s u"
    using cancel_loop_chain [OF ef_invD(1) [OF inv] a, of "pattern s" "regs s" "[]"] by auto
  have "ef_cancel s = s\<lparr>sq := None, thr := h, regs := r, pc := \<lambda>u. if u \<in> set ws then Woken else pc s u\<rparr>"
    using False by (simp add: ef_cancel_def any_again_chain [OF ef_invD(1) [OF inv]] c(1))
  moreover have "ef_inv \<dots> []" using c by (intro ef_inv_dequeue [OF inv l]) auto
  ultimately show ?thesis by metis
qed

section \<open>Every interleaving\<close>

definition new_event_flag :: "u32 \<Rightarrow> u32 \<Rightarrow> u64 \<Rightarrow> threads \<Rightarrow> u64 \<Rightarrow> regs \<Rightarrow> ef_state" where
  "new_event_flag prot typ init h tag r = \<lparr>ef_type = typ, protocol = prot, pattern = init, sq = None, thr = h, order_tag = tag,
     lock = None, regs = r, pc = \<lambda>_. Idle\<rparr>"

definition ef_init :: "ef_state \<Rightarrow> bool" where
  "ef_init s \<longleftrightarrow> sq s = None \<and> lock s = None \<and> pc s = (\<lambda>_. Idle)"

lemma ef_inv_step:
  assumes step: "ef_step s s'" and inv: "ef_inv s xs"
  shows "\<exists>ys. ef_inv s' ys"
  using step
proof cases
  case (2 t b m)
  then show ?thesis using ef_inv_wait_locked [OF inv] by simp
next
  case (3 t)
  then show ?thesis using ef_inv_wait_timeout [OF inv] by simp
next
  case (5 t)
  then have "ef_inv s' xs" using ef_invD(3) [OF inv, of t] unfolding 5(1) by (intro ef_inv_goto [OF inv]) (auto simp: ef_in_queue_def)
  then show ?thesis by blast
next
  case (10 t b pat tw dep n)
  then show ?thesis using ef_inv_set_commit [OF inv] by simp
next
  case 11
  then show ?thesis using ef_inv_cancel [OF inv] by simp
qed (use inv in \<open>auto intro: ef_inv_wait_begin ef_inv_wait_stopped ef_inv_trywait ef_inv_clear_call ef_inv_set_begin ef_inv_set_locked\<close>)

interpretation ef: invariant_system ef_init ef_step "\<lambda>s. \<exists>xs. ef_inv s xs"
proof unfold_locales
  show "\<exists>xs. ef_inv s xs" if "ef_init s" for s
    using that by (intro exI [of _ "[]"]) (simp add: ef_inv_def ef_init_def ef_in_queue_def)
  show "\<exists>xs. ef_inv s' xs" if "\<exists>xs. ef_inv s xs" "ef_step s s'" for s s'
    using that(1) ef_inv_step [OF that(2)] by blast
qed

definition ef_reachable :: "ef_state \<Rightarrow> bool" where
  "ef_reachable s \<longleftrightarrow> (\<exists>s0. ef_init s0 \<and> ef_step\<^sup>*\<^sup>* s0 s)"

lemma reachable_ef_inv: "ef_reachable s \<Longrightarrow> \<exists>xs. ef_inv s xs"
  unfolding ef_reachable_def using ef.reachable_inv by blast

section \<open>Properties\<close>

text \<open>
  C18: no wakeup is lost: in every interleaving of waits, timeouts, stops, attempts, sets, clears and cancellations, the bits a
  sleeping thread waits for are not set as its mode asks, and a flag for a single waiter has at most one.
\<close>

theorem event_flag_no_lost_wakeup:
  assumes "ef_reachable s" "pc s t = Asleep"
  shows "\<not> fst (check_pattern (pattern s) (gpr4 (regs s t)) (gpr5 (regs s t)))
    \<and> (ef_type s = SYS_SYNC_WAITER_SINGLE \<and> pc s u = Asleep \<longrightarrow> u = t)"
proof -
  obtain xs where inv: "ef_inv s xs" using reachable_ef_inv [OF assms(1)] by blast
  have t: "t \<in> set xs" using ef_invD(2) [OF inv, of t] assms(2) by (simp add: ef_in_queue_def)
  moreover have "u = t" if "ef_type s = SYS_SYNC_WAITER_SINGLE" "pc s u = Asleep"
  proof -
    have "u \<in> set xs" using ef_invD(2) [OF inv, of u] that(2) by (simp add: ef_in_queue_def)
    then show ?thesis using t ef_invD(6) [OF inv that(1)] by (cases xs) auto
  qed
  ultimately show ?thesis using ef_invD(4) [OF inv, of t] by (auto simp: sat_def)
qed

text \<open>
  C19: a call of \<^verbatim>\<open>sys_event_flag_set\<close> whose first decision is written back has the effect of one atomic step at that moment, although
  bits were cleared since the decision: the pattern, the threads that wake and the queue are those of the waiters looking at
  the pattern one after the other, by priority and waiting time.
\<close>

theorem event_set_atomic:
  assumes r: "ef_reachable s" and t: "pc s t = Set_lock b" "lock s = None" and c: "chain (thr s) (sq s) xs" "\<forall>u\<in>set xs. \<not> again (thr s u)"
    and x: "x AND pattern s = x" and d: "pc (set_locked t b s) t = Set_commit b pat tw dep n" "(x XOR pat) AND dep = 0"
    and s': "s' = set_commit t b pat tw dep n ((set_locked t b s)\<lparr>pattern := x\<rparr>)"
    and g: "grant (regs s) (visit (protocol s) (thr s) xs) (x OR b) = (ws, rest)"
  shows "pattern s' = rest \<and> chain (thr s') (sq s') (filter (\<lambda>u. u \<notin> set ws) xs)
    \<and> (\<forall>u. pc s' u = (if u = t then Idle else if u \<in> set ws then Woken else pc s u))"
proof -
  obtain ys where inv: "ef_inv s ys" using reachable_ef_inv [OF r] by blast
  then have ys: "ys = xs" using chain_unique [OF ef_invD(1) [OF inv] c(1)] by simp
  note inv = inv [unfolded ys]
  obtain r' tw' dep' ws' where p: "set_pass (protocol s) (thr s) (sq s) b (pattern s) (regs s) = Some (r', tw', dep', length ws')"
    and r': "\<And>u. u \<in> set ws' \<Longrightarrow> gpr3 (r' u) = 0"
    "\<And>u. u \<in> set xs \<Longrightarrow> gpr3 (r' u) = 0 \<Longrightarrow> u \<in> set ws' \<or> gpr3 (regs s u) = 0 \<and> ws' \<noteq> []"
    and eq: "\<And>x. commits x (pattern s) dep' \<Longrightarrow> sub x (pattern s) \<Longrightarrow>
      grant (regs s) (visit (protocol s) (thr s) xs) (x OR b) = (ws', tw' AND (x OR b))"
    by (rule set_pass_facts [OF c(1), of "pattern s" "regs s" "protocol s" b]) (use ef_invD(4) [OF inv] in auto)
  have l: "set_locked t b s = (ef_goto t (Set_commit b (pattern s) tw' dep' (length ws')) s)\<lparr>regs := r', lock := Some t\<rparr>"
    using c(2) p by (auto simp: set_locked_def any_again_chain [OF c(1)] decide_def split: bool.split)
  have v: "pat = pattern s" "tw = tw'" "dep = dep'" "n = length ws'" using d(1) by (simp_all add: l)
  have com: "commits x (pattern s) dep'" using d(2) v by (simp add: commits_def)
  have sx: "sub x (pattern s)" using x by (simp add: sub_def)
  have ws: "ws' = ws" "tw' AND (x OR b) = rest" using eq [OF com sx] g by simp_all
  let ?s = "(set_locked t b s)\<lparr>pattern := x\<rparr>"
  have inv': "ef_inv ?s xs" using ef_inv_clear [OF ef_inv_set_locked [OF inv t]] sx by (simp add: l)
  have iff: "u \<in> set xs \<and> gpr3 (regs ?s u) = 0 \<longleftrightarrow> u \<in> set ws" for u
    using r' [of u] ef_invD(5) [OF inv t(2), of u] grant_set [of "regs s" "visit (protocol s) (thr s) xs" "x OR b"] g ws(1) by (auto simp: l)
  have tx: "t \<notin> set xs" using ef_invD(2) [OF inv, of t] t by (simp add: ef_in_queue_def)
  show ?thesis
  proof (cases "n = 0")
    case True
    then have e: "ws = []" using v ws by simp
    have "s' = (ef_goto t Idle (?s\<lparr>pattern := rest\<rparr>))\<lparr>lock := None\<rparr>"
      using True com v ws written_eq [OF _ _, of x "pattern s" tw' b] sx ef_invD(3) [OF inv', of t]
      by (simp add: s' set_commit_def l commits_def Let_def)
    then show ?thesis using e c(1) by (simp add: l)
  next
    case False
    obtain first h where e: "s' = ?s\<lparr>pattern := tw AND (pattern ?s OR b), sq := first, thr := h, lock := None,
         pc := \<lambda>u. if u = t then Idle else if u \<in> set xs \<and> gpr3 (regs ?s u) = 0 then Woken else pc ?s u\<rparr>"
      "chain h first (filter (\<lambda>u. gpr3 (regs ?s u) \<noteq> 0) xs)"
      unfolding s' by (rule set_commit_wake [OF inv', of t b pat tw dep n]) (use d(1) com v False in \<open>auto simp: l\<close>)
    have "filter (\<lambda>u. gpr3 (regs ?s u) \<noteq> 0) xs = filter (\<lambda>u. u \<notin> set ws) xs" using iff by (intro filter_cong) auto
    then show ?thesis using e(2) ws v tx unfolding iff e(1) by (simp add: l)
  qed
qed

definition three_waiters :: ef_state where
  "three_waiters = ef_wait_locked 4 4 0x01 (ef_wait_begin 4 4 0x01 (ef_wait_locked 3 6 0x21 (ef_wait_begin 3 6 0x21
     (ef_wait_locked 2 3 0x11 (ef_wait_begin 2 3 0x11 (new_event_flag SYS_SYNC_FIFO SYS_SYNC_WAITER_MULTIPLE 1 sample_threads 7
       (\<lambda>_. \<lparr>gpr3 = 0, gpr4 = 0, gpr5 = 0, gpr6 = 0, gpr7 = 0\<rparr>)))))))"

lemmas flag_simps = ef_wait_locked_def ef_wait_begin_def new_event_flag_def check_mode_def check_pattern_def Let_def emplace_def set_next_def
  SYS_SYNC_WAITER_SINGLE_def SYS_SYNC_WAITER_MULTIPLE_def SYS_EVENT_FLAG_WAIT_AND_def SYS_EVENT_FLAG_WAIT_OR_def
  SYS_EVENT_FLAG_WAIT_CLEAR_def SYS_EVENT_FLAG_WAIT_CLEAR_ALL_def

lemma three_waiters_state: "pattern three_waiters = 1" "sq three_waiters = Some 4" "lock three_waiters = None" "protocol three_waiters = SYS_SYNC_FIFO"
  "map (\<lambda>t. next_cpu (thr three_waiters t)) [4, 3, 2] = [Some 3, Some 2, None]"
  "map (\<lambda>t. again (thr three_waiters t)) [4, 3, 2] = [False, False, False]"
  "map (regs three_waiters) [2, 3, 4] = [\<lparr>gpr3 = - 1, gpr4 = 3, gpr5 = 0x11, gpr6 = 1, gpr7 = 0\<rparr>,
     \<lparr>gpr3 = - 1, gpr4 = 6, gpr5 = 0x21, gpr6 = 1, gpr7 = 0\<rparr>, \<lparr>gpr3 = - 1, gpr4 = 4, gpr5 = 1, gpr6 = 1, gpr7 = 0\<rparr>]"
  "pc three_waiters = (\<lambda>_. Idle)(2 := Asleep, 3 := Asleep, 4 := Asleep)"
  by (simp_all add: three_waiters_def flag_simps sample_threads_def)

lemma set_pass_eq:
  assumes "chain h first xs"
  shows "set_pass prot h first b pat r = (case serve b (visit prot h xs) (fold (set_mark 0) xs r, pat OR b, 0, 0) of
    (r, tw, dep, n) \<Rightarrow> Some (r, tw, dep AND NOT b, n))"
  by (rule set_pass_serve [OF assms, of prot b pat r]) simp

lemma three_waiters_reachable: "ef_reachable three_waiters"
proof -
  let ?s0 = "new_event_flag SYS_SYNC_FIFO SYS_SYNC_WAITER_MULTIPLE 1 sample_threads 7 (\<lambda>_. \<lparr>gpr3 = 0, gpr4 = 0, gpr5 = 0, gpr6 = 0, gpr7 = 0\<rparr>)"
  let ?s1 = "ef_wait_begin 2 3 0x11 ?s0" let ?s2 = "ef_wait_locked 2 3 0x11 ?s1"
  let ?s3 = "ef_wait_begin 3 6 0x21 ?s2" let ?s4 = "ef_wait_locked 3 6 0x21 ?s3"
  let ?s5 = "ef_wait_begin 4 4 0x01 ?s4"
  have "ef_step ?s0 ?s1" by (rule ef_step.intros(1)) (simp add: flag_simps)
  moreover have "ef_step ?s1 ?s2" by (rule ef_step.intros(2)) (simp_all add: flag_simps)
  moreover have "ef_step ?s2 ?s3" by (rule ef_step.intros(1)) (simp add: flag_simps)
  moreover have "ef_step ?s3 ?s4" by (rule ef_step.intros(2)) (simp_all add: flag_simps)
  moreover have "ef_step ?s4 ?s5" by (rule ef_step.intros(1)) (simp add: flag_simps)
  moreover have "ef_step ?s5 three_waiters" unfolding three_waiters_def by (rule ef_step.intros(2)) (simp_all add: flag_simps)
  ultimately have "ef_step\<^sup>*\<^sup>* ?s0 three_waiters" by (meson rtranclp.rtrancl_into_rtrancl rtranclp.rtrancl_refl)
  moreover have "ef_init ?s0" by (simp add: ef_init_def new_event_flag_def)
  ultimately show ?thesis unfolding ef_reachable_def by blast
qed

lemma reachable_step: "ef_reachable s \<Longrightarrow> ef_step s s' \<Longrightarrow> ef_reachable s'"
  unfolding ef_reachable_def by (meson rtranclp.rtrancl_into_rtrancl)

definition setting :: ef_state where
  "setting = set_begin 0 6 three_waiters"

lemma setting_state: "pattern setting = 1" "sq setting = Some 4" "lock setting = None" "protocol setting = SYS_SYNC_FIFO"
  "thr setting = thr three_waiters" "regs setting = regs three_waiters" "pc setting = (pc three_waiters)(0 := Set_lock 6)"
  by (simp_all add: setting_def set_begin_def three_waiters_state)

lemma setting_reachable: "ef_reachable setting"
  unfolding setting_def by (rule reachable_step [OF three_waiters_reachable ef_step.intros(8)]) (simp add: three_waiters_state)

lemma setting_chain: "chain (thr three_waiters) (Some 4) [4, 3, 2]" "any_again (thr three_waiters) (Some 4) = Some False"
  "\<forall>u\<in>set [4, 3, 2]. \<not> again (thr three_waiters u)"
proof -
  show c: "chain (thr three_waiters) (Some 4) [4, 3, 2]" and a: "\<forall>u\<in>set [4, 3, 2]. \<not> again (thr three_waiters u)"
    using three_waiters_state(5,6) by simp_all
  show "any_again (thr three_waiters) (Some 4) = Some False" using any_again_chain [OF c] a by simp
qed

lemma visit_order: "visit SYS_SYNC_FIFO h [4, 3, 2] = [2, 3, 4]"
  by (simp add: visit_def SYS_SYNC_FIFO_def SYS_SYNC_PRIORITY_def)

definition decided :: ef_state where
  "decided = set_locked 0 6 setting"

lemma decided_pass: "pc decided = (pc three_waiters)(0 := Set_commit 6 1 4 1 2)"
  "map (\<lambda>t. (gpr3 (regs decided t), gpr4 (regs decided t), gpr5 (regs decided t))) [2, 3, 4] = [(0, 3, 0x11), (- 1, 6, 0x21), (0, 4, 1)]"
  "lock decided = Some 0" "thr decided = thr three_waiters" "sq decided = Some 4" "pattern decided = 1" "protocol decided = SYS_SYNC_FIFO"
proof -
  have r: "regs three_waiters 2 = \<lparr>gpr3 = - 1, gpr4 = 3, gpr5 = 0x11, gpr6 = 1, gpr7 = 0\<rparr>"
    "regs three_waiters 3 = \<lparr>gpr3 = - 1, gpr4 = 6, gpr5 = 0x21, gpr6 = 1, gpr7 = 0\<rparr>"
    "regs three_waiters 4 = \<lparr>gpr3 = - 1, gpr4 = 4, gpr5 = 1, gpr6 = 1, gpr7 = 0\<rparr>" using three_waiters_state(7) by simp_all
  show "pc decided = (pc three_waiters)(0 := Set_commit 6 1 4 1 2)"
    "map (\<lambda>t. (gpr3 (regs decided t), gpr4 (regs decided t), gpr5 (regs decided t))) [2, 3, 4] = [(0, 3, 0x11), (- 1, 6, 0x21), (0, 4, 1)]"
    "lock decided = Some 0" "thr decided = thr three_waiters" "sq decided = Some 4" "pattern decided = 1" "protocol decided = SYS_SYNC_FIFO"
    by (simp_all add: decided_def set_locked_def setting_state setting_chain decide_def set_pass_eq [OF setting_chain(1)] visit_order
        serve_one_def set_mark_def r flag_simps numeral_2_eq_2 [symmetric])
qed

lemma decided_reachable: "ef_reachable decided"
  unfolding decided_def by (rule reachable_step [OF setting_reachable ef_step.intros(9)]) (simp_all add: setting_state)

text \<open>Bit 0 is cleared, so the second decision serves thread 3 instead of thread 2, and ends before it comes to thread 4.\<close>

definition cleared :: ef_state where
  "cleared = ef_clear (NOT 1) decided"

definition redecided :: ef_state where
  "redecided = set_commit 0 6 1 4 1 2 cleared"

lemma redecided_state: "pc redecided = (pc three_waiters)(0 := Set_commit 6 0 0 0 1)"
  "map (\<lambda>t. (gpr3 (regs redecided t), gpr4 (regs redecided t), gpr5 (regs redecided t))) [2, 3, 4] = [(- 1, 3, 0x11), (0, 6, 0x21), (0, 4, 1)]"
  "thr redecided = thr three_waiters" "sq redecided = Some 4" "pattern redecided = 0" "protocol redecided = SYS_SYNC_FIFO"
proof -
  have c: "pattern cleared = 0" "thr cleared = thr three_waiters" "sq cleared = Some 4" "protocol cleared = SYS_SYNC_FIFO"
    "regs cleared = regs decided" "pc cleared = pc decided" by (simp_all add: cleared_def ef_clear_def decided_pass)
  have r: "gpr3 (regs decided 2) = 0" "gpr4 (regs decided 2) = 3" "gpr5 (regs decided 2) = 0x11"
    "gpr4 (regs decided 3) = 6" "gpr5 (regs decided 3) = 0x21" "gpr3 (regs decided 4) = 0" "gpr4 (regs decided 4) = 4" "gpr5 (regs decided 4) = 1"
    using decided_pass(2) by simp_all
  show "pc redecided = (pc three_waiters)(0 := Set_commit 6 0 0 0 1)"
    "map (\<lambda>t. (gpr3 (regs redecided t), gpr4 (regs redecided t), gpr5 (regs redecided t))) [2, 3, 4] = [(- 1, 3, 0x11), (0, 6, 0x21), (0, 4, 1)]"
    "thr redecided = thr three_waiters" "sq redecided = Some 4" "pattern redecided = 0" "protocol redecided = SYS_SYNC_FIFO"
    by (simp_all add: redecided_def set_commit_def commits_def c decide_def set_pass_eq [OF setting_chain(1)] visit_order decided_pass(1)
        serve_one_def set_mark_def r flag_simps)
qed

lemma redecided_reachable: "ef_reachable redecided"
proof -
  have "ef_reachable cleared" unfolding cleared_def by (rule reachable_step [OF decided_reachable ef_step.intros(7)])
  moreover have "pc cleared 0 = Set_commit 6 1 4 1 2" by (simp add: cleared_def ef_clear_def decided_pass)
  ultimately show ?thesis unfolding redecided_def using reachable_step ef_step.intros(10) by blast
qed

theorem event_flag_no_lost_wakeup_witness:
  "\<not> fst (check_pattern (pattern three_waiters) (gpr4 (regs three_waiters 2)) (gpr5 (regs three_waiters 2)))"
  using event_flag_no_lost_wakeup [OF three_waiters_reachable, of 2] by (simp add: three_waiters_state)

theorem event_set_atomic_witness:
  "pattern (set_commit 0 6 1 4 1 2 (decided\<lparr>pattern := 1\<rparr>)) = 4 \<and> pc (set_commit 0 6 1 4 1 2 (decided\<lparr>pattern := 1\<rparr>)) 4 = Woken"
proof -
  have r: "regs three_waiters 2 = \<lparr>gpr3 = - 1, gpr4 = 3, gpr5 = 0x11, gpr6 = 1, gpr7 = 0\<rparr>"
    "regs three_waiters 3 = \<lparr>gpr3 = - 1, gpr4 = 6, gpr5 = 0x21, gpr6 = 1, gpr7 = 0\<rparr>"
    "regs three_waiters 4 = \<lparr>gpr3 = - 1, gpr4 = 4, gpr5 = 1, gpr6 = 1, gpr7 = 0\<rparr>" using three_waiters_state(7) by simp_all
  have "grant (regs setting) (visit (protocol setting) (thr setting) [4, 3, 2]) (1 OR 6) = ([2, 4], 4)"
    by (simp add: setting_state visit_order sat_def after_def r flag_simps)
  then show ?thesis
    using event_set_atomic [OF setting_reachable, of 0 6 "[4, 3, 2]" 1 1 4 1 2 _ "[2, 4]" 4] setting_chain(1,3)
    by (simp add: setting_state decided_pass(1) flip: decided_def)
qed

text \<open>
  C27: \<^verbatim>\<open>sys_event_flag_set\<close> can report success to a sleeping thread whose bits are not set. When a decision is repeated, the loop may end
  before it comes to a thread that the first decision would have woken; the result it wrote for that thread is not withdrawn,
  and this commit takes the thread, which sleeps in the queue and is not to be served, out of the queue and wakes it with \<^verbatim>\<open>CELL_OK\<close>.
\<close>

theorem event_set_stale_result:
  "\<exists>s t b pat tw dep n xs u. ef_reachable s \<and> pc s t = Set_commit b pat tw dep n \<and> commits (pattern s) pat dep
     \<and> chain (thr s) (sq s) xs \<and> u \<in> set xs \<and> pc s u = Asleep \<and> u \<notin> set (fst (grant (regs s) (visit (protocol s) (thr s) xs) (pattern s OR b)))
     \<and> pc (set_commit t b pat tw dep n s) u = Woken \<and> gpr3 (regs (set_commit t b pat tw dep n s) u) = 0"
proof -
  let ?s = redecided
  obtain ys where inv: "ef_inv ?s ys" using reachable_ef_inv [OF redecided_reachable] by blast
  have c: "chain (thr ?s) (sq ?s) [4, 3, 2]" using setting_chain(1) by (simp add: redecided_state)
  then have "ys = [4, 3, 2]" using chain_unique ef_invD(1) [OF inv] by blast
  note inv = inv [unfolded this]
  have com: "commits (pattern ?s) 0 0" by (simp add: commits_def)
  have p: "pc ?s 0 = Set_commit 6 0 0 0 1" by (simp add: redecided_state)
  have r: "gpr4 (regs ?s 2) = 3" "gpr5 (regs ?s 2) = 0x11" "gpr4 (regs ?s 3) = 6" "gpr5 (regs ?s 3) = 0x21"
    "gpr3 (regs ?s 4) = 0" "gpr4 (regs ?s 4) = 4" "gpr5 (regs ?s 4) = 1" using redecided_state(2) by simp_all
  have g: "4 \<notin> set (fst (grant (regs ?s) (visit (protocol ?s) (thr ?s) [4, 3, 2]) (pattern ?s OR 6)))"
    by (simp add: redecided_state visit_order sat_def after_def r flag_simps)
  obtain first h where e: "set_commit 0 6 0 0 0 1 ?s = ?s\<lparr>pattern := 0 AND (pattern ?s OR 6), sq := first, thr := h, lock := None,
       pc := \<lambda>u. if u = 0 then Idle else if u \<in> set [4, 3, 2] \<and> gpr3 (regs ?s u) = 0 then Woken else pc ?s u\<rparr>"
    by (rule set_commit_wake [OF inv p com]) simp_all
  have "pc (set_commit 0 6 0 0 0 1 ?s) 4 = Woken" "gpr3 (regs (set_commit 0 6 0 0 0 1 ?s) 4) = 0"
    unfolding e using r(5) by simp_all
  moreover have "(4 :: tid) \<in> set [4, 3, 2]" "pc ?s 4 = Asleep" by (simp_all add: redecided_state three_waiters_state)
  ultimately show ?thesis using redecided_reachable p com c g by blast
qed

end
