(* ===== verification/Idm.thy ===== *)
theory Idm
  imports Prelude
begin

unbundle bit_operations_syntax

text \<open>
  The object manager (\<^verbatim>\<open>rpcs3/Emu/IdManager.h\<close>, \<^verbatim>\<open>IdManager.cpp\<close>): kernel objects live in the slots of a
  container, and a guest refers to them by 32-bit ids. An id encodes the slot and, for most
  containers, a counter that changes when the slot is used again, so that ids of removed objects
  are recognised. Objects of several types share one container, so each slot also records the type
  of its object. The invariant \<open>idm_wf\<close> relates slots and ids; looking up an id, creating and removing
  objects are shown against it.
\<close>

section \<open>Ids and slots\<close>

text \<open>
  The constants a type declares for the manager. \<open>id_sole\<close> says that the container holds
  this type only, which the code tests with \<^verbatim>\<open>std::is_same_v<T, Type>\<close>.
\<close>

record id_traits =
  id_base :: u32
  id_step :: u32
  id_count :: u32
  id_lowest :: bool
  id_invl_range :: "nat \<times> nat"
  id_type :: u32
  id_sole :: bool

definition invalid :: "id_traits \<Rightarrow> u32" where
  "invalid tr = (if id_base tr = 0 then - 1 else 0)"

definition invl_mask :: "nat \<times> nat \<Rightarrow> u32" where
  "invl_mask r = push_bit (fst r) (push_bit (snd r) 1 - 1)"

definition get_index :: "u32 \<Rightarrow> u32 \<Rightarrow> u32 \<Rightarrow> u32 \<Rightarrow> nat \<times> nat \<Rightarrow> u32" where
  "get_index i base step cnt invl_range =
     (let mask_out = invl_mask invl_range; diff = (i AND NOT mask_out) - base
      in if diff mod step \<noteq> 0 then cnt else diff div step)"

definition trait_index :: "id_traits \<Rightarrow> u32 \<Rightarrow> u32" where
  "trait_index tr i = get_index i (id_base tr) (id_step tr) (id_count tr) (id_invl_range tr)"

text \<open>A key keeps the last id of its slot; the type \<open>- 1\<close> marks a free slot.\<close>

record id_key =
  kvalue :: u32
  ktype :: u32

definition empty_key :: id_key where
  "empty_key = \<lparr>kvalue = 0, ktype = - 1\<rparr>"

definition clear_key :: "id_key \<Rightarrow> id_key" where
  "clear_key k = k\<lparr>ktype := - 1\<rparr>"

record 'a id_map =
  vec_data :: "'a option list"
  vec_keys :: "id_key list"
  highest_index :: u32

text \<open>\<open>Fatal\<close> is a failed \<^verbatim>\<open>ensure\<close>.\<close>

datatype slot = Fatal | No_id | Slot nat

fun scan_free :: "u32 \<Rightarrow> nat \<times> nat \<Rightarrow> id_key list \<Rightarrow> nat \<Rightarrow> u32 \<Rightarrow> (nat \<times> u32) option" where
  "scan_free step r [] i nxt = None"
| "scan_free step r (k # ks) i nxt =
     (if ktype k = - 1
      then Some (i, nxt OR ((kvalue k + push_bit (fst r) 1) AND (if snd r \<noteq> 0 then invl_mask r else 0)))
      else scan_free step r ks (i + 1) (nxt + step))"

text \<open>The result is the slot, the keys, the highest index and the last allocated id of the thread.\<close>

definition allocate_id :: "id_key list \<Rightarrow> u32 \<Rightarrow> u32 \<Rightarrow> u32 \<Rightarrow> u32 \<Rightarrow> u32 \<Rightarrow> u32 \<Rightarrow> u32 \<Rightarrow> bool \<Rightarrow> nat \<times> nat
    \<Rightarrow> slot \<times> id_key list \<times> u32 \<times> u32" where
  "allocate_id keys highest g_id type_id dst_id base step cnt uses_lowest_id invl_range =
     (if dst_id \<noteq> (if base \<noteq> 0 then 0 else - 1) then
        (let index = get_index dst_id base step cnt invl_range in
         if \<not> index < cnt then (Fatal, keys, highest, g_id)
         else (let highest = max highest (index + 1) in
           if ktype (keys ! unat index) \<noteq> - 1 then (No_id, keys, highest, g_id)
           else (Slot (unat index), keys[unat index := \<lparr>kvalue = dst_id, ktype = type_id\<rparr>], highest, dst_id)))
      else if \<not> uses_lowest_id \<and> highest < cnt then
        (let nxt = base + step * highest in
         (Slot (unat highest), keys[unat highest := \<lparr>kvalue = nxt, ktype = type_id\<rparr>], highest + 1, nxt))
      else
        (let highest = (if uses_lowest_id then cnt else highest) in
         case scan_free step invl_range (take (unat cnt) keys) 0 base of
           None \<Rightarrow> (No_id, keys, highest, g_id)
         | Some (i, new_id) \<Rightarrow> (Slot i, keys[i := \<lparr>kvalue = new_id, ktype = type_id\<rparr>], highest, new_id)))"

section \<open>Operations\<close>

definition find_index :: "id_traits \<Rightarrow> 'a id_map \<Rightarrow> u32 \<Rightarrow> u32 \<Rightarrow> (nat \<times> 'a) option" where
  "find_index tr m index i =
     (if highest_index m \<le> index then None
      else case vec_data m ! unat index of
        None \<Rightarrow> None
      | Some obj \<Rightarrow>
          if (id_sole tr \<or> ktype (vec_keys m ! unat index) = id_type tr)
             \<and> (snd (id_invl_range tr) = 0 \<or> kvalue (vec_keys m ! unat index) = i)
          then Some (unat index, obj) else None)"

definition find_id :: "id_traits \<Rightarrow> 'a id_map \<Rightarrow> u32 \<Rightarrow> (nat \<times> 'a) option" where
  "find_id tr m i = find_index tr m (trait_index tr i) i"

text \<open>
  A provider may read and change a state \<open>'s\<close> of its own. The result is the object, unless there
  is none, the container, the last id of the thread, and the provider's state.
\<close>

definition create_id :: "id_traits \<Rightarrow> ('s \<Rightarrow> 'a option \<times> 's) \<Rightarrow> u32 \<Rightarrow> 'a id_map \<times> u32 \<times> 's
    \<Rightarrow> ('a option \<times> 'a id_map \<times> u32 \<times> 's) option" where
  "create_id tr provider dst_id = (\<lambda>(m, g_id, s).
     case allocate_id (vec_keys m) (highest_index m) g_id (id_type tr) dst_id (id_base tr) (id_step tr)
         (id_count tr) (id_lowest tr) (id_invl_range tr) of
       (Fatal, keys, highest, g_id) \<Rightarrow> None
     | (No_id, keys, highest, g_id) \<Rightarrow> Some (None, m\<lparr>vec_keys := keys, highest_index := highest\<rparr>, g_id, s)
     | (Slot i, keys, highest, g_id) \<Rightarrow>
         (case provider s of
            (Some object, s) \<Rightarrow>
              Some (Some object, \<lparr>vec_data = (vec_data m)[i := Some object], vec_keys = keys, highest_index = highest\<rparr>, g_id, s)
          | (None, s) \<Rightarrow> Some (None, m\<lparr>vec_keys := keys[i := empty_key], highest_index := highest\<rparr>, g_id, s)))"

definition last_id :: "id_traits \<Rightarrow> u32 \<Rightarrow> u32 option" where
  "last_id tr g_id = (if id_count tr \<le> trait_index tr g_id then None else Some g_id)"

definition import_id :: "id_traits \<Rightarrow> ('s \<Rightarrow> 'a option \<times> 's) \<Rightarrow> u32 \<Rightarrow> 'a id_map \<times> u32 \<times> 's
    \<Rightarrow> (u32 \<times> 'a id_map \<times> u32 \<times> 's) option" where
  "import_id tr provider dst_id st =
     (case create_id tr provider dst_id st of
        None \<Rightarrow> None
      | Some (Some obj, m, g_id, s) \<Rightarrow> Some (g_id, m, g_id, s)
      | Some (None, m, g_id, s) \<Rightarrow> Some (invalid tr, m, g_id, s))"

text \<open>
  \<^verbatim>\<open>idm::check\<close> and \<^verbatim>\<open>idm::get\<close> run a function on the object under the reader lock and differ only in
  whether the object is kept alive by the caller.
\<close>

definition idm_check :: "id_traits \<Rightarrow> 'a id_map \<Rightarrow> u32 \<Rightarrow> ('a \<Rightarrow> 's \<Rightarrow> 'r \<times> 's) \<Rightarrow> 's \<Rightarrow> ('a \<times> 'r) option \<times> 's" where
  "idm_check tr m i func s =
     (let index = trait_index tr i in
      if id_count tr \<le> index then (None, s)
      else case find_index tr m index i of
        None \<Rightarrow> (None, s)
      | Some (k, obj) \<Rightarrow> (case func obj s of (r, s) \<Rightarrow> (Some (obj, r), s)))"

definition erase :: "'a id_map \<Rightarrow> nat \<Rightarrow> 'a id_map" where
  "erase m k = m\<lparr>vec_data := (vec_data m)[k := None], vec_keys := (vec_keys m)[k := clear_key (vec_keys m ! k)]\<rparr>"

definition idm_remove :: "id_traits \<Rightarrow> u32 \<Rightarrow> 'a id_map \<Rightarrow> bool \<times> 'a id_map" where
  "idm_remove tr i m =
     (let index = trait_index tr i in
      if id_count tr \<le> index then (False, m)
      else case find_index tr m index i of
        None \<Rightarrow> (False, m)
      | Some (k, obj) \<Rightarrow> (True, erase m k))"

text \<open>The function decides: on an error the object stays.\<close>

definition idm_withdraw :: "id_traits \<Rightarrow> u32 \<Rightarrow> ('a \<Rightarrow> 's \<Rightarrow> error_code \<times> 's) \<Rightarrow> 'a id_map \<times> 's
    \<Rightarrow> ('a \<times> error_code) option \<times> 'a id_map \<times> 's" where
  "idm_withdraw tr i func = (\<lambda>(m, s).
     let index = trait_index tr i in
     if id_count tr \<le> index then (None, m, s)
     else case find_index tr m index i of
       None \<Rightarrow> (None, m, s)
     | Some (k, obj) \<Rightarrow>
         (case func obj s of (ret, s) \<Rightarrow>
            if ret \<noteq> 0 then (Some (obj, ret), m, s) else (Some (obj, ret), erase m k, s)))"

definition idm_clear :: "'a id_map \<Rightarrow> 'a id_map" where
  "idm_clear m = m\<lparr>vec_data := map (\<lambda>_. None) (vec_data m), vec_keys := map clear_key (vec_keys m)\<rparr>"

definition new_id_map :: "nat \<Rightarrow> 'a id_map" where
  "new_id_map n = \<lparr>vec_data = replicate n None, vec_keys = replicate n empty_key, highest_index = 0\<rparr>"

section \<open>Slots and ids correspond\<close>

definition mask_of :: "id_traits \<Rightarrow> u32" where
  "mask_of tr = invl_mask (id_invl_range tr)"

definition slot_base :: "id_traits \<Rightarrow> nat \<Rightarrow> u32" where
  "slot_base tr k = id_base tr + id_step tr * of_nat k"

text \<open>
  What the static assertions on the traits ask for, and that the counter bits are not used by the
  ids of the slots.
\<close>

definition traits_ok :: "nat \<Rightarrow> id_traits \<Rightarrow> bool" where
  "traits_ok n tr \<longleftrightarrow> unat (id_count tr) = n \<and> 0 < n \<and> id_step tr \<noteq> 0 \<and> id_type tr \<noteq> - 1
     \<and> unat (id_step tr) * (n - 1) + unat (id_base tr) < 4294967295 + (if id_base tr \<noteq> 0 then 1 else 0)
     \<and> (\<forall>k<n. slot_base tr k AND mask_of tr = 0)"

lemma and_not_or: "b AND mk = 0 \<Longrightarrow> (b OR (x AND mk)) AND NOT mk = b" for b mk x :: u32
  by (rule bit_word_eqI) (auto simp: bit_simps dest!: bit_eq_iff [THEN iffD1])

lemma and_not_self: "b AND mk = 0 \<Longrightarrow> b AND NOT mk = b" for b mk :: u32
  using and_not_or [of b mk 0] by simp

lemma no_mask: "snd r = 0 \<Longrightarrow> invl_mask r = 0"
  by (simp add: invl_mask_def)

lemma step_bound:
  assumes "traits_ok n tr" "k < n"
  shows "unat (id_step tr * of_nat k) = unat (id_step tr) * k" "unat (of_nat k :: u32) = k"
proof -
  have "0 < unat (id_step tr)" using assms(1) by (simp add: traits_ok_def unat_gt_0)
  then have "k \<le> unat (id_step tr) * k" by simp
  moreover have "unat (id_step tr) * k \<le> unat (id_step tr) * (n - 1)" using assms(2) by (intro mult_le_mono) auto
  moreover have "unat (id_step tr) * (n - 1) < 4294967296"
    using assms(1) by (auto simp: traits_ok_def split: if_splits)
  ultimately have "k < 4294967296" "unat (id_step tr) * k < 4294967296" by linarith+
  then show "unat (of_nat k :: u32) = k" by (simp add: unat_of_nat)
  with \<open>unat (id_step tr) * k < 4294967296\<close> show "unat (id_step tr * of_nat k) = unat (id_step tr) * k"
    by (simp add: unat_word_ariths)
qed

lemma index_of_slot:
  assumes "traits_ok n tr" "k < n" "x AND NOT (mask_of tr) = slot_base tr k"
  shows "trait_index tr x = of_nat k"
proof -
  have d: "(x AND NOT (mask_of tr)) - id_base tr = id_step tr * of_nat k"
    using assms(3) by (simp add: slot_base_def)
  have "0 < unat (id_step tr)" using assms(1) by (simp add: traits_ok_def unat_gt_0)
  then have "id_step tr * of_nat k mod id_step tr = 0" "id_step tr * of_nat k div id_step tr = of_nat k"
    using step_bound [OF assms(1,2)] by (simp_all add: word_unat_eq_iff unat_mod unat_div)
  then show ?thesis
    using d by (simp add: trait_index_def get_index_def mask_of_def Let_def)
qed

lemma slot_of_index:
  assumes "trait_index tr x < id_count tr"
  shows "x AND NOT (mask_of tr) = slot_base tr (unat (trait_index tr x))"
proof -
  define diff where "diff = (x AND NOT (mask_of tr)) - id_base tr"
  have "diff mod id_step tr = 0" "trait_index tr x = diff div id_step tr"
    using assms by (auto simp: trait_index_def get_index_def mask_of_def diff_def Let_def split: if_splits)
  then have "diff = id_step tr * trait_index tr x"
    using mult_div_mod_eq [of "id_step tr" diff] by simp
  then show ?thesis by (simp add: slot_base_def diff_def algebra_simps)
qed

section \<open>Invariant of a container\<close>

definition key_ok :: "id_traits set \<Rightarrow> nat \<Rightarrow> id_key \<Rightarrow> bool" where
  "key_ok trs k key \<longleftrightarrow> (\<exists>tr\<in>trs. ktype key = id_type tr \<and> kvalue key AND NOT (mask_of tr) = slot_base tr k)"

definition idm_wf :: "id_traits set \<Rightarrow> nat \<Rightarrow> 'a id_map \<Rightarrow> bool" where
  "idm_wf trs n m \<longleftrightarrow> (\<forall>tr\<in>trs. traits_ok n tr \<and> (id_sole tr \<longrightarrow> trs = {tr})) \<and> inj_on id_type trs
     \<and> length (vec_data m) = n \<and> length (vec_keys m) = n \<and> unat (highest_index m) \<le> n
     \<and> (\<forall>k<n. vec_data m ! k = None \<longleftrightarrow> ktype (vec_keys m ! k) = - 1)
     \<and> (\<forall>k<n. unat (highest_index m) \<le> k \<longrightarrow> ktype (vec_keys m ! k) = - 1)
     \<and> (\<forall>k<n. ktype (vec_keys m ! k) \<noteq> - 1 \<longrightarrow> key_ok trs k (vec_keys m ! k))"

lemma idm_wfD:
  assumes "idm_wf trs n m"
  shows "tr \<in> trs \<Longrightarrow> traits_ok n tr" "tr \<in> trs \<Longrightarrow> id_sole tr \<Longrightarrow> trs = {tr}" "inj_on id_type trs"
    "length (vec_data m) = n" "length (vec_keys m) = n" "unat (highest_index m) \<le> n"
    "k < n \<Longrightarrow> vec_data m ! k = None \<longleftrightarrow> ktype (vec_keys m ! k) = - 1"
    "k < n \<Longrightarrow> unat (highest_index m) \<le> k \<Longrightarrow> ktype (vec_keys m ! k) = - 1"
    "k < n \<Longrightarrow> ktype (vec_keys m ! k) \<noteq> - 1 \<Longrightarrow> key_ok trs k (vec_keys m ! k)"
  using assms by (auto simp: idm_wf_def)

lemma type_ok: "idm_wf trs n m \<Longrightarrow> tr \<in> trs \<Longrightarrow> id_type tr \<noteq> - 1 \<and> - 1 \<noteq> id_type tr"
  using idm_wfD(1) [of trs n m tr] by (auto simp: traits_ok_def)

lemma live_key:
  assumes "idm_wf trs n m" "tr \<in> trs" "k < n" "ktype (vec_keys m ! k) = id_type tr"
  shows "kvalue (vec_keys m ! k) AND NOT (mask_of tr) = slot_base tr k"
proof -
  have "ktype (vec_keys m ! k) \<noteq> - 1" using type_ok [OF assms(1,2)] assms(4) by simp
  then obtain tr' where "tr' \<in> trs" "id_type tr = id_type tr'" "kvalue (vec_keys m ! k) AND NOT (mask_of tr') = slot_base tr' k"
    using idm_wfD(9) [OF assms(1,3)] assms(4) by (auto simp: key_ok_def)
  moreover from this have "tr' = tr" using idm_wfD(3) [OF assms(1)] assms(2) by (auto dest: inj_onD)
  ultimately show ?thesis by simp
qed

text \<open>The lookup finds exactly the live slot that has the type and the id.\<close>

lemma find_id_iff:
  assumes wf: "idm_wf trs n m" and tr: "tr \<in> trs"
  shows "find_id tr m x = Some (k, obj) \<longleftrightarrow>
    k < n \<and> vec_data m ! k = Some obj \<and> ktype (vec_keys m ! k) = id_type tr \<and> kvalue (vec_keys m ! k) = x"
proof
  note ok = idm_wfD(1) [OF wf tr]
  assume f: "find_id tr m x = Some (k, obj)"
  then have k: "trait_index tr x < highest_index m" "k = unat (trait_index tr x)" "vec_data m ! k = Some obj"
    and key: "id_sole tr \<or> ktype (vec_keys m ! k) = id_type tr"
      "snd (id_invl_range tr) = 0 \<or> kvalue (vec_keys m ! k) = x"
    by (auto simp: find_id_def find_index_def split: if_splits option.splits)
  have n: "k < n" using k(1,2) idm_wfD(6) [OF wf] by (simp add: word_less_nat_alt)
  have "ktype (vec_keys m ! k) \<noteq> - 1" using idm_wfD(7) [OF wf n] k(3) by simp
  then have t: "ktype (vec_keys m ! k) = id_type tr"
    using key(1) idm_wfD(2,9) [OF wf] tr n by (auto simp: key_ok_def)
  have "trait_index tr x < id_count tr" using n k(2) ok by (simp add: traits_ok_def word_less_nat_alt)
  from slot_of_index [OF this] have "kvalue (vec_keys m ! k) AND NOT (mask_of tr) = x AND NOT (mask_of tr)"
    using live_key [OF wf tr n t] k(2) by simp
  then have "kvalue (vec_keys m ! k) = x" using key(2) no_mask [of "id_invl_range tr"] by (auto simp: mask_of_def)
  then show "k < n \<and> vec_data m ! k = Some obj \<and> ktype (vec_keys m ! k) = id_type tr \<and> kvalue (vec_keys m ! k) = x"
    using n k(3) t by simp
next
  note ok = idm_wfD(1) [OF wf tr]
  assume a: "k < n \<and> vec_data m ! k = Some obj \<and> ktype (vec_keys m ! k) = id_type tr \<and> kvalue (vec_keys m ! k) = x"
  then have "trait_index tr x = of_nat k" using index_of_slot [OF ok _ live_key [OF wf tr]] by auto
  moreover have "k < unat (highest_index m)"
    using a idm_wfD(7,8) [OF wf, of k] by (metis not_le_imp_less option.distinct(1))
  ultimately show "find_id tr m x = Some (k, obj)"
    using a step_bound(2) [OF ok] by (simp add: find_id_def find_index_def word_le_nat_alt)
qed

lemma check_index:
  assumes "idm_wf trs n m" "tr \<in> trs"
  shows "(if id_count tr \<le> trait_index tr x then None else find_index tr m (trait_index tr x) x) = find_id tr m x"
proof (cases "find_id tr m x")
  case (Some r)
  then have "trait_index tr x < highest_index m" by (auto simp: find_id_def find_index_def split: if_splits)
  then have "\<not> id_count tr \<le> trait_index tr x"
    using idm_wfD(1,6) [OF assms(1)] assms(2) by (auto simp: traits_ok_def word_le_nat_alt word_less_nat_alt)
  then show ?thesis by (simp add: find_id_def)
qed (simp add: find_id_def)

lemma scan_free_Some:
  "scan_free step r ks i nxt = Some (j, x) \<Longrightarrow>
     \<exists>k<length ks. j = i + k \<and> ktype (ks ! k) = - 1 \<and> (\<forall>l<k. ktype (ks ! l) \<noteq> - 1)
       \<and> x = (nxt + step * of_nat k) OR ((kvalue (ks ! k) + push_bit (fst r) 1) AND invl_mask r)"
proof (induction step r ks i nxt rule: scan_free.induct)
  case (2 step r key ks i nxt)
  show ?case
  proof (cases "ktype key = - 1")
    case True
    then show ?thesis using 2(2) no_mask [of r] by (intro exI [of _ 0]) (auto split: if_splits)
  next
    case False
    then obtain k where "k < length ks" "j = i + 1 + k" "ktype (ks ! k) = - 1" "\<forall>l<k. ktype (ks ! l) \<noteq> - 1"
      "x = (nxt + step + step * of_nat k) OR ((kvalue (ks ! k) + push_bit (fst r) 1) AND invl_mask r)"
      using 2 by auto
    then show ?thesis using False by (intro exI [of _ "Suc k"]) (auto simp: algebra_simps nth_Cons')
  qed
qed simp

lemma unat_inc: "a < b \<Longrightarrow> unat (a + 1) = unat a + 1" for a b :: u32
proof -
  assume "a < b"
  then have "unat a < unat b" by (simp only: word_less_nat_alt)
  moreover have "unat b < 4294967296" using unsigned_less [of b] by simp
  ultimately have "unat a + 1 < 4294967296" by linarith
  then show ?thesis by (simp add: unat_word_ariths)
qed

text \<open>An allocated slot was free, lies below the highest index, and its id encodes it.\<close>

lemma allocate_Slot:
  assumes wf: "idm_wf trs n m" and tr: "tr \<in> trs" and
    a: "allocate_id (vec_keys m) (highest_index m) g (id_type tr) dst (id_base tr) (id_step tr) (id_count tr)
          (id_lowest tr) (id_invl_range tr) = (Slot k, keys, h, g')"
  shows "k < n \<and> ktype (vec_keys m ! k) = - 1 \<and> keys = (vec_keys m)[k := \<lparr>kvalue = g', ktype = id_type tr\<rparr>]
    \<and> unat h \<le> n \<and> k < unat h \<and> unat (highest_index m) \<le> unat h \<and> g' AND NOT (mask_of tr) = slot_base tr k"
proof -
  note ok = idm_wfD(1) [OF wf tr]
  note hn = idm_wfD(6) [OF wf]
  have cnt: "unat (id_count tr) = n" using ok by (simp add: traits_ok_def)
  note slot = slot_of_index [of tr dst, unfolded trait_index_def]
  consider (fixed) "dst \<noteq> (if id_base tr \<noteq> 0 then 0 else - 1)"
    | (at_end) "dst = (if id_base tr \<noteq> 0 then 0 else - 1)" "\<not> id_lowest tr" "highest_index m < id_count tr"
    | (scan) "dst = (if id_base tr \<noteq> 0 then 0 else - 1)" "id_lowest tr \<or> \<not> highest_index m < id_count tr" by blast
  then show ?thesis
  proof cases
    case fixed
    define index where "index = get_index dst (id_base tr) (id_step tr) (id_count tr) (id_invl_range tr)"
    have f: "index < id_count tr" "k = unat index" "ktype (vec_keys m ! k) = - 1" "g' = dst"
      "keys = (vec_keys m)[k := \<lparr>kvalue = g', ktype = id_type tr\<rparr>]" "h = max (highest_index m) (index + 1)"
      using a fixed by (auto simp: allocate_id_def Let_def simp flip: index_def split: if_splits)
    show ?thesis
      using unat_inc [OF f(1)] f slot cnt hn by (simp add: word_less_nat_alt max_def word_le_nat_alt flip: index_def)
  next
    case at_end
    then have f: "k = unat (highest_index m)" "g' = id_base tr + id_step tr * highest_index m"
      "keys = (vec_keys m)[k := \<lparr>kvalue = g', ktype = id_type tr\<rparr>]" "h = highest_index m + 1"
      using a by (auto simp: allocate_id_def Let_def)
    then have k: "k < n" "unat (highest_index m) \<le> k" using cnt at_end(3) by (simp_all add: word_less_nat_alt)
    moreover have "slot_base tr k AND mask_of tr = 0" using ok k by (simp add: traits_ok_def)
    ultimately show ?thesis
      using f unat_inc [OF at_end(3)] idm_wfD(8) [OF wf k] and_not_self [of "slot_base tr k" "mask_of tr"] by (simp add: slot_base_def)
  next
    case scan
    then have f: "scan_free (id_step tr) (id_invl_range tr) (take n (vec_keys m)) 0 (id_base tr) = Some (k, g')"
      "keys = (vec_keys m)[k := \<lparr>kvalue = g', ktype = id_type tr\<rparr>]" "h = (if id_lowest tr then id_count tr else highest_index m)"
      using a cnt by (auto simp: allocate_id_def Let_def split: option.splits)
    have "slot_base tr k AND mask_of tr = 0" if "k < n" using ok that by (simp add: traits_ok_def)
    then show ?thesis
      using scan_free_Some [OF f(1)] f(2,3) scan(2) cnt hn idm_wfD(5) [OF wf] and_not_or [of "slot_base tr k" "mask_of tr"]
      by (auto simp: slot_base_def mask_of_def word_less_nat_alt)
  qed
qed

lemma allocate_No_id:
  assumes wf: "idm_wf trs n m" and tr: "tr \<in> trs" and
    a: "allocate_id (vec_keys m) (highest_index m) g (id_type tr) dst (id_base tr) (id_step tr) (id_count tr)
          (id_lowest tr) (id_invl_range tr) = (No_id, keys, h, g')"
  shows "keys = vec_keys m \<and> g' = g \<and> unat h \<le> n \<and> unat (highest_index m) \<le> unat h"
proof -
  have "unat (id_count tr) = n" "unat (highest_index m) \<le> n" using idm_wfD(1) [OF wf tr] idm_wfD(6) [OF wf] by (simp_all add: traits_ok_def)
  moreover have "x < id_count tr \<Longrightarrow> unat (x + 1) \<le> unat (id_count tr)" for x
    using unat_inc [of x "id_count tr"] by (simp add: word_less_nat_alt)
  ultimately show ?thesis
    using a by (auto simp: allocate_id_def Let_def max_def word_le_nat_alt split: if_splits option.splits prod.splits)
qed

section \<open>A container is a table from types and ids to objects\<close>

definition lookup :: "id_traits \<Rightarrow> 'a id_map \<Rightarrow> u32 \<Rightarrow> 'a option" where
  "lookup tr m x = map_option snd (find_id tr m x)"

lemma lookup_iff:
  assumes "idm_wf trs n m" "tr \<in> trs"
  shows "lookup tr m x = Some obj \<longleftrightarrow>
    (\<exists>k<n. vec_data m ! k = Some obj \<and> ktype (vec_keys m ! k) = id_type tr \<and> kvalue (vec_keys m ! k) = x)"
  using find_id_iff [OF assms] by (auto simp: lookup_def)

lemma option_ext: "(\<And>y. a = Some y \<longleftrightarrow> b = Some y) \<Longrightarrow> a = b"
  by (metis option.exhaust)

text \<open>Two containers that differ in one slot answer alike, except for the id of that slot.\<close>

lemma lookup_other:
  assumes "idm_wf trs n m" "idm_wf trs n m'" "tr \<in> trs" "k < n"
    and "\<And>j. j < n \<Longrightarrow> j \<noteq> k \<Longrightarrow> vec_data m' ! j = vec_data m ! j \<and> vec_keys m' ! j = vec_keys m ! j"
    and "\<not> (ktype (vec_keys m ! k) = id_type tr \<and> kvalue (vec_keys m ! k) = x)"
    and "\<not> (ktype (vec_keys m' ! k) = id_type tr \<and> kvalue (vec_keys m' ! k) = x)"
  shows "lookup tr m' x = lookup tr m x"
proof (rule option_ext)
  fix obj
  show "lookup tr m' x = Some obj \<longleftrightarrow> lookup tr m x = Some obj"
    unfolding lookup_iff [OF assms(1,3)] lookup_iff [OF assms(2,3)] using assms(5-7) by metis
qed

lemma create_cases:
  assumes "create_id tr provider dst (m, g, s) = Some (r, m', g', s')"
  obtains (full) keys h where "r = None" "m' = m\<lparr>vec_keys := keys, highest_index := h\<rparr>"
      "allocate_id (vec_keys m) (highest_index m) g (id_type tr) dst (id_base tr) (id_step tr) (id_count tr)
          (id_lowest tr) (id_invl_range tr) = (No_id, keys, h, g')" "s' = s"
  | (slot) k keys h where "allocate_id (vec_keys m) (highest_index m) g (id_type tr) dst (id_base tr) (id_step tr) (id_count tr)
          (id_lowest tr) (id_invl_range tr) = (Slot k, keys, h, g')"
      "provider s = (r, s')"
      "m' = (case r of None \<Rightarrow> m\<lparr>vec_keys := keys[k := empty_key], highest_index := h\<rparr>
             | Some obj \<Rightarrow> \<lparr>vec_data = (vec_data m)[k := Some obj], vec_keys = keys, highest_index = h\<rparr>)"
  using assms by (auto simp: create_id_def split: prod.splits slot.splits option.splits)

lemma create_Some:
  assumes wf: "idm_wf trs n m" and tr: "tr \<in> trs"
    and c: "create_id tr provider dst (m, g, s) = Some (Some obj, m', g', s')"
  shows "idm_wf trs n m'" "lookup tr m g' = None" "lookup tr m' g' = Some obj"
    "tr' \<in> trs \<Longrightarrow> tr' \<noteq> tr \<or> x \<noteq> g' \<Longrightarrow> lookup tr' m' x = lookup tr' m x"
proof -
  from c obtain k keys h where a: "allocate_id (vec_keys m) (highest_index m) g (id_type tr) dst (id_base tr) (id_step tr)
        (id_count tr) (id_lowest tr) (id_invl_range tr) = (Slot k, keys, h, g')"
    and m': "m' = \<lparr>vec_data = (vec_data m)[k := Some obj], vec_keys = keys, highest_index = h\<rparr>"
    by (rule create_cases) auto
  note k = allocate_Slot [OF wf tr a]
  note t = type_ok [OF wf tr]
  have "key_ok trs k \<lparr>kvalue = g', ktype = id_type tr\<rparr>" using k tr by (auto simp: key_ok_def)
  then show wf': "idm_wf trs n m'"
    using wf k t by (auto simp: idm_wf_def m' nth_list_update)
  show "lookup tr m' g' = Some obj"
    unfolding lookup_iff [OF wf' tr] using k idm_wfD(4,5) [OF wf] by (intro exI [of _ k]) (simp add: m')
  have free: "ktype (vec_keys m ! k) \<noteq> id_type tr'" if "tr' \<in> trs" for tr'
    using k type_ok [OF wf that] by simp
  have "trait_index tr g' = of_nat k" using index_of_slot [OF idm_wfD(1) [OF wf tr]] k by simp
  then have "find_id tr m g' \<noteq> Some (j, y)" for j y
    using free [OF tr] step_bound(2) [OF idm_wfD(1) [OF wf tr], of k] k find_id_iff [OF wf tr, of g' j y]
    by (auto simp: find_id_def find_index_def split: if_splits option.splits)
  then show "lookup tr m g' = None" by (cases "find_id tr m g'") (auto simp: lookup_def)
  show "lookup tr' m' x = lookup tr' m x" if "tr' \<in> trs" "tr' \<noteq> tr \<or> x \<noteq> g'"
  proof (rule lookup_other [OF wf wf' that(1)])
    show "\<not> (ktype (vec_keys m' ! k) = id_type tr' \<and> kvalue (vec_keys m' ! k) = x)"
      using that tr k idm_wfD(5) [OF wf] inj_onD [OF idm_wfD(3) [OF wf], of tr tr'] by (auto simp: m')
  qed (use k free [OF that(1)] in \<open>auto simp: m'\<close>)
qed

lemma create_None:
  assumes wf: "idm_wf trs n m" and tr: "tr \<in> trs"
    and c: "create_id tr provider dst (m, g, s) = Some (None, m', g', s')"
  shows "idm_wf trs n m'" "tr' \<in> trs \<Longrightarrow> lookup tr' m' x = lookup tr' m x"
proof -
  have "idm_wf trs n m' \<and> (tr' \<in> trs \<longrightarrow> lookup tr' m' x = lookup tr' m x)" for tr' x
    using c
  proof (cases rule: create_cases)
    case (full keys h)
    note f = allocate_No_id [OF wf tr full(3)]
    have wf': "idm_wf trs n m'" using wf f by (auto simp: idm_wf_def full(2))
    moreover have "lookup tr' m' x = lookup tr' m x" if "tr' \<in> trs"
      by (rule option_ext, unfold lookup_iff [OF wf that] lookup_iff [OF wf' that]) (simp add: full(2) f)
    ultimately show ?thesis by simp
  next
    case (slot k keys h)
    note k = allocate_Slot [OF wf tr slot(1)]
    have "vec_data m ! k = None" using k idm_wfD(7) [OF wf, of k] by simp
    then have wf': "idm_wf trs n m'"
      using wf k by (auto simp: idm_wf_def slot(3) empty_key_def nth_list_update)
    have "lookup tr' m' x = lookup tr' m x" if "tr' \<in> trs"
      by (rule lookup_other [OF wf wf' that, of k])
        (use k type_ok [OF wf that] idm_wfD(5) [OF wf] in \<open>auto simp: slot(3) empty_key_def\<close>)
    then show ?thesis using wf' by simp
  qed
  then show "idm_wf trs n m'" "tr' \<in> trs \<Longrightarrow> lookup tr' m' x = lookup tr' m x" by blast+
qed

lemma erase_nth:
  assumes "idm_wf trs n m" "j < n"
  shows "vec_data (erase m k) ! j = (if j = k then None else vec_data m ! j)"
    "vec_keys (erase m k) ! j = (if j = k then clear_key (vec_keys m ! k) else vec_keys m ! j)"
  using assms(2) idm_wfD(4,5) [OF assms(1)] by (simp_all add: erase_def nth_list_update)

lemma erase_wf:
  assumes wf: "idm_wf trs n m"
  shows "idm_wf trs n (erase m k)"
proof -
  have key: "key_ok trs j (vec_keys (erase m k) ! j)" if "j < n" "ktype (vec_keys (erase m k) ! j) \<noteq> - 1" for j
    using that idm_wfD(9) [OF wf] by (cases "j = k") (simp_all add: erase_nth [OF wf] clear_key_def)
  have "length (vec_data (erase m k)) = n" "length (vec_keys (erase m k)) = n" "highest_index (erase m k) = highest_index m"
    using idm_wfD(4,5) [OF wf] by (simp_all add: erase_def)
  with key show ?thesis
    using idm_wfD(1-3,6-8) [OF wf] unfolding idm_wf_def
    by (intro conjI ballI allI impI) (simp_all add: erase_nth [OF wf] clear_key_def)
qed

lemma erase_lookup:
  assumes wf: "idm_wf trs n m" and tr: "tr \<in> trs" and f: "find_id tr m x = Some (k, obj)"
  shows "lookup tr (erase m k) x = None"
    "tr' \<in> trs \<Longrightarrow> tr' \<noteq> tr \<or> y \<noteq> x \<Longrightarrow> lookup tr' (erase m k) y = lookup tr' m y"
proof -
  have k: "k < n" "ktype (vec_keys m ! k) = id_type tr" "kvalue (vec_keys m ! k) = x"
    using f [unfolded find_id_iff [OF wf tr]] by simp_all
  note wf' = erase_wf [OF wf, of k]
  have dead: "ktype (vec_keys (erase m k) ! k) = - 1" by (simp add: erase_nth [OF wf k(1)] clear_key_def)
  have "find_id tr (erase m k) x \<noteq> Some (j, y)" for j y
  proof
    assume "find_id tr (erase m k) x = Some (j, y)"
    note j = this [unfolded find_id_iff [OF wf' tr]]
    then have "j \<noteq> k" using type_ok [OF wf tr] dead by metis
    then have "find_id tr m x = Some (j, y)" using j erase_nth [OF wf] unfolding find_id_iff [OF wf tr] by metis
    then show False using f \<open>j \<noteq> k\<close> by simp
  qed
  then show "lookup tr (erase m k) x = None" by (cases "find_id tr (erase m k) x") (auto simp: lookup_def)
  show "lookup tr' (erase m k) y = lookup tr' m y" if o: "tr' \<in> trs" "tr' \<noteq> tr \<or> y \<noteq> x"
  proof (rule lookup_other [OF wf wf' o(1) k(1)])
    have "id_type tr = id_type tr' \<Longrightarrow> tr = tr'" using inj_onD [OF idm_wfD(3) [OF wf]] o(1) tr by blast
    then show "\<not> (ktype (vec_keys m ! k) = id_type tr' \<and> kvalue (vec_keys m ! k) = y)" using k o(2) by metis
    show "\<not> (ktype (vec_keys (erase m k) ! k) = id_type tr' \<and> kvalue (vec_keys (erase m k) ! k) = y)"
      using type_ok [OF wf o(1)] dead by simp
  qed (simp add: erase_nth [OF wf])
qed

lemma clear_lookup:
  assumes wf: "idm_wf trs n m"
  shows "idm_wf trs n (idm_clear m)" "tr \<in> trs \<Longrightarrow> lookup tr (idm_clear m) x = None"
proof -
  have nth: "vec_data (idm_clear m) ! j = None" "ktype (vec_keys (idm_clear m) ! j) = - 1" if "j < n" for j
    using that idm_wfD(4,5) [OF wf] by (simp_all add: idm_clear_def clear_key_def)
  have "length (vec_data (idm_clear m)) = n" "length (vec_keys (idm_clear m)) = n" "highest_index (idm_clear m) = highest_index m"
    using idm_wfD(4,5) [OF wf] by (simp_all add: idm_clear_def)
  with nth show wf': "idm_wf trs n (idm_clear m)"
    using idm_wfD(1-3,6) [OF wf] unfolding idm_wf_def by (intro conjI ballI allI impI) simp_all
  show "lookup tr (idm_clear m) x = None" if "tr \<in> trs"
    using lookup_iff [OF wf' that] nth by (metis not_None_eq)
qed

lemma remove_cases:
  assumes "idm_wf trs n m" "tr \<in> trs"
  shows "idm_remove tr x m = (case find_id tr m x of None \<Rightarrow> (False, m) | Some (k, obj) \<Rightarrow> (True, erase m k))"
    "idm_withdraw tr x func (m, s) = (case find_id tr m x of None \<Rightarrow> (None, m, s)
       | Some (k, obj) \<Rightarrow> (case func obj s of (ret, s) \<Rightarrow> (Some (obj, ret), if ret \<noteq> 0 then m else erase m k, s)))"
    "idm_check tr m x func' s = (case find_id tr m x of None \<Rightarrow> (None, s)
       | Some (k, obj) \<Rightarrow> (case func' obj s of (r, s) \<Rightarrow> (Some (obj, r), s)))"
  unfolding check_index [OF assms, symmetric] idm_remove_def idm_withdraw_def idm_check_def
  by (auto simp: Let_def split: option.splits prod.splits)

section \<open>Histories\<close>

text \<open>What the operations did to a container, the latest event first; the table is what the events leave.\<close>

datatype 'a idm_event = Created u32 u32 'a | Kept | Removed u32 u32 | Cleared

fun table :: "'a idm_event list \<Rightarrow> u32 \<times> u32 \<Rightarrow> 'a option" where
  "table [] = Map.empty"
| "table (Created t x obj # es) = (table es)((t, x) \<mapsto> obj)"
| "table (Kept # es) = table es"
| "table (Removed t x # es) = (table es)((t, x) := None)"
| "table (Cleared # es) = Map.empty"

fun legal :: "'a idm_event list \<Rightarrow> bool" where
  "legal [] \<longleftrightarrow> True"
| "legal (Created t x obj # es) \<longleftrightarrow> table es (t, x) = None \<and> legal es"
| "legal (Removed t x # es) \<longleftrightarrow> table es (t, x) \<noteq> None \<and> legal es"
| "legal (_ # es) \<longleftrightarrow> legal es"

definition traits_set_ok :: "id_traits set \<Rightarrow> nat \<Rightarrow> bool" where
  "traits_set_ok trs n \<longleftrightarrow> (\<forall>tr\<in>trs. traits_ok n tr \<and> (id_sole tr \<longrightarrow> trs = {tr})) \<and> inj_on id_type trs"

text \<open>All sequences of operations on a container of \<open>n\<close> slots, with arbitrary functions passed to them.\<close>

inductive idm_run :: "id_traits set \<Rightarrow> nat \<Rightarrow> 'a idm_event list \<Rightarrow> 'a id_map \<Rightarrow> 's \<Rightarrow> bool" for trs n where
  start: "idm_run trs n [] (new_id_map n) s"
| create: "\<lbrakk>idm_run trs n es m s; tr \<in> trs; create_id tr provider dst (m, g, s) = Some (r, m', g', s')\<rbrakk>
    \<Longrightarrow> idm_run trs n ((case r of None \<Rightarrow> Kept | Some obj \<Rightarrow> Created (id_type tr) g' obj) # es) m' s'"
| remove: "\<lbrakk>idm_run trs n es m s; tr \<in> trs; idm_remove tr x m = (r, m')\<rbrakk>
    \<Longrightarrow> idm_run trs n ((if r then Removed (id_type tr) x else Kept) # es) m' s"
| withdraw: "\<lbrakk>idm_run trs n es m s; tr \<in> trs; idm_withdraw tr x func (m, s) = (r, m', s')\<rbrakk>
    \<Longrightarrow> idm_run trs n ((case r of Some (obj, ret) \<Rightarrow> if ret = 0 then Removed (id_type tr) x else Kept | None \<Rightarrow> Kept) # es) m' s'"
| access: "\<lbrakk>idm_run trs n es m s; tr \<in> trs; idm_check tr m x func s = (r :: ('a \<times> error_code) option, s')\<rbrakk> \<Longrightarrow> idm_run trs n es m s'"
| clear: "idm_run trs n es m s \<Longrightarrow> idm_run trs n (Cleared # es) (idm_clear m) s"

lemma new_lookup:
  assumes "traits_set_ok trs n"
  shows "idm_wf trs n (new_id_map n :: 'a id_map)" "tr \<in> trs \<Longrightarrow> lookup tr (new_id_map n :: 'a id_map) x = None"
proof -
  show wf: "idm_wf trs n (new_id_map n :: 'a id_map)"
    using assms by (simp add: idm_wf_def traits_set_ok_def new_id_map_def empty_key_def)
  show "lookup tr (new_id_map n :: 'a id_map) x = None" if "tr \<in> trs"
  proof (rule ccontr)
    assume "lookup tr (new_id_map n :: 'a id_map) x \<noteq> None"
    then obtain obj where "lookup tr (new_id_map n :: 'a id_map) x = Some obj" by auto
    then show False unfolding lookup_iff [OF wf that] by (auto simp: new_id_map_def)
  qed
qed

lemma table_update:
  assumes "inj_on id_type trs" "tr \<in> trs" "tr' \<in> trs"
    and "\<And>tr x. tr \<in> trs \<Longrightarrow> lookup tr m x = table es (id_type tr, x)"
    and "lookup tr m' y = v" "\<And>tr' x. tr' \<in> trs \<Longrightarrow> tr' \<noteq> tr \<or> x \<noteq> y \<Longrightarrow> lookup tr' m' x = lookup tr' m x"
  shows "lookup tr' m' x = ((table es)((id_type tr, y) := v)) (id_type tr', x)"
  using assms inj_onD [OF assms(1), of tr tr'] by (cases "tr' = tr \<and> x = y") auto

text \<open>A container agrees with the events that led to it.\<close>

definition agrees :: "id_traits set \<Rightarrow> nat \<Rightarrow> 'a idm_event list \<Rightarrow> 'a id_map \<Rightarrow> bool" where
  "agrees trs n es m \<longleftrightarrow> idm_wf trs n m \<and> legal es \<and> (\<forall>tr\<in>trs. \<forall>x. lookup tr m x = table es (id_type tr, x))"

lemma agrees_create:
  assumes a: "agrees trs n es m" and tr: "tr \<in> trs" and c: "create_id tr provider dst (m, g, s) = Some (r, m', g', s')"
  shows "agrees trs n ((case r of None \<Rightarrow> Kept | Some obj \<Rightarrow> Created (id_type tr) g' obj) # es) m'"
proof (cases r)
  case None
  then show ?thesis using a c create_None [of trs n m tr] tr by (auto simp: agrees_def)
next
  case (Some obj)
  have wf: "idm_wf trs n m" using a by (simp add: agrees_def)
  note c' = create_Some [OF wf tr c [unfolded Some]]
  have "lookup tr' m' x = ((table es)((id_type tr, g') := Some obj)) (id_type tr', x)" if "tr' \<in> trs" for tr' x
    by (rule table_update [OF idm_wfD(3) [OF wf] tr that _ c'(3,4)]) (use a in \<open>auto simp: agrees_def\<close>)
  moreover have "table es (id_type tr, g') = None" using c'(2) a tr by (auto simp: agrees_def)
  ultimately show ?thesis using Some c'(1) a by (auto simp: agrees_def)
qed

lemma agrees_erase:
  assumes a: "agrees trs n es m" and tr: "tr \<in> trs" and f: "find_id tr m x = Some (k, obj)"
  shows "agrees trs n (Removed (id_type tr) x # es) (erase m k)"
proof -
  have wf: "idm_wf trs n m" using a by (simp add: agrees_def)
  have "lookup tr' (erase m k) y = ((table es)((id_type tr, x) := None)) (id_type tr', y)" if "tr' \<in> trs" for tr' y
    by (rule table_update [OF idm_wfD(3) [OF wf] tr that _ erase_lookup [OF wf tr f]]) (use a in \<open>auto simp: agrees_def\<close>)
  moreover have "lookup tr m x \<noteq> None" using f by (simp add: lookup_def)
  then have "table es (id_type tr, x) \<noteq> None" using a tr by (auto simp: agrees_def)
  ultimately show ?thesis using a erase_wf [OF wf] by (auto simp: agrees_def)
qed

lemma idm_run_agrees:
  assumes "idm_run trs n es m s" "traits_set_ok trs n"
  shows "agrees trs n es m"
  using assms(1)
proof induction
  case (start s)
  then show ?case by (simp add: agrees_def new_lookup [OF assms(2)])
next
  case (create es m s tr provider dst g r m' g' s')
  then show ?case by (intro agrees_create)
next
  case (remove es m s tr x r m')
  then have "idm_wf trs n m" by (simp add: agrees_def)
  then show ?case
    using remove remove_cases(1) [OF _ remove(2), of n m x]
    by (auto simp: agrees_erase agrees_def [of _ _ "Kept # _"] agrees_def [of _ _ es] split: option.splits)
next
  case (withdraw es m s tr x func r m' s')
  then have "idm_wf trs n m" by (simp add: agrees_def)
  then show ?case
    using withdraw remove_cases(2) [OF _ withdraw(2), of n m x func s]
    by (auto simp: agrees_erase agrees_def [of _ _ "Kept # _"] agrees_def [of _ _ es] split: option.splits prod.splits if_splits)
next
  case (clear es m s)
  then show ?case using clear_lookup by (auto simp: agrees_def)
qed simp

lemma table_created: "table es (t, x) = Some obj \<Longrightarrow> Created t x obj \<in> set es"
  by (induction es rule: table.induct) (auto split: if_splits)

lemma scan_free_first:
  "k < length ks \<Longrightarrow> ktype (ks ! k) = - 1 \<Longrightarrow> \<forall>j<k. ktype (ks ! j) \<noteq> - 1 \<Longrightarrow>
     scan_free step r ks i nxt =
       Some (i + k, (nxt + step * of_nat k) OR ((kvalue (ks ! k) + push_bit (fst r) 1) AND invl_mask r))"
proof (induction step r ks i nxt arbitrary: k rule: scan_free.induct)
  case (2 step r key ks i nxt)
  show ?case
  proof (cases k)
    case 0
    then show ?thesis using 2(3) no_mask [of r] by simp
  next
    case (Suc j)
    have "ktype key \<noteq> - 1" using 2(4) Suc by auto
    moreover have "\<forall>l<j. ktype (ks ! l) \<noteq> - 1" using 2(4) Suc by auto
    ultimately show ?thesis using 2(1) [of j] 2(2,3) Suc by (simp add: algebra_simps)
  qed
qed simp

text \<open>When no fresh slot is left, a new object goes to the first free slot, with the counter increased.\<close>

lemma create_in_free_slot:
  assumes wf: "idm_wf trs n m" and tr: "tr \<in> trs" and full: "id_lowest tr \<or> unat (highest_index m) = n"
    and k: "k < n" "ktype (vec_keys m ! k) = - 1" "\<forall>j<k. ktype (vec_keys m ! j) \<noteq> - 1"
    and x: "x = slot_base tr k OR ((kvalue (vec_keys m ! k) + push_bit (fst (id_invl_range tr)) 1) AND mask_of tr)"
  shows "\<exists>h. unat h = n \<and> create_id tr (\<lambda>s. (r, s)) (invalid tr) (m, g, s) =
    Some (r, case r of
        None \<Rightarrow> m\<lparr>vec_keys := (vec_keys m)[k := empty_key], highest_index := h\<rparr>
      | Some obj \<Rightarrow> \<lparr>vec_data = (vec_data m)[k := Some obj], vec_keys = (vec_keys m)[k := \<lparr>kvalue = x, ktype = id_type tr\<rparr>],
          highest_index = h\<rparr>, x, s)"
proof -
  define h where "h = (if id_lowest tr then id_count tr else highest_index m)"
  have cnt: "unat (id_count tr) = n" using idm_wfD(1) [OF wf tr] by (simp add: traits_ok_def)
  have "scan_free (id_step tr) (id_invl_range tr) (take n (vec_keys m)) 0 (id_base tr) = Some (k, x)"
    using scan_free_first [of k "take n (vec_keys m)"] k x idm_wfD(5) [OF wf] by (simp add: slot_base_def mask_of_def)
  moreover have "id_lowest tr \<or> \<not> highest_index m < id_count tr" using full cnt by (auto simp: word_less_nat_alt)
  ultimately have "allocate_id (vec_keys m) (highest_index m) g (id_type tr) (invalid tr) (id_base tr) (id_step tr) (id_count tr)
      (id_lowest tr) (id_invl_range tr) = (Slot k, (vec_keys m)[k := \<lparr>kvalue = x, ktype = id_type tr\<rparr>], h, x)"
    using cnt by (auto simp: allocate_id_def invalid_def h_def Let_def)
  moreover have "unat h = n" using full cnt by (auto simp: h_def)
  ultimately show ?thesis by (intro exI [of _ h]) (simp add: create_id_def split: option.split)
qed

lemma counter_one: "snd r \<noteq> 0 \<Longrightarrow> push_bit (fst r) 1 AND invl_mask r = push_bit (fst r) (1 :: u32)"
proof -
  assume "snd r \<noteq> 0"
  then have "odd (push_bit (snd r) 1 - 1 :: u32)" by (cases "snd r") (simp_all add: push_bit_eq_mult)
  then have "bit (push_bit (snd r) 1 - 1 :: u32) 0" by (simp add: bit_0)
  then show ?thesis
    by (intro bit_word_eqI) (auto simp: invl_mask_def bit_simps bit_1_iff)
qed

section \<open>Properties\<close>

text \<open>The kernel objects share 8192 slots, with an 8-bit counter in the low byte of the id.\<close>

definition lv2_traits :: "u32 \<Rightarrow> id_traits" where
  "lv2_traits base = \<lparr>id_base = base, id_step = 0x100, id_count = 8192, id_lowest = False, id_invl_range = (0, 8),
     id_type = base, id_sole = False\<rparr>"

lemma low_byte_iff: "x AND 0xFF = 0 \<longleftrightarrow> unat x mod 256 = 0" for x :: u32
proof -
  have "x AND 0xFF = take_bit 8 x" by (simp add: take_bit_eq_mask mask_numeral)
  then have "unat (x AND 0xFF) = unat x mod 256" by (simp add: take_bit_eq_mod unat_mod)
  then show ?thesis by (metis unat_eq_zero)
qed

lemma low_byte_clear: "base AND 0xFF = 0 \<Longrightarrow> (base + 0x100 * x) AND 0xFF = 0" for base x :: u32
proof -
  assume "base AND 0xFF = 0"
  moreover have "unat (base + 0x100 * x) = (unat base + 256 * unat x) mod 4294967296"
    by (simp add: unat_word_ariths mod_simps)
  moreover have "(unat base + 256 * unat x) mod 4294967296 mod 256 = (unat base + 256 * unat x) mod 256"
    by (rule mod_mod_cancel) simp
  ultimately show ?thesis unfolding low_byte_iff by simp
qed

lemma lv2_traits_ok:
  assumes "base AND 0xFF = 0" "unat base < 4292870144" "base \<noteq> 0"
  shows "traits_ok 8192 (lv2_traits base)"
proof -
  have "mask_of (lv2_traits base) = 0xFF" by (simp add: mask_of_def invl_mask_def lv2_traits_def push_bit_eq_mult)
  moreover have "slot_base (lv2_traits base) k AND 0xFF = 0" for k
    using low_byte_clear [OF assms(1), of "of_nat k"] by (simp add: slot_base_def lv2_traits_def)
  moreover have "base \<noteq> - 1" using assms(1) by auto
  ultimately show ?thesis using assms(2,3) by (simp add: traits_ok_def lv2_traits_def)
qed

abbreviation sample_traits :: "id_traits set" where
  "sample_traits \<equiv> {lv2_traits 0x96000000, lv2_traits 0x85000000}"

lemma sample_traits_ok: "traits_set_ok sample_traits 8192"
  by (auto simp: traits_set_ok_def intro!: lv2_traits_ok) (auto simp: lv2_traits_def)

definition sample_map :: "nat id_map" where
  "sample_map = \<lparr>vec_data = (replicate 8192 None)[0 := Some 7],
     vec_keys = (replicate 8192 empty_key)[0 := \<lparr>kvalue = 0x96000000, ktype = 0x96000000\<rparr>], highest_index = 1\<rparr>"

lemma sample_run: "idm_run sample_traits 8192 [Created 0x96000000 0x96000000 7] sample_map ()"
proof -
  have "create_id (lv2_traits 0x96000000) (\<lambda>s. (Some 7, s)) 0 (new_id_map 8192, 0, ()) = Some (Some 7, sample_map, 0x96000000, ())"
    by (simp add: create_id_def allocate_id_def lv2_traits_def new_id_map_def sample_map_def Let_def)
  from idm_run.create [OF idm_run.start _ this, of sample_traits] show ?thesis
    by (simp add: lv2_traits_def)
qed

text \<open>
  C22: an object container is a table from types and ids to objects: after any sequence of creations,
  removals and lookups, a lookup of an id for a type returns exactly the object that the history left
  under them, and a new object never receives an id that its type uses already.
\<close>

theorem idm_refines_table:
  assumes "idm_run trs n es m s" "traits_set_ok trs n" "tr \<in> trs"
  shows "legal es \<and> lookup tr m x = table es (id_type tr, x)"
  using idm_run_agrees [OF assms(1,2)] assms(3) by (simp add: agrees_def)

theorem idm_refines_table_witness:
  "legal [Created 0x96000000 0x96000000 (7 :: nat)] \<and> lookup (lv2_traits 0x96000000) sample_map 0x96000000 = Some 7
   \<and> lookup (lv2_traits 0x85000000) sample_map 0x96000000 = None"
  using idm_refines_table [OF sample_run sample_traits_ok, where tr = "lv2_traits 0x96000000" and x = "0x96000000"]
    idm_refines_table [OF sample_run sample_traits_ok, where tr = "lv2_traits 0x85000000" and x = "0x96000000"]
  by (simp add: lv2_traits_def)

text \<open>
  C29: a failed creation forgets the counter of the slot it had taken, so the next object in that slot
  can get the id of an object removed before: the stale id of the removed object, the first to
  reuse its slot, refers to the new one.
\<close>

theorem failed_create_reissues_id:
  assumes wf: "idm_wf trs n m" and tr: "tr \<in> trs" and full: "id_lowest tr \<or> unat (highest_index m) = n"
    and r: "snd (id_invl_range tr) \<noteq> 0"
    and f: "find_id tr m x = Some (k, obj)" "x = slot_base tr k OR push_bit (fst (id_invl_range tr)) 1"
    and taken: "\<forall>j<k. ktype (vec_keys m ! j) \<noteq> - 1"
  shows "\<exists>m2 g2 m3. create_id tr (\<lambda>s. (None, s)) (invalid tr) (erase m k, g, s) = Some (None, m2, g2, s)
    \<and> create_id tr (\<lambda>s. (Some new, s)) (invalid tr) (m2, g2, s) = Some (Some new, m3, x, s) \<and> lookup tr m3 x = Some new"
proof -
  have k: "k < n" using f(1) [unfolded find_id_iff [OF wf tr]] by simp
  note wf1 = erase_wf [OF wf, of k]
  have free1: "ktype (vec_keys (erase m k) ! k) = - 1" "\<forall>j<k. ktype (vec_keys (erase m k) ! j) \<noteq> - 1"
    using taken k by (simp_all add: erase_nth [OF wf] clear_key_def)
  have "id_lowest tr \<or> unat (highest_index (erase m k)) = n" using full by (simp add: erase_def)
  from create_in_free_slot [OF wf1 tr this k free1 refl, of None g s]
  obtain h g2 where "unat h = n" and c1: "create_id tr (\<lambda>s. (None, s)) (invalid tr) (erase m k, g, s) =
      Some (None, (erase m k)\<lparr>vec_keys := (vec_keys (erase m k))[k := empty_key], highest_index := h\<rparr>, g2, s)"
    by auto
  define m2 where "m2 = (erase m k)\<lparr>vec_keys := (vec_keys (erase m k))[k := empty_key], highest_index := h\<rparr>"
  note wf2 = create_None(1) [OF wf1 tr c1, folded m2_def]
  have free2: "ktype (vec_keys m2 ! k) = - 1" "\<forall>j<k. ktype (vec_keys m2 ! j) \<noteq> - 1"
    "id_lowest tr \<or> unat (highest_index m2) = n"
    using free1 k idm_wfD(5) [OF wf1] \<open>unat h = n\<close> by (simp_all add: m2_def empty_key_def)
  have "x = slot_base tr k OR ((kvalue (vec_keys m2 ! k) + push_bit (fst (id_invl_range tr)) 1) AND mask_of tr)"
    using f(2) k idm_wfD(5) [OF wf1] counter_one [OF r] by (simp add: m2_def empty_key_def mask_of_def)
  from create_in_free_slot [OF wf2 tr free2(3) k free2(1,2) this, of "Some new" g2 s]
  obtain m3 where c2: "create_id tr (\<lambda>s. (Some new, s)) (invalid tr) (m2, g2, s) = Some (Some new, m3, x, s)" by auto
  with c1 create_Some(3) [OF wf2 tr c2] show ?thesis unfolding m2_def by blast
qed

definition one_slot :: id_traits where
  "one_slot = (lv2_traits 0x96000000)\<lparr>id_count := 1\<rparr>"

definition one_slot_map :: "nat id_map" where
  "one_slot_map = \<lparr>vec_data = [Some 1], vec_keys = [\<lparr>kvalue = 0x96000001, ktype = 0x96000000\<rparr>], highest_index = 1\<rparr>"

lemma one_slot_mask: "mask_of one_slot = 0xFF"
  by (simp add: mask_of_def invl_mask_def one_slot_def lv2_traits_def push_bit_eq_mult)

lemma one_slot_wf: "idm_wf {one_slot} 1 one_slot_map"
proof -
  have "slot_base one_slot 0 = 0x96000000" by (simp add: slot_base_def one_slot_def lv2_traits_def)
  then have "traits_ok 1 one_slot" "key_ok {one_slot} 0 \<lparr>kvalue = 0x96000001, ktype = 0x96000000\<rparr>"
    by (simp_all add: traits_ok_def key_ok_def one_slot_mask) (simp_all add: one_slot_def lv2_traits_def)
  then show ?thesis by (simp add: idm_wf_def one_slot_map_def)
qed

theorem failed_create_reissues_id_witness:
  "\<exists>m2 g2 m3. create_id one_slot (\<lambda>s. (None, s)) (invalid one_slot) (erase one_slot_map 0, 0, ()) = Some (None, m2, g2, ())
    \<and> create_id one_slot (\<lambda>s. (Some 2, s)) (invalid one_slot) (m2, g2, ()) = Some (Some 2, m3, 0x96000001, ())
    \<and> lookup one_slot m3 0x96000001 = Some 2"
proof (rule failed_create_reissues_id [OF one_slot_wf, of one_slot])
  show "find_id one_slot one_slot_map 0x96000001 = Some (0, 1)"
    unfolding find_id_iff [OF one_slot_wf singletonI] by (simp add: one_slot_map_def one_slot_def lv2_traits_def)
qed (simp_all add: one_slot_map_def one_slot_def lv2_traits_def slot_base_def)

end
