(* ===== verification/Lv2_Obj.thy ===== *)
theory Lv2_Obj
  imports Idm
begin

text \<open>
  Creation and destruction of kernel objects (\<^verbatim>\<open>rpcs3/Emu/Cell/lv2/sys_sync.h\<close>) and the registry of the
  objects that processes share under a key (\<^verbatim>\<open>rpcs3/Emu/IPC.h\<close>). Objects are addresses of a heap, ids refer to
  objects, and several ids may refer to one shared object, which counts them in \<^verbatim>\<open>exists\<close>.
\<close>

section \<open>Constants\<close>

definition CELL_EAGAIN :: error_code where "CELL_EAGAIN = 0x80010001"

definition CELL_EINVAL :: error_code where "CELL_EINVAL = 0x80010002"

definition CELL_ESRCH :: error_code where "CELL_ESRCH = 0x80010005"

definition CELL_EBUSY :: error_code where "CELL_EBUSY = 0x8001000A"

definition CELL_EFAULT :: error_code where "CELL_EFAULT = 0x8001000D"

definition CELL_EEXIST :: error_code where "CELL_EEXIST = 0x80010014"

definition SYS_SYNC_PROCESS_SHARED :: u32 where "SYS_SYNC_PROCESS_SHARED = 0x100"

definition SYS_SYNC_NOT_PROCESS_SHARED :: u32 where "SYS_SYNC_NOT_PROCESS_SHARED = 0x200"

definition SYS_SYNC_NEWLY_CREATED :: u32 where "SYS_SYNC_NEWLY_CREATED = 1"

definition SYS_SYNC_NOT_CREATE :: u32 where "SYS_SYNC_NOT_CREATE = 2"

definition SYS_SYNC_NOT_CARE :: u32 where "SYS_SYNC_NOT_CARE = 3"

section \<open>State\<close>

type_synonym ptr = nat

record 'b lv2_obj =
  exists :: u32
  otype :: u32
  okey :: u64
  body :: 'b

text \<open>
  The registry has one table per type. An entry may hold a null pointer (\<open>Some None\<close>), which \<^verbatim>\<open>operator[]\<close>
  leaves behind. \<open>err\<close> is the local variable \<^verbatim>\<open>error\<close> of \<^verbatim>\<open>lv2_obj::create\<close>.
\<close>

record 'b kern =
  heap :: "ptr \<Rightarrow> 'b lv2_obj"
  next_obj :: ptr
  m_map :: "u32 \<times> u64 \<Rightarrow> ptr option option"
  err :: error_code

section \<open>The registry\<close>

definition ipc_add :: "u32 \<times> u64 \<Rightarrow> ('b kern \<Rightarrow> ptr option \<times> 'b kern) \<Rightarrow> bool \<Rightarrow> 'b kern
    \<Rightarrow> (bool \<times> ptr option) \<times> 'b kern" where
  "ipc_add ipc_key provider peek_ptr k =
     (let k = (if m_map k ipc_key = None then k\<lparr>m_map := (m_map k)(ipc_key \<mapsto> None)\<rparr> else k) in
      case the (m_map k ipc_key) of
        Some p \<Rightarrow> ((False, if peek_ptr then Some p else None), k)
      | None \<Rightarrow> (case provider k of (p, k) \<Rightarrow>
          ((p \<noteq> None, p), k\<lparr>m_map := (m_map k)(ipc_key \<mapsto> p)\<rparr>)))"

definition ipc_remove :: "u32 \<times> u64 \<Rightarrow> 'b kern \<Rightarrow> bool \<times> 'b kern" where
  "ipc_remove ipc_key k = (m_map k ipc_key \<noteq> None, k\<lparr>m_map := (m_map k)(ipc_key := None)\<rparr>)"

definition ipc_get :: "u32 \<times> u64 \<Rightarrow> 'b kern \<Rightarrow> ptr option" where
  "ipc_get ipc_key k = (case m_map k ipc_key of None \<Rightarrow> None | Some p \<Rightarrow> p)"

definition ipc_check :: "u32 \<times> u64 \<Rightarrow> 'b kern \<Rightarrow> bool" where
  "ipc_check ipc_key k \<longleftrightarrow> m_map k ipc_key \<noteq> None"

section \<open>Creation and destruction\<close>

definition get_key :: "u32 \<Rightarrow> u64 \<Rightarrow> u64" where
  "get_key pshared ipc_key = (if pshared = SYS_SYNC_PROCESS_SHARED then ipc_key else 0)"

text \<open>
  \<^verbatim>\<open>lv2_obj::on_id_create\<close>, which semaphores, mutexes, reader/writer locks, event flags and event queues
  inherit. Condition variables and shared memory blocks have their own version, which is not modelled.
\<close>

definition on_id_create :: "ptr \<Rightarrow> 'b kern \<Rightarrow> error_code \<times> 'b kern" where
  "on_id_create p k = (0, k\<lparr>heap := (heap k)(p := (heap k p)\<lparr>exists := exists (heap k p) + 1\<rparr>)\<rparr>)"

definition make_shared :: "u32 \<Rightarrow> u64 \<Rightarrow> 'b \<Rightarrow> 'b kern \<Rightarrow> ptr \<times> 'b kern" where
  "make_shared t key b k = (next_obj k,
     k\<lparr>heap := (heap k)(next_obj k := \<lparr>exists = 0, otype = t, okey = key, body = b\<rparr>), next_obj := next_obj k + 1\<rparr>)"

definition finalize_construct :: "ptr \<Rightarrow> 'b kern \<Rightarrow> ptr option \<times> 'b kern" where
  "finalize_construct p k = (case on_id_create p k of (e, k) \<Rightarrow> (if e \<noteq> 0 then None else Some p, k\<lparr>err := e\<rparr>))"

definition create_provider :: "u32 \<Rightarrow> u32 \<Rightarrow> u64 \<Rightarrow> u32 \<Rightarrow> 'b \<Rightarrow> 'b kern \<Rightarrow> ptr option \<times> 'b kern" where
  "create_provider t pshared ipc_key flags b k =
     (case make_shared t ipc_key b k of (p, k) \<Rightarrow>
        if pshared \<noteq> SYS_SYNC_PROCESS_SHARED then finalize_construct p k
        else if flags = SYS_SYNC_NOT_CREATE then
          (case ipc_get (t, ipc_key) k of
             None \<Rightarrow> (None, k\<lparr>err := CELL_ESRCH\<rparr>)
           | Some q \<Rightarrow> finalize_construct q k)
        else
          (case ipc_add (t, ipc_key) (finalize_construct p) (flags \<noteq> SYS_SYNC_NEWLY_CREATED) k of
             ((added, result), k) \<Rightarrow>
               if added then (result, k)
               else if flags = SYS_SYNC_NEWLY_CREATED then (result, k\<lparr>err := CELL_EEXIST\<rparr>)
               else (case result of None \<Rightarrow> (None, k) | Some q \<Rightarrow> finalize_construct q k)))"

definition lv2_create :: "id_traits \<Rightarrow> u32 \<Rightarrow> u64 \<Rightarrow> u32 \<Rightarrow> bool \<Rightarrow> 'b \<Rightarrow> ptr id_map \<times> u32 \<times> 'b kern
    \<Rightarrow> (error_code \<times> ptr id_map \<times> u32 \<times> 'b kern) option" where
  "lv2_create tr pshared ipc_key flags key_not_zero b = (\<lambda>(m, g, k).
     if pshared = SYS_SYNC_PROCESS_SHARED \<and> (key_not_zero \<and> ipc_key = 0
          \<or> flags \<notin> {SYS_SYNC_NEWLY_CREATED, SYS_SYNC_NOT_CARE, SYS_SYNC_NOT_CREATE})
        \<or> pshared \<notin> {SYS_SYNC_PROCESS_SHARED, SYS_SYNC_NOT_PROCESS_SHARED}
     then Some (CELL_EINVAL, m, g, k)
     else (case import_id tr (create_provider (id_type tr) pshared ipc_key flags b) (invalid tr) (m, g, k\<lparr>err := CELL_EAGAIN\<rparr>) of
         None \<Rightarrow> None
       | Some (i, m, g, k) \<Rightarrow> Some (if i = 0 then err k else CELL_OK, m, g, k)))"

text \<open>The flag \<open>pshared\<close> defaults to whether the key is not zero.\<close>

definition on_id_destroy :: "ptr \<Rightarrow> u64 \<Rightarrow> bool \<Rightarrow> 'b kern \<Rightarrow> 'b kern" where
  "on_id_destroy p ipc_key pshared k =
     (let old = exists (heap k p); k = k\<lparr>heap := (heap k)(p := (heap k p)\<lparr>exists := old - 1\<rparr>)\<rparr> in
      if old = 1 \<and> pshared then snd (ipc_remove (otype (heap k p), ipc_key) k) else k)"

text \<open>The destruction of an object that its type allows unless \<open>busy\<close> reports an error.\<close>

definition lv2_destroy :: "id_traits \<Rightarrow> ('b \<Rightarrow> error_code) \<Rightarrow> u32 \<Rightarrow> ptr id_map \<times> 'b kern
    \<Rightarrow> error_code \<times> ptr id_map \<times> 'b kern" where
  "lv2_destroy tr busy i = (\<lambda>(m, k).
     case idm_withdraw tr i (\<lambda>p k. let e = busy (body (heap k p)) in
            if e \<noteq> 0 then (e, k) else (0, on_id_destroy p (okey (heap k p)) (okey (heap k p) \<noteq> 0) k)) (m, k) of
       (None, m, k) \<Rightarrow> (CELL_ESRCH, m, k)
     | (Some (p, ret), m, k) \<Rightarrow> (if ret \<noteq> 0 then ret else CELL_OK, m, k))"

section \<open>Ids, objects and keys\<close>

text \<open>How many ids refer to an object.\<close>

definition refs :: "ptr id_map \<Rightarrow> ptr \<Rightarrow> nat" where
  "refs m p = count_list (vec_data m) (Some p)"

text \<open>
  The counter of an object is the number of its ids, and the registry holds exactly the objects
  that have an id and a key, each under its type and key.
\<close>

definition registered :: "ptr id_map \<Rightarrow> 'b kern \<Rightarrow> bool" where
  "registered m k \<longleftrightarrow> (\<forall>t key p. m_map k (t, key) = Some (Some p) \<longleftrightarrow>
     0 < refs m p \<and> otype (heap k p) = t \<and> okey (heap k p) = key \<and> key \<noteq> 0)"

definition kern_inv :: "id_traits set \<Rightarrow> nat \<Rightarrow> ptr id_map \<Rightarrow> 'b kern \<Rightarrow> bool" where
  "kern_inv trs n m k \<longleftrightarrow> idm_wf trs n m \<and> n < 4294967296
     \<and> (\<forall>p. unat (exists (heap k p)) = refs m p) \<and> (\<forall>p. next_obj k \<le> p \<longrightarrow> refs m p = 0) \<and> registered m k"

lemma count_list_update:
  "j < length xs \<Longrightarrow> count_list (xs[j := y]) v + (if xs ! j = v then 1 else 0) = count_list xs v + (if y = v then 1 else 0)"
proof (induction xs arbitrary: j)
  case (Cons x xs)
  show ?case
  proof (cases j)
    case (Suc i)
    then have "count_list (xs[i := y]) v + (if xs ! i = v then 1 else 0) = count_list xs v + (if y = v then 1 else 0)"
      using Cons by simp
    then show ?thesis using Suc by (simp split: if_splits)
  qed simp
qed simp

lemma refs_le: "refs m p \<le> length (vec_data m)"
  by (simp add: refs_def count_le_length)

text \<open>What the provider does: it counts one more id of an object that is new or has the wanted type and key.\<close>

definition same_objects :: "'b kern \<Rightarrow> 'b kern \<Rightarrow> bool" where
  "same_objects k k' \<longleftrightarrow> next_obj k' = next_obj k + 1
     \<and> (\<forall>p. p \<noteq> next_obj k \<longrightarrow> otype (heap k' p) = otype (heap k p) \<and> okey (heap k' p) = okey (heap k p))"

lemma finalize_eq: "finalize_construct p k =
    (Some p, k\<lparr>heap := (heap k)(p := (heap k p)\<lparr>exists := exists (heap k p) + 1\<rparr>), err := 0\<rparr>)"
  by (simp add: finalize_construct_def on_id_create_def)

lemma provider_None:
  assumes "create_provider t pshared key flags b k = (None, k')"
  shows "same_objects k k' \<and> (\<forall>p. p \<noteq> next_obj k \<longrightarrow> exists (heap k' p) = exists (heap k p)) \<and> exists (heap k' (next_obj k)) = 0
    \<and> (\<forall>x p. m_map k' x = Some (Some p) \<longleftrightarrow> m_map k x = Some (Some p))"
  using assms
  by (auto simp: create_provider_def make_shared_def finalize_eq ipc_add_def ipc_get_def same_objects_def Let_def
      split: if_splits option.splits prod.splits)

lemma provider_Some:
  assumes "create_provider t pshared key flags b k = (Some q, k')"
  shows "same_objects k k' \<and>
   (q = next_obj k \<and> exists (heap k' q) = 1 \<and> otype (heap k' q) = t \<and> okey (heap k' q) = key
      \<and> (\<forall>p. p \<noteq> q \<longrightarrow> exists (heap k' p) = exists (heap k p))
      \<and> (\<forall>x p. m_map k' x = Some (Some p) \<longleftrightarrow>
           m_map k x = Some (Some p) \<or> pshared = SYS_SYNC_PROCESS_SHARED \<and> x = (t, key) \<and> p = q)
      \<and> (pshared = SYS_SYNC_PROCESS_SHARED \<longrightarrow> (\<forall>p. m_map k (t, key) \<noteq> Some (Some p)))
    \<or> m_map k (t, key) = Some (Some q)
      \<and> (q \<noteq> next_obj k \<longrightarrow> (\<forall>p. p \<noteq> next_obj k \<longrightarrow> exists (heap k' p) = exists (heap k p) + (if p = q then 1 else 0))
        \<and> exists (heap k' (next_obj k)) = 0)
      \<and> (\<forall>x p. m_map k' x = Some (Some p) \<longleftrightarrow> m_map k x = Some (Some p)))"
  using assms
  by (auto simp: create_provider_def make_shared_def finalize_eq ipc_add_def ipc_get_def same_objects_def Let_def
      split: if_splits option.splits prod.splits)

lemma kern_invD:
  assumes "kern_inv trs n m k"
  shows "idm_wf trs n m" "n < 4294967296" "unat (exists (heap k p)) = refs m p" "next_obj k \<le> p \<Longrightarrow> refs m p = 0"
    "m_map k (t, key) = Some (Some p) \<longleftrightarrow> 0 < refs m p \<and> otype (heap k p) = t \<and> okey (heap k p) = key \<and> key \<noteq> 0"
  using assms unfolding kern_inv_def registered_def by blast+

lemma unat_refs: "unat (e :: u32) = r \<Longrightarrow> r + 1 < 4294967296 \<Longrightarrow> unat (e + 1) = r + 1"
  by (simp add: unat_word_ariths)

lemma kern_same_refs:
  assumes inv: "kern_inv trs n m k" and wf: "idm_wf trs n m'" and r: "\<And>p. refs m' p = refs m p" and o: "same_objects k k'"
    and e: "\<forall>p. p \<noteq> next_obj k \<longrightarrow> exists (heap k' p) = exists (heap k p)" "exists (heap k' (next_obj k)) = 0"
    and mp: "\<forall>x p. m_map k' x = Some (Some p) \<longleftrightarrow> m_map k x = Some (Some p)"
  shows "kern_inv trs n m' k'"
proof -
  have "unat (exists (heap k' p)) = refs m' p" for p
    using e r kern_invD(3,4) [OF inv, of p] by (cases "p = next_obj k") auto
  moreover have fresh: "refs m (next_obj k) = 0" using kern_invD(4) [OF inv] by simp
  have "registered m' k'" unfolding registered_def
  proof (intro allI)
    fix t key p
    show "m_map k' (t, key) = Some (Some p) \<longleftrightarrow> 0 < refs m' p \<and> otype (heap k' p) = t \<and> okey (heap k' p) = key \<and> key \<noteq> 0"
      using mp [rule_format, of "(t, key)" p] kern_invD(5) [OF inv, of t key p] o fresh r [of p]
      by (cases "p = next_obj k") (simp_all add: same_objects_def)
  qed
  ultimately show ?thesis
    using kern_invD(2,4) [OF inv] wf o r by (auto simp: kern_inv_def same_objects_def)
qed

lemma kern_new_ref:
  assumes inv: "kern_inv trs n m k" and wf: "idm_wf trs n m'" and r: "\<And>p. refs m' p = refs m p + (if p = q then 1 else 0)"
    and p: "create_provider t pshared key flags b k = (Some q, k')" and key: "key \<noteq> 0 \<longleftrightarrow> pshared = SYS_SYNC_PROCESS_SHARED"
  shows "kern_inv trs n m' k'"
proof -
  have o: "same_objects k k'" using provider_Some [OF p] by blast
  have fresh: "refs m (next_obj k) = 0" using kern_invD(4) [OF inv] by simp
  have small: "refs m' x < 4294967296" for x using refs_le [of m' x] idm_wfD(4) [OF wf] kern_invD(2) [OF inv] by simp
  have reg: "m_map k (t, key) = Some (Some q) \<Longrightarrow> 0 < refs m q \<and> q \<noteq> next_obj k"
    using kern_invD(5) [OF inv, of t key q] fresh by (metis less_numeral_extra(3))
  consider (new) "q = next_obj k" "exists (heap k' q) = 1" "otype (heap k' q) = t" "okey (heap k' q) = key"
      "\<forall>x. x \<noteq> q \<longrightarrow> exists (heap k' x) = exists (heap k x)"
      "\<forall>x y. m_map k' x = Some (Some y) \<longleftrightarrow> m_map k x = Some (Some y) \<or> pshared = SYS_SYNC_PROCESS_SHARED \<and> x = (t, key) \<and> y = q"
    | (old) "0 < refs m q" "q \<noteq> next_obj k" "exists (heap k' (next_obj k)) = 0"
      "\<forall>x. x \<noteq> next_obj k \<longrightarrow> exists (heap k' x) = exists (heap k x) + (if x = q then 1 else 0)"
      "\<forall>x y. m_map k' x = Some (Some y) \<longleftrightarrow> m_map k x = Some (Some y)"
    using provider_Some [OF p] reg by argo
  then have "(\<forall>x. unat (exists (heap k' x)) = refs m' x) \<and> registered m' k'"
  proof cases
    case new
    have "unat (exists (heap k' x)) = refs m' x" for x
      using new(1,2,5) r [of x] fresh kern_invD(3) [OF inv, of x] by (cases "x = q") simp_all
    moreover have "registered m' k'" unfolding registered_def
    proof (intro allI)
      fix u y x
      show "m_map k' (u, y) = Some (Some x) \<longleftrightarrow> 0 < refs m' x \<and> otype (heap k' x) = u \<and> okey (heap k' x) = y \<and> y \<noteq> 0"
        using new(1,3,4) new(6) [rule_format, of "(u, y)" x] r [of x] o fresh key kern_invD(5) [OF inv, of u y x]
        by (cases "x = q") (auto simp: same_objects_def)
    qed
    ultimately show ?thesis by simp
  next
    case old
    have "unat (exists (heap k' x)) = refs m' x" for x
    proof (cases "x = q")
      case True
      then show ?thesis using old(2,4) r [of q] small [of q] unat_refs [OF kern_invD(3) [OF inv, of q]] by simp
    next
      case False
      then show ?thesis using old(3,4) r [of x] fresh kern_invD(3) [OF inv, of x] by (cases "x = next_obj k") simp_all
    qed
    moreover have "registered m' k'" unfolding registered_def
    proof (intro allI)
      fix u y x
      show "m_map k' (u, y) = Some (Some x) \<longleftrightarrow> 0 < refs m' x \<and> otype (heap k' x) = u \<and> okey (heap k' x) = y \<and> y \<noteq> 0"
        using old(1,2) old(5) [rule_format, of "(u, y)" x] r [of x] o fresh kern_invD(5) [OF inv, of u y x]
        by (cases "x = next_obj k") (auto simp: same_objects_def)
    qed
    ultimately show ?thesis by simp
  qed
  moreover have "q \<le> next_obj k"
    using provider_Some [OF p] kern_invD(5) [OF inv, of t key q] kern_invD(4) [OF inv, of q] by (metis linorder_le_cases not_gr0 order_refl)
  ultimately show ?thesis
    using kern_invD(2,4) [OF inv] wf o r by (auto simp: kern_inv_def same_objects_def)
qed

lemma kern_create:
  assumes inv: "kern_inv trs n m k" and tr: "tr \<in> trs"
    and c: "lv2_create tr pshared (get_key pshared key) flags True b (m, g, k) = Some (e, m', g', k')"
  shows "kern_inv trs n m' k'"
proof (cases "e = CELL_EINVAL \<and> m' = m \<and> k' = k")
  case False
  define k0 where "k0 = k\<lparr>err := CELL_EAGAIN\<rparr>"
  define pv where "pv = create_provider (id_type tr) pshared (get_key pshared key) flags b"
  have inv0: "kern_inv trs n m k0" using inv by (simp add: kern_inv_def registered_def k0_def)
  note wf = kern_invD(1) [OF inv]
  have key: "get_key pshared key \<noteq> 0 \<longleftrightarrow> pshared = SYS_SYNC_PROCESS_SHARED"
    using c False by (auto simp: lv2_create_def get_key_def split: if_splits)
  obtain r where i: "create_id tr pv (invalid tr) (m, g, k0) = Some (r, m', g', k')"
    using c False by (auto simp: lv2_create_def import_id_def k0_def pv_def split: if_splits option.splits prod.splits)
  have wf': "idm_wf trs n m'"
    using create_None(1) [OF wf tr] create_Some(1) [OF wf tr] i by (cases r) auto
  from i show ?thesis
  proof (cases rule: create_cases)
    case (full keys h)
    then have "refs m' p = refs m p" for p by (simp add: refs_def)
    then show ?thesis using inv0 wf' full(4) by (simp add: kern_inv_def registered_def)
  next
    case (slot j keys h)
    note a = allocate_Slot [OF wf tr slot(1)]
    show ?thesis
    proof (cases r)
      case None
      then have "refs m' p = refs m p" for p using slot(3) by (simp add: refs_def)
      then show ?thesis
        using kern_same_refs [OF inv0 wf'] provider_None [OF slot(2) [unfolded pv_def None]] by blast
    next
      case (Some q)
      have "vec_data m ! j = None" using a idm_wfD(7) [OF wf, of j] by simp
      then have "refs m' p = refs m p + (if p = q then 1 else 0)" for p
        using count_list_update [of j "vec_data m" "Some q" "Some p"] a idm_wfD(4) [OF wf] slot(3) Some
        by (simp add: refs_def split: if_splits)
      then show ?thesis using kern_new_ref [OF inv0 wf' _ slot(2) [unfolded pv_def Some] key] by blast
    qed
  qed
qed (use inv in simp)

lemma unat_dec: "unat (e :: u32) = r + 1 \<Longrightarrow> unat (e - 1) = r \<and> (e = 1 \<longleftrightarrow> r = 0)"
proof -
  assume e: "unat e = r + 1"
  have "unat e < 4294967296" using unsigned_less [of e] by simp
  then have "r < 4294967296" using e by linarith
  then have "unat (of_nat r :: u32) = r" by (simp add: unat_of_nat)
  moreover have "e = of_nat (r + 1)" using arg_cong [OF e, of "of_nat :: nat \<Rightarrow> u32"] by simp
  then have "e - 1 = of_nat r" by simp
  ultimately show ?thesis using e by (simp add: word_unat_eq_iff)
qed

lemma kern_destroy:
  assumes inv: "kern_inv trs n m k" and tr: "tr \<in> trs" and d: "lv2_destroy tr busy i (m, k) = (e, m', k')"
  shows "kern_inv trs n m' k'"
proof (cases "m' = m \<and> k' = k")
  case False
  note wf = kern_invD(1) [OF inv]
  obtain j p where f: "find_id tr m i = Some (j, p)" and m': "m' = erase m j"
    and k': "k' = on_id_destroy p (okey (heap k p)) (okey (heap k p) \<noteq> 0) k"
    using d False by (auto simp: lv2_destroy_def remove_cases(2) [OF wf tr] Let_def split: option.splits prod.splits if_splits)
  have j: "j < n" "vec_data m ! j = Some p" using f [unfolded find_id_iff [OF wf tr]] by simp_all
  have r: "refs m x = refs m' x + (if x = p then 1 else 0)" for x
    using count_list_update [of j "vec_data m" None "Some x"] j idm_wfD(4) [OF wf]
    by (auto simp: refs_def m' erase_def split: if_splits)
  define old where "old = exists (heap k p)"
  have old: "unat old = refs m' p + 1" using kern_invD(3) [OF inv, of p] r [of p] by (simp add: old_def)
  have old1: "unat (old - 1) = refs m' p" "old = 1 \<longleftrightarrow> refs m' p = 0" using unat_dec [OF old] by simp_all
  have h: "heap k' = (heap k)(p := (heap k p)\<lparr>exists := old - 1\<rparr>)" "next_obj k' = next_obj k"
    by (simp_all add: k' on_id_destroy_def Let_def ipc_remove_def old_def)
  have mp: "m_map k' = (if old = 1 \<and> okey (heap k p) \<noteq> 0 then (m_map k)((otype (heap k p), okey (heap k p)) := None) else m_map k)"
    by (simp add: k' on_id_destroy_def Let_def ipc_remove_def old_def)
  have "registered m' k'" unfolding registered_def
  proof (intro allI)
    fix t key x
    show "m_map k' (t, key) = Some (Some x) \<longleftrightarrow> 0 < refs m' x \<and> otype (heap k' x) = t \<and> okey (heap k' x) = key \<and> key \<noteq> 0"
      using kern_invD(5) [OF inv, of t key x] kern_invD(5) [OF inv, of t key p] r [of x] r [of p] old1(2)
      by (cases "x = p") (auto simp: h mp)
  qed
  moreover have "unat (exists (heap k' x)) = refs m' x" for x
    using kern_invD(3) [OF inv, of x] r [of x] old1(1) by (cases "x = p") (simp_all add: h)
  moreover have "next_obj k' \<le> x \<Longrightarrow> refs m' x = 0" for x using kern_invD(4) [OF inv, of x] r [of x] h by simp
  ultimately show ?thesis using kern_invD(2) [OF inv] erase_wf [OF wf] by (simp add: kern_inv_def m')
qed (use inv in simp)

section \<open>Every sequence of creations and destructions\<close>

inductive kern_step :: "id_traits set \<Rightarrow> ptr id_map \<times> 'b kern \<Rightarrow> ptr id_map \<times> 'b kern \<Rightarrow> bool" for trs where
  create: "tr \<in> trs \<Longrightarrow> lv2_create tr pshared (get_key pshared key) flags True b (m, g, k) = Some (e, m', g', k')
    \<Longrightarrow> kern_step trs (m, k) (m', k')"
| destroy: "tr \<in> trs \<Longrightarrow> lv2_destroy tr busy i (m, k) = (e, m', k') \<Longrightarrow> kern_step trs (m, k) (m', k')"

definition kern_init :: "id_traits set \<Rightarrow> nat \<Rightarrow> ptr id_map \<times> 'b kern \<Rightarrow> bool" where
  "kern_init trs n = (\<lambda>(m, k). traits_set_ok trs n \<and> n < 4294967296 \<and> m = new_id_map n
     \<and> (\<forall>p. exists (heap k p) = 0) \<and> m_map k = (\<lambda>_. None))"

interpretation kern: invariant_system "kern_init trs n" "kern_step trs" "\<lambda>(m, k). kern_inv trs n m k" for trs n
proof unfold_locales
  show "case s of (m, k) \<Rightarrow> kern_inv trs n m k" if "kern_init trs n s" for s :: "ptr id_map \<times> 'b kern"
  proof -
    have "count_list (replicate n None) (Some (p :: ptr)) = 0" for p by (induction n) simp_all
    then have "refs (new_id_map n) p = 0" for p by (simp add: refs_def new_id_map_def)
    then show ?thesis using that new_lookup(1) [of trs n] by (auto simp: kern_init_def kern_inv_def registered_def)
  qed
  show "case s' of (m, k) \<Rightarrow> kern_inv trs n m k" if "case s of (m, k) \<Rightarrow> kern_inv trs n m k" "kern_step trs s s'"
    for s s' :: "ptr id_map \<times> 'b kern"
    using that(2,1) by cases (auto intro: kern_create kern_destroy)
qed

lemma lookup_refs:
  assumes "idm_wf trs n m" "tr \<in> trs" "lookup tr m x = Some p"
  shows "0 < refs m p"
proof -
  have "Some p \<in> set (vec_data m)" using assms(3) idm_wfD(4) [OF assms(1)] unfolding lookup_iff [OF assms(1,2)] by (metis nth_mem)
  then show ?thesis unfolding refs_def by (simp add: count_list_0_iff neq0_conv [symmetric] del: neq0_conv)
qed

text \<open>
  C23: after any sequence of creations and destructions of kernel objects, two ids of objects with the same type and
  the same non-zero key refer to one object, which is the one registered under that key, and an object counts the
  ids that refer to it.
\<close>

theorem ipc_one_object_per_key:
  assumes "kern_init trs n s" "(kern_step trs)\<^sup>*\<^sup>* s (m, k)" "tr \<in> trs" "tr' \<in> trs"
    and "lookup tr m x = Some p" "lookup tr' m y = Some q"
    and "otype (heap k p) = otype (heap k q)" "okey (heap k p) = okey (heap k q)" "okey (heap k p) \<noteq> 0"
  shows "p = q \<and> ipc_get (otype (heap k p), okey (heap k p)) k = Some p \<and> unat (exists (heap k p)) = refs m p"
proof -
  have inv: "kern_inv trs n m k" using kern.reachable_inv [OF assms(1,2)] by simp
  note live = lookup_refs [OF kern_invD(1) [OF inv]]
  have "m_map k (otype (heap k p), okey (heap k p)) = Some (Some p)"
    "m_map k (otype (heap k p), okey (heap k p)) = Some (Some q)"
    using live [OF assms(3,5)] live [OF assms(4,6)] assms(7-9) by (simp_all add: kern_invD(5) [OF inv])
  then show ?thesis using kern_invD(3) [OF inv, of p] by (simp add: ipc_get_def)
qed

text \<open>Two creations under the key 5 give two ids of one object.\<close>

definition empty_kern :: "unit kern" where
  "empty_kern = \<lparr>heap = \<lambda>_. \<lparr>exists = 0, otype = 0, okey = 0, body = ()\<rparr>, next_obj = 0, m_map = \<lambda>_. None, err = 0\<rparr>"

definition shared_map :: "ptr id_map" where
  "shared_map = \<lparr>vec_data = (replicate 8192 None)[0 := Some 0, 1 := Some 0],
     vec_keys = (replicate 8192 empty_key)[0 := \<lparr>kvalue = 0x96000000, ktype = 0x96000000\<rparr>,
       1 := \<lparr>kvalue = 0x96000100, ktype = 0x96000000\<rparr>], highest_index = 2\<rparr>"

abbreviation create_shared :: "ptr id_map \<times> u32 \<times> unit kern \<Rightarrow> (error_code \<times> ptr id_map \<times> u32 \<times> unit kern) option" where
  "create_shared \<equiv> lv2_create (lv2_traits 0x96000000) SYS_SYNC_PROCESS_SHARED (get_key SYS_SYNC_PROCESS_SHARED 5)
     SYS_SYNC_NOT_CARE True ()"

definition shared_kern1 :: "unit kern" where
  "shared_kern1 = \<lparr>heap = (heap empty_kern)(0 := \<lparr>exists = 1, otype = 0x96000000, okey = 5, body = ()\<rparr>), next_obj = 1,
     m_map = (\<lambda>_. None)((0x96000000, 5) \<mapsto> Some 0), err = 0\<rparr>"

definition shared_kern :: "unit kern" where
  "shared_kern = \<lparr>heap = (heap shared_kern1)(1 := \<lparr>exists = 0, otype = 0x96000000, okey = 5, body = ()\<rparr>,
       0 := \<lparr>exists = 2, otype = 0x96000000, okey = 5, body = ()\<rparr>), next_obj = 2,
     m_map = (\<lambda>_. None)((0x96000000, 5) \<mapsto> Some 0), err = 0\<rparr>"

lemmas shared_simps = lv2_create_def get_key_def import_id_def create_id_def allocate_id_def create_provider_def make_shared_def
  finalize_eq ipc_add_def Let_def invalid_def lv2_traits_def SYS_SYNC_PROCESS_SHARED_def SYS_SYNC_NOT_PROCESS_SHARED_def
  SYS_SYNC_NEWLY_CREATED_def SYS_SYNC_NOT_CREATE_def SYS_SYNC_NOT_CARE_def

lemma shared_step1:
  "create_shared (new_id_map 8192, 0, empty_kern) = Some (CELL_OK,
     \<lparr>vec_data = (replicate 8192 None)[0 := Some 0],
      vec_keys = (replicate 8192 empty_key)[0 := \<lparr>kvalue = 0x96000000, ktype = 0x96000000\<rparr>], highest_index = 1\<rparr>, 0x96000000, shared_kern1)"
  by (simp add: shared_simps new_id_map_def empty_kern_def shared_kern1_def)

lemma shared_step2:
  "create_shared (\<lparr>vec_data = (replicate 8192 None)[0 := Some 0],
      vec_keys = (replicate 8192 empty_key)[0 := \<lparr>kvalue = 0x96000000, ktype = 0x96000000\<rparr>], highest_index = 1\<rparr>, 0x96000000, shared_kern1)
   = Some (CELL_OK, shared_map, 0x96000100, shared_kern)"
  by (simp add: shared_simps shared_map_def shared_kern_def shared_kern1_def empty_kern_def)

lemma shared_run: "(kern_step sample_traits)\<^sup>*\<^sup>* (new_id_map 8192, empty_kern) (shared_map, shared_kern)"
  using kern_step.create [OF _ shared_step1, of sample_traits] kern_step.create [OF _ shared_step2, of sample_traits]
  by (meson insertI1 rtranclp.rtrancl_into_rtrancl rtranclp.rtrancl_refl)

lemma shared_lookup: "lookup (lv2_traits 0x96000000) shared_map 0x96000000 = Some 0"
  "lookup (lv2_traits 0x96000000) shared_map 0x96000100 = Some 0"
  by (simp_all add: lookup_def find_id_def find_index_def trait_index_def get_index_def invl_mask_def lv2_traits_def shared_map_def
        push_bit_eq_mult word_le_nat_alt Let_def)

theorem ipc_one_object_per_key_witness:
  "(0 :: ptr) = 0 \<and> ipc_get (otype (heap shared_kern 0), okey (heap shared_kern 0)) shared_kern = Some 0
   \<and> unat (exists (heap shared_kern 0)) = refs shared_map 0"
proof (rule ipc_one_object_per_key [OF _ shared_run _ _ shared_lookup])
  show "kern_init sample_traits 8192 (new_id_map 8192, empty_kern)"
    using sample_traits_ok by (simp add: kern_init_def empty_kern_def)
qed (simp_all add: shared_kern_def)

end
