(* ===== verification/Lv2_Event_Queue.thy ===== *)
theory Lv2_Event_Queue
  imports Lv2_Obj Lv2_Queue
begin

text \<open>
  The event queue of PPU threads (\<^verbatim>\<open>rpcs3/Emu/Cell/lv2/sys_event.cpp\<close>). All calls hold the internal mutex of the queue, so that each is one
  step; a thread that finds no event sleeps until an event is sent, its time is over, or the queue is destroyed.
\<close>

section \<open>State\<close>

definition CELL_ENOTCONN :: error_code where
  "CELL_ENOTCONN = 0x80010016"

definition EQ_ETIMEDOUT :: error_code where
  "EQ_ETIMEDOUT = 0x8001000B"

definition EQ_ECANCELED :: error_code where
  "EQ_ECANCELED = 0x80010013"

definition SYS_EVENT_QUEUE_DESTROY_FORCE :: u32 where
  "SYS_EVENT_QUEUE_DESTROY_FORCE = 1"

text \<open>Source and three words of data.\<close>

type_synonym lv2_event = "u64 \<times> u64 \<times> u64 \<times> u64"

datatype eq_pc = Idle | Asleep | Stopped | Woken

text \<open>
  \<open>gpr3\<close> is the result of a thread's call and \<open>gpr\<close> its registers 4 to 7. Not in the code are \<open>sent\<close>, the events that were accepted, and
  \<open>taken\<close>, the events that left the queue, with the thread that got them.
\<close>

record eq_state =
  protocol :: u32
  qsize :: u8
  alive :: bool
  events :: "lv2_event list"
  pq :: "tid option"
  thr :: threads
  order_tag :: u64
  pc :: "tid \<Rightarrow> eq_pc"
  gpr3 :: "tid \<Rightarrow> error_code"
  gpr :: "tid \<Rightarrow> lv2_event"
  sent :: "lv2_event list"
  taken :: "(tid option \<times> lv2_event) list"

section \<open>Steps of the system calls\<close>

definition eq_send :: "lv2_event \<Rightarrow> eq_state \<Rightarrow> (error_code \<times> eq_state) option" where
  "eq_send ev s =
     (if \<not> alive s then Some (CELL_ENOTCONN, s)
      else if pq s = None then
        (if length (events s) < unat (qsize s) then Some (CELL_OK, s\<lparr>events := events s @ [ev], sent := sent s @ [ev]\<rparr>)
         else Some (CELL_EBUSY, s))
      else (case schedule (protocol s) True (pq s, thr s) of
          Some (Some t, first, h) \<Rightarrow>
            if again (h t) then Some (CELL_EAGAIN, s\<lparr>pq := first, thr := h\<rparr>)
            else Some (CELL_OK, s\<lparr>pq := first, thr := h, gpr := (gpr s)(t := ev), pc := (pc s)(t := Woken),
              sent := sent s @ [ev], taken := taken s @ [(Some t, ev)]\<rparr>)
        | _ \<Rightarrow> None))"

definition eq_receive :: "tid \<Rightarrow> eq_state \<Rightarrow> eq_state" where
  "eq_receive t s = (case events s of
       [] \<Rightarrow> (case emplace t (pq s, thr s, order_tag s) of
           (first, h, tag) \<Rightarrow> s\<lparr>pq := first, thr := h, order_tag := tag, pc := (pc s)(t := Asleep), gpr3 := (gpr3 s)(t := CELL_OK)\<rparr>)
     | ev # evs \<Rightarrow> s\<lparr>events := evs, gpr3 := (gpr3 s)(t := CELL_OK), gpr := (gpr s)(t := ev), taken := taken s @ [(Some t, ev)]\<rparr>)"

definition eq_stopped :: "tid \<Rightarrow> eq_state \<Rightarrow> eq_state" where
  "eq_stopped t s = s\<lparr>pc := (pc s)(t := Stopped), thr := (thr s)(t := (thr s t)\<lparr>again := True\<rparr>)\<rparr>"

definition eq_timeout :: "tid \<Rightarrow> eq_state \<Rightarrow> eq_state option" where
  "eq_timeout t s =
     (if pq s = None then Some (s\<lparr>pc := (pc s)(t := Idle)\<rparr>)
      else (case unqueue True t (pq s, thr s) of
          None \<Rightarrow> None
        | Some (None, first, h) \<Rightarrow> Some (s\<lparr>pc := (pc s)(t := Idle)\<rparr>)
        | Some (Some u, first, h) \<Rightarrow>
            Some (s\<lparr>pq := first, thr := h, pc := (pc s)(t := Idle), gpr3 := (gpr3 s)(t := EQ_ETIMEDOUT)\<rparr>)))"

fun tryreceive_loop :: "int \<Rightarrow> int \<Rightarrow> lv2_event list \<Rightarrow> lv2_event list \<Rightarrow> lv2_event list \<times> lv2_event list" where
  "tryreceive_loop n count dest [] = (dest, [])"
| "tryreceive_loop n count dest (ev # evs) =
     (if count < n then tryreceive_loop n (count + 1) (dest @ [ev]) evs else (dest, ev # evs))"

definition eq_tryreceive :: "tid \<Rightarrow> u32 \<Rightarrow> eq_state \<Rightarrow> (error_code \<times> lv2_event list) \<times> eq_state" where
  "eq_tryreceive t n s =
     (if \<not> alive s then ((CELL_ESRCH, []), s)
      else (case tryreceive_loop (sint n) 0 [] (events s) of
          (dest, evs) \<Rightarrow> ((CELL_OK, dest), s\<lparr>events := evs, taken := taken s @ map (\<lambda>ev. (Some t, ev)) dest\<rparr>)))"

definition eq_drain :: "eq_state \<Rightarrow> eq_state" where
  "eq_drain s = s\<lparr>events := [], taken := taken s @ map (\<lambda>ev. (None, ev)) (events s)\<rparr>"

partial_function (option) eq_waiters :: "threads \<Rightarrow> tid option \<Rightarrow> tid list \<Rightarrow> tid list option" where
  [code]: "eq_waiters h cpu ws = (case cpu of None \<Rightarrow> Some ws | Some t \<Rightarrow> eq_waiters h (next_cpu (h t)) (ws @ [t]))"

text \<open>A result \<open>None\<close> is a call to be repeated. The queue has one id, so that it does not exist any more when the id is given up.\<close>

definition eq_destroy :: "u32 \<Rightarrow> eq_state \<Rightarrow> (error_code option \<times> eq_state) option" where
  "eq_destroy mode s =
     (if mode \<noteq> 0 \<and> mode \<noteq> SYS_EVENT_QUEUE_DESTROY_FORCE then Some (Some CELL_EINVAL, s)
      else if mode = 0 \<and> pq s \<noteq> None then Some (Some CELL_EBUSY, s)
      else (case any_again (thr s) (pq s) of
          None \<Rightarrow> None
        | Some True \<Rightarrow> Some (None, s)
        | Some False \<Rightarrow> (case eq_waiters (thr s) (pq s) [] of
              None \<Rightarrow> None
            | Some ws \<Rightarrow> Some (Some CELL_OK, s\<lparr>alive := False, pq := None,
                pc := (\<lambda>t. if t \<in> set ws then Woken else pc s t), gpr3 := (\<lambda>t. if t \<in> set ws then EQ_ECANCELED else gpr3 s t)\<rparr>))))"

inductive eq_step :: "eq_state \<Rightarrow> eq_state \<Rightarrow> bool" where
  send: "eq_send ev s = Some (r, s') \<Longrightarrow> eq_step s s'"
| receive: "alive s \<Longrightarrow> pc s t = Idle \<Longrightarrow> eq_step s (eq_receive t s)"
| stopped: "pc s t = Asleep \<Longrightarrow> eq_step s (eq_stopped t s)"
| timeout: "pc s t = Asleep \<or> pc s t = Woken \<Longrightarrow> eq_timeout t s = Some s' \<Longrightarrow> eq_step s s'"
| woken: "pc s t = Woken \<Longrightarrow> eq_step s (s\<lparr>pc := (pc s)(t := Idle)\<rparr>)"
| tryreceive: "pc s t = Idle \<Longrightarrow> eq_step s (snd (eq_tryreceive t n s))"
| drain: "alive s \<Longrightarrow> eq_step s (eq_drain s)"
| destroy: "alive s \<Longrightarrow> eq_destroy mode s = Some (r, s') \<Longrightarrow> eq_step s s'"

section \<open>Invariant\<close>

definition eq_queued :: "eq_pc \<Rightarrow> bool" where
  "eq_queued p \<longleftrightarrow> p = Asleep \<or> p = Stopped"

text \<open>The last event that thread \<open>t\<close> got.\<close>

definition got_last :: "tid \<Rightarrow> lv2_event \<Rightarrow> (tid option \<times> lv2_event) list \<Rightarrow> bool" where
  "got_last t ev tk \<longleftrightarrow> (\<exists>as bs. tk = as @ (Some t, ev) # bs \<and> Some t \<notin> fst ` set bs)"

lemma got_last_append: "got_last t ev tk \<Longrightarrow> Some t \<notin> fst ` set us \<Longrightarrow> got_last t ev (tk @ us)"
proof -
  assume "got_last t ev tk" and u: "Some t \<notin> fst ` set us"
  then obtain as bs where "tk = as @ (Some t, ev) # bs" "Some t \<notin> fst ` set bs" unfolding got_last_def by blast
  then show ?thesis unfolding got_last_def using u by (intro exI [of _ as] exI [of _ "bs @ us"]) (simp add: image_Un)
qed

lemma got_last_snoc: "got_last t ev (tk @ [(Some t, ev)])"
  unfolding got_last_def by (intro exI [of _ tk] exI [of _ "[]"]) simp

definition eq_inv :: "eq_state \<Rightarrow> tid list \<Rightarrow> bool" where
  "eq_inv s xs \<longleftrightarrow> chain (thr s) (pq s) xs
     \<and> (\<forall>t. eq_queued (pc s t) \<longleftrightarrow> t \<in> set xs)
     \<and> (xs \<noteq> [] \<longrightarrow> events s = [])
     \<and> length (events s) \<le> unat (qsize s)
     \<and> sent s = map snd (taken s) @ events s
     \<and> (\<forall>t. pc s t = Woken \<longrightarrow> gpr3 s t = CELL_OK \<longrightarrow> got_last t (gpr s t) (taken s))"

lemma eq_invD:
  assumes "eq_inv s xs"
  shows "chain (thr s) (pq s) xs" "eq_queued (pc s t) \<longleftrightarrow> t \<in> set xs" "xs \<noteq> [] \<Longrightarrow> events s = []"
    "length (events s) \<le> unat (qsize s)" "sent s = map snd (taken s) @ events s"
    "pc s t = Woken \<Longrightarrow> gpr3 s t = CELL_OK \<Longrightarrow> got_last t (gpr s t) (taken s)"
  using assms unfolding eq_inv_def by blast+

lemma eq_none: "eq_inv s xs \<Longrightarrow> pq s = None \<longleftrightarrow> xs = []"
  using eq_invD(1) [of s xs] by (cases xs) auto

lemma eq_send_inv:
  assumes inv: "eq_inv s xs" and e: "eq_send ev s = Some (r, s')"
  shows "\<exists>ys. eq_inv s' ys"
proof (cases "alive s \<and> xs \<noteq> []")
  case False
  then consider "s' = s" | "xs = []" "length (events s) < unat (qsize s)" "s' = s\<lparr>events := events s @ [ev], sent := sent s @ [ev]\<rparr>"
  proof (cases "alive s")
    case True
    then have x: "xs = []" "pq s = None" using False eq_none [OF inv] by simp_all
    show ?thesis
    proof (cases "length (events s) < unat (qsize s)")
      case room: True
      have "s' = s\<lparr>events := events s @ [ev], sent := sent s @ [ev]\<rparr>" using e True x(2) room by (simp add: eq_send_def)
      then show ?thesis by (rule that(2) [OF x(1) room])
    next
      case full: False
      have "s' = s" using e True x(2) full by (simp add: eq_send_def)
      then show ?thesis by (rule that(1))
    qed
  next
    case dead: False
    have "s' = s" using e dead by (simp add: eq_send_def)
    then show ?thesis by (rule that(1))
  qed
  then show ?thesis
  proof cases
    case 2
    then have "eq_inv s' xs" using eq_invD [OF inv] unfolding eq_inv_def by simp
    then show ?thesis by blast
  qed (use inv in blast)
next
  case True
  then have q: "alive s" "pq s \<noteq> None" "xs \<noteq> []" using eq_none [OF inv] by auto
  show ?thesis
  proof (rule schedule_frame [OF eq_invD(1) [OF inv] q(3), where prot = "protocol s"])
    fix t assume "again (thr s t)" "schedule (protocol s) True (pq s, thr s) = Some (Some t, pq s, thr s)"
    then have "s' = s" using e q by (simp add: eq_send_def)
    then show ?thesis using inv by blast
  next
    fix t first h
    assume t: "t \<in> set xs" "\<not> again (thr s t)" and s: "schedule (protocol s) True (pq s, thr s) = Some (Some t, first, h)"
      and c: "chain h first (remove1 t xs)" and a: "\<And>u. again (h u) = again (thr s u)"
    have s': "s' = s\<lparr>pq := first, thr := h, gpr := (gpr s)(t := ev), pc := (pc s)(t := Woken),
        sent := sent s @ [ev], taken := taken s @ [(Some t, ev)]\<rparr>" using e q t(2) by (simp add: eq_send_def s a)
    have d: "distinct xs" using chain_distinct [OF eq_invD(1) [OF inv]] .
    have "got_last u (gpr s' u) (taken s')" if "pc s' u = Woken" "gpr3 s' u = CELL_OK" for u
    proof (cases "u = t")
      case True
      then show ?thesis using got_last_snoc [of t ev "taken s"] by (simp add: s')
    next
      case False
      then show ?thesis using that eq_invD(6) [OF inv, of u] got_last_append [of u "gpr s u" "taken s" "[(Some t, ev)]"] by (simp add: s')
    qed
    moreover have "eq_queued (pc s' u) \<longleftrightarrow> u \<in> set (remove1 t xs)" for u
      using eq_invD(2) [OF inv, of u] d by (auto simp: s' eq_queued_def)
    ultimately have "eq_inv s' (remove1 t xs)" using c eq_invD(3-5) [OF inv] q(3) unfolding eq_inv_def by (simp add: s')
    then show ?thesis by blast
  qed
qed

lemma eq_receive_inv:
  assumes inv: "eq_inv s xs" and t: "pc s t = Idle"
  shows "\<exists>ys. eq_inv (eq_receive t s) ys"
proof (cases "events s")
  case Nil
  obtain first h tag where e: "emplace t (pq s, thr s, order_tag s) = (first, h, tag)" by (cases "emplace t (pq s, thr s, order_tag s)") auto
  have n: "t \<notin> set xs" using eq_invD(2) [OF inv, of t] t by (simp add: eq_queued_def)
  let ?s = "s\<lparr>pq := first, thr := h, order_tag := tag, pc := (pc s)(t := Asleep), gpr3 := (gpr3 s)(t := CELL_OK)\<rparr>"
  have "eq_queued (pc ?s u) \<longleftrightarrow> u \<in> set (t # xs)" for u using eq_invD(2) [OF inv, of u] by (simp add: eq_queued_def)
  moreover have "pc ?s u = Woken \<Longrightarrow> gpr3 ?s u = CELL_OK \<Longrightarrow> got_last u (gpr ?s u) (taken ?s)" for u
    using eq_invD(6) [OF inv, of u] by (cases "u = t") simp_all
  ultimately have "eq_inv ?s (t # xs)"
    using emplace_chain(1) [OF eq_invD(1) [OF inv] n e] eq_invD(5) [OF inv] Nil unfolding eq_inv_def by simp
  moreover have "eq_receive t s = ?s" using Nil e by (simp add: eq_receive_def)
  ultimately show ?thesis by (intro exI [of _ "t # xs"]) (simp only:)
next
  case (Cons ev evs)
  let ?s = "s\<lparr>events := evs, gpr3 := (gpr3 s)(t := CELL_OK), gpr := (gpr s)(t := ev), taken := taken s @ [(Some t, ev)]\<rparr>"
  have "pc ?s u = Woken \<Longrightarrow> gpr3 ?s u = CELL_OK \<Longrightarrow> got_last u (gpr ?s u) (taken ?s)" for u
    using eq_invD(6) [OF inv, of u] got_last_append [of u "gpr s u" "taken s" "[(Some t, ev)]"] t by (cases "u = t") simp_all
  moreover have "xs = []" using eq_invD(3) [OF inv] Cons by (cases xs) simp_all
  ultimately have "eq_inv ?s xs" using eq_invD(1,2,4,5) [OF inv] Cons unfolding eq_inv_def by simp
  moreover have "eq_receive t s = ?s" using Cons by (simp add: eq_receive_def)
  ultimately show ?thesis by (intro exI [of _ xs]) (simp only:)
qed

text \<open>A thread leaves the queue, or returns.\<close>

lemma eq_leave_inv:
  assumes inv: "eq_inv s xs" and c: "chain h first ys" and ys: "\<And>u. u \<in> set ys \<longleftrightarrow> u \<in> set xs \<and> u \<noteq> t"
  shows "eq_inv (s\<lparr>pq := first, thr := h, pc := (pc s)(t := Idle), gpr3 := (gpr3 s)(t := r)\<rparr>) ys"
proof -
  let ?s = "s\<lparr>pq := first, thr := h, pc := (pc s)(t := Idle), gpr3 := (gpr3 s)(t := r)\<rparr>"
  have "eq_queued (pc ?s u) \<longleftrightarrow> u \<in> set ys" for u using eq_invD(2) [OF inv, of u] ys [of u] by (simp add: eq_queued_def)
  moreover have "pc ?s u = Woken \<Longrightarrow> gpr3 ?s u = CELL_OK \<Longrightarrow> got_last u (gpr ?s u) (taken ?s)" for u
    using eq_invD(6) [OF inv, of u] by (cases "u = t") simp_all
  moreover have "xs \<noteq> []" if "ys \<noteq> []" using ys [of "hd ys"] that by (cases xs) simp_all
  ultimately show ?thesis using c eq_invD(3-5) [OF inv] unfolding eq_inv_def by simp
qed

lemma eq_idle_inv:
  assumes "eq_inv s xs" "t \<notin> set xs"
  shows "eq_inv (s\<lparr>pc := (pc s)(t := Idle)\<rparr>) xs"
proof -
  have "s\<lparr>pc := (pc s)(t := Idle)\<rparr> = s\<lparr>pq := pq s, thr := thr s, pc := (pc s)(t := Idle), gpr3 := (gpr3 s)(t := gpr3 s t)\<rparr>"
    by (intro eq_state.equality) simp_all
  moreover have "u \<in> set xs \<longleftrightarrow> u \<in> set xs \<and> u \<noteq> t" for u using assms(2) by (cases "u = t") simp_all
  ultimately show ?thesis using eq_leave_inv [OF assms(1) eq_invD(1) [OF assms(1)], of t "gpr3 s t"] by simp
qed

lemma eq_timeout_inv:
  assumes inv: "eq_inv s xs" and e: "eq_timeout t s = Some s'"
  shows "\<exists>ys. eq_inv s' ys"
proof (cases "t \<in> set xs")
  case True
  then have p: "pq s \<noteq> None" using eq_none [OF inv] by auto
  obtain first h where u: "unqueue True t (pq s, thr s) = Some (Some t, first, h)" "chain h first (remove1 t xs)"
    using unqueue_frame [OF eq_invD(1) [OF inv] True] by blast
  have "distinct xs" using chain_distinct [OF eq_invD(1) [OF inv]] .
  then have "eq_inv (s\<lparr>pq := first, thr := h, pc := (pc s)(t := Idle), gpr3 := (gpr3 s)(t := EQ_ETIMEDOUT)\<rparr>) (remove1 t xs)"
    using eq_leave_inv [OF inv u(2), of t EQ_ETIMEDOUT] by simp
  then show ?thesis using e p u(1) by (auto simp: eq_timeout_def)
next
  case False
  then have "s' = s\<lparr>pc := (pc s)(t := Idle)\<rparr>" using e unqueue_absent [OF eq_invD(1) [OF inv] False, of True] by (simp add: eq_timeout_def split: if_splits)
  then show ?thesis using eq_idle_inv [OF inv False] by blast
qed

lemma eq_stopped_inv:
  assumes inv: "eq_inv s xs" and t: "pc s t = Asleep"
  shows "eq_inv (eq_stopped t s) xs"
proof -
  let ?s = "eq_stopped t s"
  have c: "chain (thr ?s) (pq ?s) xs" using eq_invD(1) [OF inv] by (simp add: eq_stopped_def) (subst chain_cong [of _ _ "thr s"], auto)
  have "eq_queued (pc ?s u) \<longleftrightarrow> u \<in> set xs" for u using eq_invD(2) [OF inv, of u] t by (auto simp: eq_stopped_def eq_queued_def)
  moreover have "pc ?s u = Woken \<Longrightarrow> gpr3 ?s u = CELL_OK \<Longrightarrow> got_last u (gpr ?s u) (taken ?s)" for u
    using eq_invD(6) [OF inv, of u] by (cases "u = t") (simp_all add: eq_stopped_def)
  ultimately show ?thesis using c eq_invD(3-5) [OF inv] unfolding eq_inv_def by (simp add: eq_stopped_def)
qed

text \<open>Events leave the queue from the front.\<close>

lemma eq_take_inv:
  assumes inv: "eq_inv s xs" and l: "events s = map snd us @ evs" and t: "\<And>u. pc s u = Woken \<Longrightarrow> Some u \<notin> fst ` set us"
  shows "eq_inv (s\<lparr>events := evs, taken := taken s @ us\<rparr>) xs"
proof -
  let ?s = "s\<lparr>events := evs, taken := taken s @ us\<rparr>"
  have "pc ?s u = Woken \<Longrightarrow> gpr3 ?s u = CELL_OK \<Longrightarrow> got_last u (gpr ?s u) (taken ?s)" for u
    using eq_invD(6) [OF inv, of u] got_last_append [of u "gpr s u" "taken s" us] t by simp
  then show ?thesis using eq_invD(1-5) [OF inv] l unfolding eq_inv_def by simp
qed

lemma tryreceive_split: "tryreceive_loop n k dest evs = (dest', evs') \<Longrightarrow> dest @ evs = dest' @ evs'"
  by (induction n k dest evs rule: tryreceive_loop.induct) (auto split: if_splits)

lemma eq_tryreceive_inv:
  assumes inv: "eq_inv s xs" and t: "pc s t = Idle"
  shows "eq_inv (snd (eq_tryreceive t n s)) xs"
proof -
  obtain dest evs where l: "tryreceive_loop (sint n) 0 [] (events s) = (dest, evs)" by fastforce
  have m: "map snd (map (\<lambda>ev. (Some t, ev)) dest) = dest" by (simp add: comp_def)
  have "events s = map snd (map (\<lambda>ev. (Some t, ev)) dest) @ evs" unfolding m using tryreceive_split [OF l] by simp
  then have "eq_inv (s\<lparr>events := evs, taken := taken s @ map (\<lambda>ev. (Some t, ev)) dest\<rparr>) xs"
    by (rule eq_take_inv [OF inv]) (use t in auto)
  then show ?thesis using inv by (simp add: eq_tryreceive_def l)
qed

lemma eq_drain_inv: "eq_inv s xs \<Longrightarrow> eq_inv (eq_drain s) xs"
  unfolding eq_drain_def by (erule eq_take_inv) (auto simp: comp_def)

lemma eq_waiters_chain: "chain h p xs \<Longrightarrow> eq_waiters h p ws = Some (ws @ xs)"
proof (induction xs arbitrary: p ws)
  case (Cons t xs)
  then show ?case by (subst eq_waiters.simps) auto
qed (subst eq_waiters.simps, simp)

lemma eq_destroy_inv:
  assumes inv: "eq_inv s xs" and e: "eq_destroy mode s = Some (r, s')"
  shows "\<exists>ys. eq_inv s' ys"
proof -
  let ?s = "s\<lparr>alive := False, pq := None, pc := (\<lambda>t. if t \<in> set xs then Woken else pc s t),
      gpr3 := (\<lambda>t. if t \<in> set xs then EQ_ECANCELED else gpr3 s t)\<rparr>"
  have "eq_queued (pc ?s u) \<longleftrightarrow> u \<in> set []" for u
    using eq_invD(2) [OF inv, of u] by (cases "u \<in> set xs") (simp_all add: eq_queued_def)
  moreover have "pc ?s u = Woken \<Longrightarrow> gpr3 ?s u = CELL_OK \<Longrightarrow> got_last u (gpr ?s u) (taken ?s)" for u
    using eq_invD(6) [OF inv, of u] by (cases "u \<in> set xs") (simp_all add: EQ_ECANCELED_def CELL_OK_def)
  ultimately have "eq_inv ?s []" using eq_invD(4,5) [OF inv] unfolding eq_inv_def by simp
  moreover have "s' = s \<or> s' = ?s"
    using e any_again_chain [OF eq_invD(1) [OF inv]] eq_waiters_chain [OF eq_invD(1) [OF inv], of "[]"]
    by (simp add: eq_destroy_def split: if_splits bool.splits)
  ultimately show ?thesis using inv by blast
qed

lemma eq_step_inv:
  assumes "eq_step s s'" and inv: "eq_inv s xs"
  shows "\<exists>ys. eq_inv s' ys"
  using assms(1)
proof cases
  case (send ev r)
  then show ?thesis using eq_send_inv [OF inv] by blast
next
  case (receive t)
  then show ?thesis using eq_receive_inv [OF inv] by blast
next
  case (stopped t)
  then show ?thesis using eq_stopped_inv [OF inv] by blast
next
  case (timeout t)
  then show ?thesis using eq_timeout_inv [OF inv] by blast
next
  case (woken t)
  then have "t \<notin> set xs" using eq_invD(2) [OF inv, of t] by (simp add: eq_queued_def)
  then show ?thesis using eq_idle_inv [OF inv] woken by blast
next
  case (tryreceive t n)
  then show ?thesis using eq_tryreceive_inv [OF inv] by blast
next
  case drain
  then show ?thesis using eq_drain_inv [OF inv] by blast
next
  case (destroy mode r)
  then show ?thesis using eq_destroy_inv [OF inv] by blast
qed

section \<open>Reachable states\<close>

definition new_event_queue :: "u32 \<Rightarrow> u8 \<Rightarrow> threads \<Rightarrow> u64 \<Rightarrow> eq_state" where
  "new_event_queue prot n h tag = \<lparr>protocol = prot, qsize = n, alive = True, events = [], pq = None, thr = h, order_tag = tag, pc = \<lambda>_. Idle,
     gpr3 = \<lambda>_. CELL_OK, gpr = \<lambda>_. (0, 0, 0, 0), sent = [], taken = []\<rparr>"

definition eq_init :: "eq_state \<Rightarrow> bool" where
  "eq_init s \<longleftrightarrow> (\<exists>prot n h tag. s = new_event_queue prot n h tag)"

interpretation evq: invariant_system eq_init eq_step "\<lambda>s. \<exists>xs. eq_inv s xs"
proof unfold_locales
  show "\<exists>xs. eq_inv s xs" if "eq_init s" for s
    using that by (intro exI [of _ "[]"]) (auto simp: eq_inv_def eq_init_def new_event_queue_def eq_queued_def)
  show "\<exists>xs. eq_inv s' xs" if "\<exists>xs. eq_inv s xs" "eq_step s s'" for s s'
    using that(1) eq_step_inv [OF that(2)] by blast
qed

definition eq_reachable :: "eq_state \<Rightarrow> bool" where
  "eq_reachable s \<longleftrightarrow> (\<exists>s0. eq_init s0 \<and> eq_step\<^sup>*\<^sup>* s0 s)"

text \<open>
  C20: in every sequence of calls on an event queue no event is lost, doubled or overtaken: the accepted events are those taken, in
  this order, followed by those in the queue, which are never more than its size; a thread sleeps only while there are none; and a thread
  that is woken with success has in its registers the event it was given last.
\<close>

theorem event_queue_fifo:
  assumes "eq_reachable s"
  shows "sent s = map snd (taken s) @ events s \<and> length (events s) \<le> unat (qsize s) \<and> (pc s t = Asleep \<longrightarrow> events s = [])
    \<and> (pc s u = Woken \<longrightarrow> gpr3 s u = CELL_OK \<longrightarrow> got_last u (gpr s u) (taken s))"
proof -
  obtain xs where inv: "eq_inv s xs" using assms evq.reachable_inv unfolding eq_reachable_def by blast
  have "events s = []" if "pc s t = Asleep"
    using eq_invD(2) [OF inv, of t] eq_invD(3) [OF inv] that by (cases xs) (simp_all add: eq_queued_def)
  then show ?thesis using eq_invD(4-6) [OF inv] by blast
qed

text \<open>Thread 2 waits, and gets an event.\<close>

definition eq_waiting :: eq_state where
  "eq_waiting = eq_receive 2 (new_event_queue SYS_SYNC_FIFO 4 sample_threads 7)"

definition eq_delivered :: eq_state where
  "eq_delivered = snd (the (eq_send (5, 6, 7, 8) eq_waiting))"

lemma eq_delivered_send: "eq_send (5, 6, 7, 8) eq_waiting = Some (CELL_OK, eq_delivered)"
  and eq_delivered_state: "pc eq_delivered 2 = Woken" "gpr3 eq_delivered 2 = CELL_OK" "gpr eq_delivered 2 = (5, 6, 7, 8)"
  by (simp_all add: eq_delivered_def eq_waiting_def eq_receive_def new_event_queue_def eq_send_def emplace_def schedule_def sample_threads_def
      fifo_loop.simps set_next_def set_link_def Let_def)

theorem event_queue_fifo_witness:
  "sent eq_delivered = map snd (taken eq_delivered) @ events eq_delivered \<and> got_last 2 (5, 6, 7, 8) (taken eq_delivered)"
proof -
  let ?s0 = "new_event_queue SYS_SYNC_FIFO 4 sample_threads 7"
  have "eq_step ?s0 eq_waiting" unfolding eq_waiting_def by (rule eq_step.receive) (simp_all add: new_event_queue_def)
  moreover have "eq_step eq_waiting eq_delivered" by (rule eq_step.send [OF eq_delivered_send])
  moreover have "eq_init ?s0" unfolding eq_init_def by blast
  ultimately have "eq_reachable eq_delivered" unfolding eq_reachable_def by (meson converse_rtranclp_into_rtranclp rtranclp.rtrancl_refl)
  from event_queue_fifo [OF this, where u = 2] show ?thesis by (simp add: eq_delivered_state)
qed

end
