(* ===== verification/Lv2_Mutex.thy ===== *)
theory Lv2_Mutex
  imports Lv2_Obj Lv2_Queue
begin

text \<open>
  The kernel mutex (\<^verbatim>\<open>rpcs3/Emu/Cell/lv2/sys_mutex.h\<close>, \<^verbatim>\<open>sys_mutex.cpp\<close>). The owner and the head of the waiting queue are one atomic
  word: threads take a free mutex and enter the queue by compare-and-swap on it, without the internal mutex, and a thread that unlocks hands the
  mutex over to a waiting one. Every access to this word is a step of its own.
\<close>

section \<open>State\<close>

definition SYS_SYNC_RECURSIVE :: u32 where
  "SYS_SYNC_RECURSIVE = 0x10"

definition SYS_SYNC_NOT_RECURSIVE :: u32 where
  "SYS_SYNC_NOT_RECURSIVE = 0x20"

definition CELL_EDEADLK :: error_code where
  "CELL_EDEADLK = 0x80010008"

definition CELL_EPERM :: error_code where
  "CELL_EPERM = 0x80010009"

definition CELL_EKRESOURCE :: error_code where
  "CELL_EKRESOURCE = 0x80010011"

definition MX_ETIMEDOUT :: error_code where
  "MX_ETIMEDOUT = 0x8001000B"

text \<open>\<open>Lock_cas q blocking\<close>: the mutex was free and its queue was \<open>q\<close> when it was read, in a call that waits or not.\<close>

datatype mx_pc = Idle | Lock_cas "tid option" bool | Lock_busy | Asleep | Stopped | Woken | Unlock_cas | Unlock_slow

text \<open>
  The owner 0 of the code is \<open>None\<close>; thread ids are unique and not zero. \<open>ret\<close> is what the last call of a thread returned,
  and \<open>held\<close>, which is not in the code, counts how often a thread has locked the mutex and not unlocked it.
\<close>

record mx_state =
  protocol :: u32
  recursive :: u32
  owner :: "tid option"
  sq :: "tid option"
  thr :: threads
  order_tag :: u64
  lock_count :: u32
  pc :: "tid \<Rightarrow> mx_pc"
  ret :: "tid \<Rightarrow> error_code"
  held :: "tid \<Rightarrow> nat"

abbreviation mx_goto :: "tid \<Rightarrow> mx_pc \<Rightarrow> mx_state \<Rightarrow> mx_state" where
  "mx_goto t p s \<equiv> s\<lparr>pc := (pc s)(t := p)\<rparr>"

definition mx_return :: "tid \<Rightarrow> error_code \<Rightarrow> mx_state \<Rightarrow> mx_state" where
  "mx_return t e s = s\<lparr>pc := (pc s)(t := Idle), ret := (ret s)(t := e)\<rparr>"

definition mx_own :: "tid \<Rightarrow> mx_state \<Rightarrow> mx_state" where
  "mx_own t s = s\<lparr>owner := Some t, held := (held s)(t := held s t + 1)\<rparr>"

section \<open>Steps of the system calls\<close>

text \<open>\<^verbatim>\<open>lv2_mutex::try_lock\<close> and what its callers do when the mutex is busy.\<close>

definition try_lock_busy :: "tid \<Rightarrow> bool \<Rightarrow> mx_state \<Rightarrow> mx_state" where
  "try_lock_busy t blocking s = (if blocking then mx_goto t Lock_busy s else mx_return t CELL_EBUSY s)"

definition try_lock_read :: "tid \<Rightarrow> bool \<Rightarrow> mx_state \<Rightarrow> mx_state" where
  "try_lock_read t blocking s = (case owner s of
       None \<Rightarrow> mx_goto t (Lock_cas (sq s) blocking) s
     | Some u \<Rightarrow>
         if u = t then
           (if recursive s = SYS_SYNC_RECURSIVE then
              (if lock_count s = 0xffffffff then mx_return t CELL_EKRESOURCE s
               else mx_return t CELL_OK (s\<lparr>lock_count := lock_count s + 1, held := (held s)(t := held s t + 1)\<rparr>))
            else mx_return t CELL_EDEADLK s)
         else try_lock_busy t blocking s)"

definition try_lock_cas :: "tid \<Rightarrow> tid option \<Rightarrow> bool \<Rightarrow> mx_state \<Rightarrow> mx_state" where
  "try_lock_cas t q blocking s =
     (if owner s = None \<and> sq s = q then mx_return t CELL_OK (mx_own t s) else try_lock_busy t blocking s)"

definition try_own :: "tid \<Rightarrow> mx_state \<Rightarrow> mx_state" where
  "try_own t s = (case owner s of
       Some u \<Rightarrow> (mx_goto t Asleep s)\<lparr>sq := Some t, order_tag := order_tag s + 1,
         thr := (thr s)(t := (thr s t)\<lparr>next_cpu := sq s, tprio := (tprio (thr s t))\<lparr>order := ucast (order_tag s + 1)\<rparr>\<rparr>)\<rparr>
     | None \<Rightarrow> mx_return t CELL_OK ((mx_own t s)\<lparr>thr := set_next t None (thr s)\<rparr>))"

definition mx_timeout :: "tid \<Rightarrow> mx_state \<Rightarrow> mx_state" where
  "mx_timeout t s = (case unqueue False t (sq s, thr s) of
       Some (Some u, first, h) \<Rightarrow> mx_return t MX_ETIMEDOUT (s\<lparr>sq := first, thr := set_next t None h\<rparr>)
     | Some (None, first, h) \<Rightarrow> mx_return t CELL_OK s
     | None \<Rightarrow> s)"

definition mx_stopped :: "tid \<Rightarrow> mx_state \<Rightarrow> mx_state" where
  "mx_stopped t s = (mx_goto t Stopped s)\<lparr>thr := (thr s)(t := (thr s t)\<lparr>again := True\<rparr>)\<rparr>"

definition try_unlock_read :: "tid \<Rightarrow> mx_state \<Rightarrow> mx_state" where
  "try_unlock_read t s =
     (if owner s \<noteq> Some t then mx_return t CELL_EPERM s
      else if lock_count s \<noteq> 0 then mx_return t CELL_OK (s\<lparr>lock_count := lock_count s - 1, held := (held s)(t := held s t - 1)\<rparr>)
      else if sq s = None then mx_goto t Unlock_cas s
      else mx_goto t Unlock_slow s)"

definition try_unlock_cas :: "tid \<Rightarrow> mx_state \<Rightarrow> mx_state" where
  "try_unlock_cas t s =
     (if owner s = Some t \<and> sq s = None then mx_return t CELL_OK (s\<lparr>owner := None, held := (held s)(t := held s t - 1)\<rparr>)
      else mx_goto t Unlock_slow s)"

text \<open>
  \<^verbatim>\<open>lv2_mutex::reown\<close>, on the queue and the owner. A thread that was stopped is returned but neither taken out nor made the owner. Threads that enter the
  queue meanwhile change its head only, so that the call either fails and starts again, or acts on the part of the queue it has seen.
\<close>

definition reown :: "u32 \<Rightarrow> tid option \<times> threads \<times> tid option \<Rightarrow> (tid option \<times> tid option \<times> threads \<times> tid option) option" where
  "reown prot = (\<lambda>(first, h, own).
     if first = None then Some (None, first, h, None)
     else (case schedule prot False (first, h) of
         None \<Rightarrow> None
       | Some (None, first', h') \<Rightarrow> None
       | Some (Some res, first', h') \<Rightarrow>
           let own' = (if first' = first \<and> again (h' res) then own else Some res);
               h'' = (if again (h' res) then h' else set_next res None h')
           in Some (Some res, first', h'', own')))"

definition unlock_slow :: "tid \<Rightarrow> mx_state \<Rightarrow> mx_state" where
  "unlock_slow t s = (case reown (protocol s) (sq s, thr s, owner s) of
       None \<Rightarrow> s
     | Some (None, first, h, own) \<Rightarrow>
         mx_return t CELL_OK (s\<lparr>sq := first, thr := h, owner := own, held := (held s)(t := held s t - 1)\<rparr>)
     | Some (Some u, first, h, own) \<Rightarrow>
         if again (h u) then mx_goto t Idle (s\<lparr>sq := first, thr := h, owner := own\<rparr>)
         else mx_goto u Woken (mx_return t CELL_OK (s\<lparr>sq := first, thr := h, owner := own,
           held := (held s)(t := held s t - 1, u := held s u + 1)\<rparr>)))"

inductive mx_step :: "mx_state \<Rightarrow> mx_state \<Rightarrow> bool" where
  lock_read: "pc s t = Idle \<or> pc s t = Lock_busy \<Longrightarrow> mx_step s (try_lock_read t True s)"
| trylock_read: "pc s t = Idle \<Longrightarrow> mx_step s (try_lock_read t False s)"
| lock_cas: "pc s t = Lock_cas q b \<Longrightarrow> mx_step s (try_lock_cas t q b s)"
| lock_own: "pc s t = Lock_busy \<Longrightarrow> mx_step s (try_own t s)"
| lock_timeout: "pc s t = Asleep \<or> pc s t = Woken \<Longrightarrow> mx_step s (mx_timeout t s)"
| lock_stopped: "pc s t = Asleep \<Longrightarrow> mx_step s (mx_stopped t s)"
| lock_woken: "pc s t = Woken \<Longrightarrow> mx_step s (mx_return t CELL_OK s)"
| unlock_read: "pc s t = Idle \<Longrightarrow> mx_step s (try_unlock_read t s)"
| unlock_cas: "pc s t = Unlock_cas \<Longrightarrow> mx_step s (try_unlock_cas t s)"
| unlock_reown: "pc s t = Unlock_slow \<Longrightarrow> mx_step s (unlock_slow t s)"

section \<open>Invariant\<close>

definition mx_queued :: "mx_pc \<Rightarrow> bool" where
  "mx_queued p \<longleftrightarrow> p = Asleep \<or> p = Stopped"

text \<open>A thread that unlocks, or was just given the mutex, owns it once; one that is about to lock or waits does not.\<close>

fun mx_pc_ok :: "mx_state \<Rightarrow> tid \<Rightarrow> mx_pc \<Rightarrow> bool" where
  "mx_pc_ok s t Idle \<longleftrightarrow> True"
| "mx_pc_ok s t Woken \<longleftrightarrow> owner s = Some t"
| "mx_pc_ok s t Unlock_cas \<longleftrightarrow> owner s = Some t \<and> lock_count s = 0"
| "mx_pc_ok s t Unlock_slow \<longleftrightarrow> owner s = Some t \<and> lock_count s = 0"
| "mx_pc_ok s t p \<longleftrightarrow> owner s \<noteq> Some t"

definition mx_inv :: "mx_state \<Rightarrow> tid list \<Rightarrow> bool" where
  "mx_inv s xs \<longleftrightarrow> chain (thr s) (sq s) xs
     \<and> (\<forall>t. mx_queued (pc s t) \<longleftrightarrow> t \<in> set xs)
     \<and> (\<forall>t. mx_pc_ok s t (pc s t))
     \<and> (\<forall>t. held s t = (if owner s = Some t then unat (lock_count s) + 1 else 0))
     \<and> (owner s = None \<longrightarrow> xs = [] \<and> lock_count s = 0)
     \<and> (recursive s \<noteq> SYS_SYNC_RECURSIVE \<longrightarrow> lock_count s = 0)"

lemma mx_invD:
  assumes "mx_inv s xs"
  shows "chain (thr s) (sq s) xs" "mx_queued (pc s t) \<longleftrightarrow> t \<in> set xs" "mx_pc_ok s t (pc s t)"
    "held s t = (if owner s = Some t then unat (lock_count s) + 1 else 0)"
    "owner s = None \<Longrightarrow> xs = [] \<and> lock_count s = 0" "recursive s \<noteq> SYS_SYNC_RECURSIVE \<Longrightarrow> lock_count s = 0"
  using assms unfolding mx_inv_def by blast+

lemma mx_ok_other:
  "mx_pc_ok s u p \<Longrightarrow> owner s = Some u \<longleftrightarrow> owner s' = Some u \<Longrightarrow> owner s = Some u \<Longrightarrow> lock_count s' = lock_count s \<Longrightarrow> mx_pc_ok s' u p"
  "mx_pc_ok s u p \<Longrightarrow> owner s \<noteq> Some u \<Longrightarrow> owner s' \<noteq> Some u \<Longrightarrow> mx_pc_ok s' u p"
  by (cases p; simp)+

text \<open>A step of a thread outside the queue that leaves the queue alone.\<close>

lemma mx_update:
  assumes inv: "mx_inv s xs" and q: "\<not> mx_queued (pc s t)" "\<not> mx_queued p"
    and same: "chain (thr s') (sq s') xs" "recursive s' = recursive s" "pc s' = (pc s)(t := p)"
    and own: "\<And>u. u \<noteq> t \<Longrightarrow> owner s' = Some u \<longleftrightarrow> owner s = Some u" "owner s \<noteq> Some t \<Longrightarrow> owner s \<noteq> None \<Longrightarrow> lock_count s' = lock_count s"
    and t: "mx_pc_ok s' t p" "held s' t = (if owner s' = Some t then unat (lock_count s') + 1 else 0)" "\<And>u. u \<noteq> t \<Longrightarrow> held s' u = held s u"
    and fin: "owner s' = None \<Longrightarrow> xs = [] \<and> lock_count s' = 0" "recursive s \<noteq> SYS_SYNC_RECURSIVE \<Longrightarrow> lock_count s' = 0"
  shows "mx_inv s' xs"
  unfolding mx_inv_def
proof (intro conjI allI impI)
  show "mx_queued (pc s' u) \<longleftrightarrow> u \<in> set xs" for u
    using mx_invD(2) [OF inv, of u] mx_invD(2) [OF inv, of t] q same(3) by (cases "u = t") auto
  show "mx_pc_ok s' u (pc s' u)" for u
  proof (cases "u = t")
    case False
    have ok: "mx_pc_ok s u (pc s u)" by (rule mx_invD(3) [OF inv])
    show ?thesis
    proof (cases "owner s = Some u")
      case True
      then show ?thesis using mx_ok_other(1) [OF ok] own(1) [OF False] own(2) False same(3) by simp
    next
      case n: False
      then show ?thesis using mx_ok_other(2) [OF ok n] own(1) [OF False] False same(3) by simp
    qed
  qed (use t(1) same(3) in simp)
  show "held s' u = (if owner s' = Some u then unat (lock_count s') + 1 else 0)" for u
  proof (cases "u = t")
    case False
    then show ?thesis using t(3) [OF False] mx_invD(4) [OF inv, of u] own(1) [OF False] own(2) by auto
  qed (use t(2) in simp)
qed (use same fin in simp_all)

lemmas mx_defs = mx_return_def mx_own_def mx_queued_def

lemma mx_move:
  assumes "mx_inv s xs" "\<not> mx_queued (pc s t)" "\<not> mx_queued p" "mx_pc_ok s t p"
    "chain h (sq s) xs"
  shows "mx_inv (s\<lparr>thr := h, pc := (pc s)(t := p), ret := r\<rparr>) xs"
proof (rule mx_update [OF assms(1-3)])
  show "mx_pc_ok (s\<lparr>thr := h, pc := (pc s)(t := p), ret := r\<rparr>) t p" using assms(4) by (cases p) simp_all
qed (use assms(5) mx_invD(4-6) [OF assms(1)] in simp_all)

lemma mx_goto_inv: "mx_inv s xs \<Longrightarrow> \<not> mx_queued (pc s t) \<Longrightarrow> \<not> mx_queued p \<Longrightarrow> mx_pc_ok s t p \<Longrightarrow> mx_inv (mx_goto t p s) xs"
  using mx_move [of s xs t p "thr s" "ret s"] mx_invD(1) [of s xs] by simp

lemma mx_return_inv: "mx_inv s xs \<Longrightarrow> \<not> mx_queued (pc s t) \<Longrightarrow> mx_inv (mx_return t e s) xs"
  using mx_move [of s xs t Idle "thr s" "(ret s)(t := e)"] mx_invD(1) [of s xs] by (simp add: mx_defs)

lemma mx_busy_inv: "mx_inv s xs \<Longrightarrow> \<not> mx_queued (pc s t) \<Longrightarrow> owner s \<noteq> Some t \<Longrightarrow> mx_inv (try_lock_busy t b s) xs"
  by (simp add: try_lock_busy_def mx_goto_inv mx_return_inv mx_queued_def)

lemma unat_succ: "c \<noteq> 0xffffffff \<Longrightarrow> unat (c + 1) = unat c + 1" for c :: u32
proof -
  assume c: "c \<noteq> 0xffffffff"
  have "1 + c \<noteq> 0"
  proof
    assume "1 + c = 0"
    then have "c = - 1" by (simp add: eq_neg_iff_add_eq_0 add.commute)
    then show False using c by simp
  qed
  then show ?thesis using unatSuc [of c] by (simp add: add.commute)
qed

lemma mx_lock_read_inv:
  assumes inv: "mx_inv s xs" and t: "pc s t = Idle \<or> pc s t = Lock_busy"
  shows "mx_inv (try_lock_read t b s) xs"
proof -
  have q: "\<not> mx_queued (pc s t)" using t by (auto simp: mx_queued_def)
  consider "owner s = None" | u where "owner s = Some u" "u \<noteq> t" | "owner s = Some t" by (cases "owner s") auto
  then show ?thesis
  proof cases
    case 1
    then show ?thesis using mx_goto_inv [OF inv q] by (simp add: try_lock_read_def mx_queued_def)
  next
    case 2
    then show ?thesis using mx_busy_inv [OF inv q] by (simp add: try_lock_read_def)
  next
    case 3
    show ?thesis
    proof (cases "recursive s = SYS_SYNC_RECURSIVE \<and> lock_count s \<noteq> 0xffffffff")
      case True
      let ?s = "mx_return t CELL_OK (s\<lparr>lock_count := lock_count s + 1, held := (held s)(t := held s t + 1)\<rparr>)"
      have "mx_inv ?s xs"
      proof (rule mx_update [OF inv q, where p = Idle])
        show "held ?s t = (if owner ?s = Some t then unat (lock_count ?s) + 1 else 0)"
          using 3 mx_invD(4) [OF inv, of t] unat_succ [of "lock_count s"] True by (simp add: mx_defs)
      qed (use 3 True mx_invD(1) [OF inv] in \<open>auto simp: mx_defs\<close>)
      then show ?thesis using 3 True by (simp add: try_lock_read_def)
    next
      case False
      then show ?thesis using 3 mx_return_inv [OF inv q] by (auto simp: try_lock_read_def)
    qed
  qed
qed

lemma mx_own_inv:
  assumes inv: "mx_inv s xs" and q: "\<not> mx_queued (pc s t)" and o: "owner s = None" and c: "chain h (sq s) xs"
  shows "mx_inv (mx_return t e ((mx_own t s)\<lparr>thr := h\<rparr>)) xs"
  by (rule mx_update [OF inv q, where p = Idle]) (use o c mx_invD(4-6) [OF inv] in \<open>auto simp: mx_defs\<close>)

lemma mx_lock_cas_inv:
  assumes inv: "mx_inv s xs" and t: "pc s t = Lock_cas q b"
  shows "mx_inv (try_lock_cas t q b s) xs"
proof -
  have n: "\<not> mx_queued (pc s t)" "owner s \<noteq> Some t" using t mx_invD(3) [OF inv, of t] by (auto simp: mx_queued_def)
  have "mx_inv (mx_return t CELL_OK (mx_own t s)) xs" if "owner s = None"
    using mx_own_inv [OF inv n(1) that mx_invD(1) [OF inv], of CELL_OK] by (simp add: mx_own_def)
  then show ?thesis using mx_busy_inv [OF inv n] by (simp add: try_lock_cas_def)
qed

lemma mx_try_own_inv:
  assumes inv: "mx_inv s xs" and t: "pc s t = Lock_busy"
  shows "\<exists>ys. mx_inv (try_own t s) ys"
proof -
  have n: "\<not> mx_queued (pc s t)" "owner s \<noteq> Some t" "t \<notin> set xs"
    using t mx_invD(2,3) [OF inv, of t] by (auto simp: mx_queued_def)
  show ?thesis
  proof (cases "owner s")
    case None
    have "chain (set_next t None (thr s)) (sq s) xs" using mx_invD(1) [OF inv] n(3) by (subst chain_cong [of _ _ "thr s"]) auto
    then show ?thesis using mx_own_inv [OF inv n(1) None, of _ CELL_OK] None by (auto simp: try_own_def)
  next
    case (Some u)
    let ?s = "try_own t s"
    have c: "chain (thr ?s) (next_cpu (thr ?s t)) xs" using mx_invD(1) [OF inv] n(3) Some
      by (simp add: try_own_def) (subst chain_cong [of _ _ "thr s"], auto)
    have "mx_inv ?s (t # xs)"
      unfolding mx_inv_def
    proof (intro conjI allI impI)
      show "chain (thr ?s) (sq ?s) (t # xs)" using c Some by (simp add: try_own_def)
      show "mx_queued (pc ?s v) \<longleftrightarrow> v \<in> set (t # xs)" for v
        using mx_invD(2) [OF inv, of v] Some by (auto simp: try_own_def mx_queued_def)
      show "mx_pc_ok ?s v (pc ?s v)" for v
        using mx_invD(3) [OF inv, of v] Some n(2) by (cases "pc s v") (auto simp: try_own_def)
      show "held ?s v = (if owner ?s = Some v then unat (lock_count ?s) + 1 else 0)" for v
        using mx_invD(4) [OF inv, of v] Some by (simp add: try_own_def)
    qed (use mx_invD(6) [OF inv] Some in \<open>simp_all add: try_own_def\<close>)
    then show ?thesis by blast
  qed
qed

text \<open>Leaving the queue without the mutex.\<close>

lemma mx_timeout_inv:
  assumes inv: "mx_inv s xs" and t: "pc s t = Asleep \<or> pc s t = Woken"
  shows "\<exists>ys. mx_inv (mx_timeout t s) ys"
proof (cases "t \<in> set xs")
  case False
  then have "\<not> mx_queued (pc s t)" using mx_invD(2) [OF inv, of t] by simp
  then have "mx_inv (mx_return t CELL_OK s) xs" by (rule mx_return_inv [OF inv])
  then show ?thesis using unqueue_absent [OF mx_invD(1) [OF inv] False] by (auto simp: mx_timeout_def)
next
  case True
  obtain first h where u: "unqueue False t (sq s, thr s) = Some (Some t, first, h)" "chain h first (remove1 t xs)"
    using unqueue_chain [OF mx_invD(1) [OF inv] True] by blast
  have d: "set (remove1 t xs) = set xs - {t}" using chain_distinct [OF mx_invD(1) [OF inv]] by simp
  have c: "chain (set_next t None h) first (remove1 t xs)" using u(2) by (subst chain_cong [of _ _ h]) (auto simp: d)
  let ?s = "mx_timeout t s"
  have s: "?s = mx_return t MX_ETIMEDOUT (s\<lparr>sq := first, thr := set_next t None h\<rparr>)" using u(1) by (simp add: mx_timeout_def)
  have "mx_queued (pc s t)" using mx_invD(2) [OF inv, of t] True by simp
  then have a: "pc s t = Asleep" "owner s \<noteq> Some t" using t mx_invD(3) [OF inv, of t] by (auto simp: mx_queued_def)
  have "mx_inv ?s (remove1 t xs)"
    unfolding mx_inv_def
  proof (intro conjI allI impI)
    show "mx_queued (pc ?s v) \<longleftrightarrow> v \<in> set (remove1 t xs)" for v unfolding d using mx_invD(2) [OF inv, of v] by (auto simp: s mx_defs)
    show "mx_pc_ok ?s v (pc ?s v)" for v using mx_invD(3) [OF inv, of v] by (cases "pc s v") (auto simp: s mx_return_def)
    show "held ?s v = (if owner ?s = Some v then unat (lock_count ?s) + 1 else 0)" for v
      using mx_invD(4) [OF inv, of v] by (simp add: s mx_return_def)
  qed (use mx_invD(5,6) [OF inv] c True in \<open>auto simp: s mx_return_def\<close>)
  then show ?thesis by blast
qed

lemma mx_stopped_inv:
  assumes inv: "mx_inv s xs" and t: "pc s t = Asleep"
  shows "mx_inv (mx_stopped t s) xs"
proof -
  let ?s = "mx_stopped t s"
  have "chain (thr ?s) (sq ?s) xs" using mx_invD(1) [OF inv] by (subst chain_cong [of _ _ "thr s"]) (auto simp: mx_stopped_def)
  moreover have "mx_pc_ok ?s v (pc ?s v)" for v using mx_invD(3) [OF inv, of v] t by (cases "pc s v") (auto simp: mx_stopped_def)
  moreover have "mx_queued (pc ?s v) \<longleftrightarrow> v \<in> set xs" for v using mx_invD(2) [OF inv, of v] t by (auto simp: mx_stopped_def mx_queued_def)
  moreover have "owner ?s = owner s" "lock_count ?s = lock_count s" "held ?s = held s" "recursive ?s = recursive s"
    by (simp_all add: mx_stopped_def)
  ultimately show ?thesis unfolding mx_inv_def using mx_invD(4-6) [OF inv] by simp
qed

lemma mx_unlock_read_inv:
  assumes inv: "mx_inv s xs" and t: "pc s t = Idle"
  shows "mx_inv (try_unlock_read t s) xs"
proof -
  have q: "\<not> mx_queued (pc s t)" using t by (simp add: mx_queued_def)
  show ?thesis
  proof (cases "owner s = Some t \<and> lock_count s \<noteq> 0")
    case True
    then have "unat (lock_count s) = unat (lock_count s - 1) + 1" using unat_minus_one [of "lock_count s"] by (simp add: unat_gt_0)
    moreover have "recursive s = SYS_SYNC_RECURSIVE" using mx_invD(6) [OF inv] True by blast
    moreover have "mx_inv (mx_return t CELL_OK (s\<lparr>lock_count := lock_count s - 1, held := (held s)(t := held s t - 1)\<rparr>)) xs"
      by (rule mx_update [OF inv q, where p = Idle])
        (use True mx_invD(1) [OF inv] mx_invD(4) [OF inv, of t] calculation in \<open>auto simp: mx_defs\<close>)
    ultimately show ?thesis using True by (simp add: try_unlock_read_def)
  next
    case False
    then show ?thesis using mx_return_inv [OF inv q] mx_goto_inv [OF inv q] by (auto simp: try_unlock_read_def mx_queued_def)
  qed
qed

lemma mx_release_inv:
  assumes inv: "mx_inv s xs" and q: "\<not> mx_queued (pc s t)" and o: "owner s = Some t" "lock_count s = 0" and x: "sq s = None"
  shows "mx_inv (mx_return t e (s\<lparr>owner := None, held := (held s)(t := held s t - 1)\<rparr>)) xs"
proof -
  have "xs = []" using mx_invD(1) [OF inv] x by (cases xs) auto
  then show ?thesis
    by (intro mx_update [OF inv q, where p = Idle]) (use o mx_invD(1) [OF inv] mx_invD(4) [OF inv, of t] in \<open>auto simp: mx_defs\<close>)
qed

lemma mx_unlock_cas_inv:
  assumes inv: "mx_inv s xs" and t: "pc s t = Unlock_cas"
  shows "mx_inv (try_unlock_cas t s) xs"
proof -
  have q: "\<not> mx_queued (pc s t)" "owner s = Some t" "lock_count s = 0" using t mx_invD(3) [OF inv, of t] by (auto simp: mx_queued_def)
  show ?thesis using mx_release_inv [OF inv q, of CELL_OK] mx_goto_inv [OF inv q(1), of Unlock_slow] q(2,3)
    by (auto simp: try_unlock_cas_def mx_queued_def)
qed

lemma reown_chain:
  assumes c: "chain h first xs" "xs \<noteq> []"
  shows "\<exists>u\<in>set xs. if again (h u) then reown prot (first, h, own) = Some (Some u, first, h, own)
    else \<exists>first' h'. reown prot (first, h, own) = Some (Some u, first', h', Some u) \<and> chain h' first' (remove1 u xs) \<and> (\<forall>v. again (h' v) = again (h v))"
proof (rule schedule_position [OF c, where protocol = prot and modify_node = False])
  fix as u bs
  assume xs: "xs = as @ u # bs" and s: "schedule prot False (first, h) = Some (Some u, if again (h u) then (first, h)
       else (case set_link (link_of as) (next_cpu (h u)) (first, h) of
         (first, h) \<Rightarrow> (first, if False \<and> prot \<noteq> SYS_SYNC_FIFO then set_next u None h else h)))"
  obtain first' h' where l: "set_link (link_of as) (next_cpu (h u)) (first, h) = (first', h')" by fastforce
  have f: "first \<noteq> None" using c by (cases xs) auto
  have w: "chain (set_next u None h') first' (remove1 u xs)" "again (h' v) = again (h v)" for v
    using chain_without [OF c(1) [unfolded xs] l, of True] by (simp_all add: xs)
  have "reown prot (first, h, own) = Some (Some u, first', set_next u None h', Some u)" if "\<not> again (h u)"
    using s l f that w(2) by (simp add: reown_def Let_def)
  moreover have "reown prot (first, h, own) = Some (Some u, first, h, own)" if "again (h u)"
    using s f that by (simp add: reown_def Let_def)
  ultimately show ?thesis using w xs by (intro bexI [of _ u]) auto
qed

lemma unlock_slow_wakes:
  assumes inv: "mx_inv s xs" and t: "pc s t = Unlock_slow" and u: "u \<in> set xs"
    and r: "reown (protocol s) (sq s, thr s, owner s) = Some (Some u, first, h, Some u)" and a: "\<not> again (h u)"
  shows "unlock_slow t s = s\<lparr>sq := first, thr := h, owner := Some u, held := (held s)(t := 0, u := 1), ret := (ret s)(t := CELL_OK),
    pc := (pc s)(t := Idle, u := Woken)\<rparr>"
proof -
  have q: "owner s = Some t" "lock_count s = 0" "t \<notin> set xs"
    using t mx_invD(3) [OF inv, of t] mx_invD(2) [OF inv, of t] by (auto simp: mx_queued_def)
  then have "held s t = 1" "u \<noteq> t" "held s u = 0" using u mx_invD(4) [OF inv, of t] mx_invD(4) [OF inv, of u] by auto
  then show ?thesis using r a by (intro mx_state.equality) (simp_all add: unlock_slow_def mx_return_def)
qed

lemma mx_unlock_slow_inv:
  assumes inv: "mx_inv s xs" and t: "pc s t = Unlock_slow"
  shows "\<exists>ys. mx_inv (unlock_slow t s) ys"
proof (cases "xs = []")
  case True
  have q: "\<not> mx_queued (pc s t)" "owner s = Some t" "lock_count s = 0" using t mx_invD(3) [OF inv, of t] by (auto simp: mx_queued_def)
  have "sq s = None" using mx_invD(1) [OF inv] True by simp
  then have "unlock_slow t s = mx_return t CELL_OK (s\<lparr>owner := None, held := (held s)(t := held s t - 1)\<rparr>)"
    by (intro mx_state.equality) (simp_all add: unlock_slow_def reown_def mx_return_def)
  then show ?thesis using mx_release_inv [OF inv q \<open>sq s = None\<close>] by auto
next
  case False
  obtain u where u: "u \<in> set xs" and r: "if again (thr s u) then reown (protocol s) (sq s, thr s, owner s) = Some (Some u, sq s, thr s, owner s)
    else \<exists>first' h'. reown (protocol s) (sq s, thr s, owner s) = Some (Some u, first', h', Some u) \<and> chain h' first' (remove1 u xs)
      \<and> (\<forall>v. again (h' v) = again (thr s v))"
    using reown_chain [OF mx_invD(1) [OF inv] False, of "protocol s" "owner s"] by blast
  show ?thesis
  proof (cases "again (thr s u)")
    case True
    then have "unlock_slow t s = mx_goto t Idle s" using r by (simp add: unlock_slow_def)
    then show ?thesis using mx_goto_inv [OF inv, of t Idle] t by (auto simp: mx_queued_def)
  next
    case n: False
    then obtain first h where e: "reown (protocol s) (sq s, thr s, owner s) = Some (Some u, first, h, Some u)" "chain h first (remove1 u xs)"
      "\<forall>v. again (h v) = again (thr s v)" using r by auto
    let ?s = "unlock_slow t s"
    have s: "?s = s\<lparr>sq := first, thr := h, owner := Some u, held := (held s)(t := 0, u := 1), ret := (ret s)(t := CELL_OK),
        pc := (pc s)(t := Idle, u := Woken)\<rparr>"
      using unlock_slow_wakes [OF inv t u e(1)] e(3) n by simp
    have o: "owner s = Some t" "lock_count s = 0" using t mx_invD(3) [OF inv, of t] by simp_all
    have d: "set (remove1 u xs) = set xs - {u}" using chain_distinct [OF mx_invD(1) [OF inv]] by simp
    have tx: "t \<notin> set xs" using t mx_invD(2) [OF inv, of t] by (simp add: mx_queued_def)
    have "mx_inv ?s (remove1 u xs)"
      unfolding mx_inv_def
    proof (intro conjI allI impI)
      show "mx_queued (pc ?s v) \<longleftrightarrow> v \<in> set (remove1 u xs)" for v
        unfolding d using mx_invD(2) [OF inv, of v] u tx by (auto simp: s mx_queued_def)
      show "mx_pc_ok ?s v (pc ?s v)" for v
        unfolding s using mx_invD(3) [OF inv, of v] o by (cases "pc s v") auto
      show "held ?s v = (if owner ?s = Some v then unat (lock_count ?s) + 1 else 0)" for v
        unfolding s using mx_invD(4) [OF inv, of v] o by auto
    qed (use e(2) o in \<open>simp_all add: s\<close>)
    then show ?thesis by blast
  qed
qed

section \<open>Every interleaving\<close>

definition new_mutex :: "u32 \<Rightarrow> u32 \<Rightarrow> threads \<Rightarrow> u64 \<Rightarrow> mx_state" where
  "new_mutex prot rec h tag = \<lparr>protocol = prot, recursive = rec, owner = None, sq = None, thr = h, order_tag = tag, lock_count = 0,
     pc = \<lambda>_. Idle, ret = \<lambda>_. CELL_OK, held = \<lambda>_. 0\<rparr>"

definition mx_init :: "mx_state \<Rightarrow> bool" where
  "mx_init s \<longleftrightarrow> (\<exists>prot rec h tag. s = new_mutex prot rec h tag)"

lemma mx_step_inv:
  assumes "mx_step s s'" and inv: "mx_inv s xs"
  shows "\<exists>ys. mx_inv s' ys"
  using assms(1)
proof cases
  case (lock_own t)
  then show ?thesis using mx_try_own_inv [OF inv] by simp
next
  case (lock_timeout t)
  then show ?thesis using mx_timeout_inv [OF inv] by simp
next
  case (lock_woken t)
  then show ?thesis using mx_return_inv [OF inv, of t CELL_OK] by (auto simp: mx_queued_def)
next
  case (unlock_reown t)
  then show ?thesis using mx_unlock_slow_inv [OF inv] by simp
qed (use inv in \<open>auto intro: mx_lock_read_inv mx_lock_cas_inv mx_stopped_inv mx_unlock_read_inv mx_unlock_cas_inv\<close>)

interpretation mx: invariant_system mx_init mx_step "\<lambda>s. \<exists>xs. mx_inv s xs"
proof unfold_locales
  show "\<exists>xs. mx_inv s xs" if "mx_init s" for s
    using that by (intro exI [of _ "[]"]) (auto simp: mx_inv_def mx_init_def new_mutex_def mx_queued_def)
  show "\<exists>xs. mx_inv s' xs" if "\<exists>xs. mx_inv s xs" "mx_step s s'" for s s'
    using that(1) mx_step_inv [OF that(2)] by blast
qed

definition mx_reachable :: "mx_state \<Rightarrow> bool" where
  "mx_reachable s \<longleftrightarrow> (\<exists>s0. mx_init s0 \<and> mx_step\<^sup>*\<^sup>* s0 s)"

lemma reachable_mx_inv: "mx_reachable s \<Longrightarrow> \<exists>xs. mx_inv s xs"
  unfolding mx_reachable_def using mx.reachable_inv by blast

lemma mx_reachable_step: "mx_reachable s \<Longrightarrow> mx_step s s' \<Longrightarrow> mx_reachable s'"
  unfolding mx_reachable_def by (meson rtranclp.rtrancl_into_rtrancl)

section \<open>Properties\<close>

text \<open>
  C12: in every interleaving of locks, attempts, timeouts, stops and unlocks at most one thread holds the kernel mutex; a mutex that
  is not recursive is held at most once, and the count of a recursive one does not overflow.
\<close>

theorem lv2_mutex_exclusive:
  assumes "mx_reachable s" "0 < held s t"
  shows "owner s = Some t \<and> (0 < held s u \<longrightarrow> u = t) \<and> (recursive s \<noteq> SYS_SYNC_RECURSIVE \<longrightarrow> held s t = 1) \<and> held s t = unat (lock_count s) + 1"
proof -
  obtain xs where inv: "mx_inv s xs" using reachable_mx_inv [OF assms(1)] by blast
  show ?thesis using mx_invD(4) [OF inv, of t] mx_invD(4) [OF inv, of u] mx_invD(6) [OF inv] assms(2) by (auto split: if_splits)
qed

text \<open>
  C13: a thread sleeps on a kernel mutex only while another thread holds it: the mutex is never free while threads wait for it.
\<close>

theorem lv2_mutex_never_free:
  assumes "mx_reachable s" "pc s t = Asleep"
  shows "\<exists>u. u \<noteq> t \<and> owner s = Some u \<and> 0 < held s u"
proof -
  obtain xs where inv: "mx_inv s xs" using reachable_mx_inv [OF assms(1)] by blast
  have "t \<in> set xs" using mx_invD(2) [OF inv, of t] assms(2) by (simp add: mx_queued_def)
  then obtain u where u: "owner s = Some u" using mx_invD(5) [OF inv] by (cases "owner s") auto
  then show ?thesis using mx_invD(3) [OF inv, of t] mx_invD(4) [OF inv, of u] assms(2) by auto
qed

text \<open>
  C14: when a thread gives up a kernel mutex on which threads wait and none of them was stopped, one of the waiting threads leaves the queue,
  wakes, and holds the mutex from then on.
\<close>

theorem lv2_mutex_handover:
  assumes "mx_reachable s" "chain (thr s) (sq s) xs" "w \<in> set xs" "\<forall>v\<in>set xs. \<not> again (thr s v)" "pc s t = Unlock_slow"
  shows "\<exists>u\<in>set xs. owner (unlock_slow t s) = Some u \<and> held (unlock_slow t s) = (held s)(t := 0, u := 1)
    \<and> pc (unlock_slow t s) = (pc s)(t := Idle, u := Woken) \<and> chain (thr (unlock_slow t s)) (sq (unlock_slow t s)) (remove1 u xs)
    \<and> owner s = Some t \<and> 0 < held s t"
proof -
  obtain ys where inv: "mx_inv s ys" using reachable_mx_inv [OF assms(1)] by blast
  have "ys = xs" using chain_unique [OF mx_invD(1) [OF inv] assms(2)] .
  note inv = inv [unfolded this]
  have ne: "xs \<noteq> []" using assms(3) by auto
  obtain u first h where u: "u \<in> set xs" "reown (protocol s) (sq s, thr s, owner s) = Some (Some u, first, h, Some u)" "chain h first (remove1 u xs)"
    "\<forall>v. again (h v) = again (thr s v)"
    using reown_chain [OF assms(2) ne, of "protocol s" "owner s"] assms(4) by auto
  have "owner s = Some t" "lock_count s = 0" using mx_invD(3) [OF inv, of t] assms(5) by simp_all
  moreover have "\<not> again (h u)" using u(1,4) assms(4) by simp
  ultimately show ?thesis
    using u(1,3) unlock_slow_wakes [OF inv assms(5) u(1,2)] mx_invD(4) [OF inv, of t] by (intro bexI [of _ u]) simp_all
qed

definition one_waits :: mx_state where
  "one_waits = try_own 3 (try_lock_read 3 True (try_lock_cas 2 None True (try_lock_read 2 True (new_mutex SYS_SYNC_FIFO SYS_SYNC_NOT_RECURSIVE sample_threads 7))))"

lemmas mx_run_simps = try_own_def try_lock_read_def try_lock_cas_def new_mutex_def mx_return_def mx_own_def try_lock_busy_def

lemma one_waits_state: "owner one_waits = Some 2" "sq one_waits = Some 3" "next_cpu (thr one_waits 3) = None" "lock_count one_waits = 0"
  "pc one_waits = (\<lambda>_. Idle)(3 := Asleep)" "held one_waits 2 = 1" "again (thr one_waits 3) = False" "protocol one_waits = SYS_SYNC_FIFO"
  by (simp_all add: one_waits_def mx_run_simps sample_threads_def fun_eq_iff)

lemma one_waits_reachable: "mx_reachable one_waits"
proof -
  let ?s0 = "new_mutex SYS_SYNC_FIFO SYS_SYNC_NOT_RECURSIVE sample_threads 7"
  let ?s1 = "try_lock_read 2 True ?s0" let ?s2 = "try_lock_cas 2 None True ?s1" let ?s3 = "try_lock_read 3 True ?s2"
  have "mx_reachable ?s0" unfolding mx_reachable_def mx_init_def by blast
  moreover have "mx_step ?s0 ?s1" by (rule lock_read) (simp add: mx_run_simps)
  moreover have "mx_step ?s1 ?s2" by (rule lock_cas) (simp add: mx_run_simps)
  moreover have "mx_step ?s2 ?s3" by (rule lock_read) (simp add: mx_run_simps)
  moreover have "mx_step ?s3 one_waits" unfolding one_waits_def by (rule lock_own) (simp add: mx_run_simps)
  ultimately show ?thesis by (meson mx_reachable_step)
qed

theorem lv2_mutex_exclusive_witness: "owner one_waits = Some 2 \<and> held one_waits 2 = unat (lock_count one_waits) + 1"
  using lv2_mutex_exclusive [OF one_waits_reachable, of 2] by (simp add: one_waits_state)

theorem lv2_mutex_never_free_witness: "\<exists>u. u \<noteq> 3 \<and> owner one_waits = Some u \<and> 0 < held one_waits u"
  by (rule lv2_mutex_never_free [OF one_waits_reachable]) (simp add: one_waits_state)

definition one_unlocks :: mx_state where
  "one_unlocks = try_unlock_read 2 one_waits"

lemma one_unlocks_eq: "one_unlocks = mx_goto 2 Unlock_slow one_waits"
  by (simp add: one_unlocks_def try_unlock_read_def one_waits_state)

theorem lv2_mutex_handover_witness: "owner (unlock_slow 2 one_unlocks) = Some 3 \<and> pc (unlock_slow 2 one_unlocks) 3 = Woken"
proof -
  have "mx_step one_waits one_unlocks" unfolding one_unlocks_def by (rule unlock_read) (simp add: one_waits_state)
  then have "mx_reachable one_unlocks" using mx_reachable_step one_waits_reachable by blast
  then show ?thesis using lv2_mutex_handover [of one_unlocks "[3]" 3 2] by (simp add: one_unlocks_eq one_waits_state)
qed

end
