(* ===== verification/Lv2_Cond.thy ===== *)
theory Lv2_Cond
  imports Lv2_Mutex
begin

text \<open>
  The condition variable (\<^verbatim>\<open>rpcs3/Emu/Cell/lv2/sys_cond.cpp\<close>): its waiting queue beside the mutex it belongs to. A signal moves threads from
  this queue to the mutex, which they own at once or wait for.
\<close>

section \<open>State\<close>

text \<open>The head of the queue of the condition variable, and the mutex with all threads.\<close>

type_synonym cond_state = "tid option \<times> mx_state"

text \<open>
  How a pass through the loop of a signal ends: it is repeated because the caller was suspended, the call is repeated later because
  a thread was stopped, the thread to be signalled does not exist or does not wait, or the signal was given. A thread that owns the mutex now is woken.
\<close>

datatype signal = Signal_retry | Signal_again | No_thread | Not_waiting | Signalled "tid option"

section \<open>Signals\<close>

text \<open>
  \<open>seen\<close> tells whether the caller saw a waiting thread before it took the internal mutex, \<open>suspended\<close> whether it has been suspended. The
  boolean result of \<^verbatim>\<open>try_own\<close> is that the mutex had no owner.
\<close>

definition sys_cond_signal :: "bool \<Rightarrow> bool \<Rightarrow> cond_state \<Rightarrow> (signal \<times> cond_state) option" where
  "sys_cond_signal seen suspended = (\<lambda>(c, s).
     if suspended then Some (Signal_retry, c, s)
     else if \<not> seen then Some (Signalled None, c, s)
     else (case schedule (protocol s) True (c, thr s) of
         None \<Rightarrow> None
       | Some (None, c, h) \<Rightarrow> Some (Signalled None, c, s\<lparr>thr := h\<rparr>)
       | Some (Some cpu, c, h) \<Rightarrow>
           if again (h cpu) then Some (Signal_again, c, s\<lparr>thr := h\<rparr>)
           else Some (Signalled (if owner s = None then Some cpu else None), c, try_own cpu (s\<lparr>thr := h\<rparr>))))"

text \<open>The loop of \<^verbatim>\<open>sys_cond_signal_all\<close> fails if a second thread would become the owner.\<close>

partial_function (option) signal_all_loop :: "tid option \<Rightarrow> tid option \<Rightarrow> mx_state \<Rightarrow> (tid option \<times> mx_state) option" where
  [code]: "signal_all_loop c result s = (case schedule SYS_SYNC_PRIORITY True (c, thr s) of
       None \<Rightarrow> None
     | Some (None, c, h) \<Rightarrow> Some (result, s\<lparr>thr := h\<rparr>)
     | Some (Some cpu, c, h) \<Rightarrow>
         if owner s = None then
           (if result = None then signal_all_loop c (Some cpu) (try_own cpu (s\<lparr>thr := h\<rparr>)) else None)
         else signal_all_loop c result (try_own cpu (s\<lparr>thr := h\<rparr>)))"

definition sys_cond_signal_all :: "bool \<Rightarrow> bool \<Rightarrow> cond_state \<Rightarrow> (signal \<times> cond_state) option" where
  "sys_cond_signal_all seen suspended = (\<lambda>(c, s).
     if suspended then Some (Signal_retry, c, s)
     else if \<not> seen then Some (Signalled None, c, s)
     else (case any_again (thr s) c of
         None \<Rightarrow> None
       | Some True \<Rightarrow> Some (Signal_again, c, s)
       | Some False \<Rightarrow> (case signal_all_loop c None s of
             None \<Rightarrow> None
           | Some (result, s) \<Rightarrow> Some (Signalled result, None, s))))"

partial_function (option) find_waiter :: "threads \<Rightarrow> tid option \<Rightarrow> tid \<Rightarrow> bool option" where
  [code]: "find_waiter h cpu thread_id = (case cpu of
       None \<Rightarrow> Some False
     | Some t \<Rightarrow> if t = thread_id then Some True else find_waiter h (next_cpu (h t)) thread_id)"

definition sys_cond_signal_to :: "(tid \<Rightarrow> bool) \<Rightarrow> bool \<Rightarrow> bool \<Rightarrow> tid \<Rightarrow> cond_state \<Rightarrow> (signal \<times> cond_state) option" where
  "sys_cond_signal_to alive seen suspended thread_id = (\<lambda>(c, s).
     if \<not> alive thread_id then Some (No_thread, c, s)
     else if suspended then Some (Signal_retry, c, s)
     else if \<not> seen then Some (Not_waiting, c, s)
     else (case find_waiter (thr s) c thread_id of
         None \<Rightarrow> None
       | Some False \<Rightarrow> Some (Not_waiting, c, s)
       | Some True \<Rightarrow>
           if again (thr s thread_id) then Some (Signal_again, c, s)
           else (case unqueue True thread_id (c, thr s) of
               Some (Some cpu, c, h) \<Rightarrow>
                 Some (Signalled (if owner s = None then Some cpu else None), c, try_own cpu (s\<lparr>thr := h\<rparr>))
             | _ \<Rightarrow> None)))"

definition signal_result :: "signal \<Rightarrow> error_code option" where
  "signal_result r = (case r of Signal_retry \<Rightarrow> None | Signal_again \<Rightarrow> Some CELL_OK | No_thread \<Rightarrow> Some CELL_ESRCH
     | Not_waiting \<Rightarrow> Some CELL_EPERM | Signalled _ \<Rightarrow> Some CELL_OK)"

section \<open>Waiting\<close>

text \<open>
  The part of \<^verbatim>\<open>sys_cond_wait\<close> that registers the thread and gives the mutex away. The result is the recursion count the thread keeps, or how the
  call ends at once.
\<close>

datatype wait_result = Wait_eperm | Wait_again | Wait_sleep u32

definition cond_wait_begin :: "tid \<Rightarrow> cond_state \<Rightarrow> (wait_result \<times> cond_state) option" where
  "cond_wait_begin t = (\<lambda>(c, s).
     if owner s \<noteq> Some t then Some (Wait_eperm, c, s)
     else
       (let (c, h, tag) = emplace t (c, thr s, order_tag s); count = lock_count s;
            s = s\<lparr>thr := h, order_tag := tag, lock_count := 0\<rparr>
        in case reown (protocol s) (sq s, thr s, owner s) of
             None \<Rightarrow> None
           | Some (None, first, h, own) \<Rightarrow>
               Some (Wait_sleep count, c, s\<lparr>sq := first, thr := h, owner := own, held := (held s)(t := 0)\<rparr>)
           | Some (Some cpu, first, h, own) \<Rightarrow>
               if again (h cpu) then
                 (case unqueue True t (c, h) of
                    Some (Some u, c, h) \<Rightarrow> Some (Wait_again, c, s\<lparr>sq := first, thr := h, owner := own\<rparr>)
                  | _ \<Rightarrow> None)
               else Some (Wait_sleep count, c, mx_goto cpu Woken
                 (s\<lparr>sq := first, thr := h, owner := own, held := (held s)(t := 0, cpu := held s cpu + 1)\<rparr>))))"

text \<open>The end of a wait with a timeout, and the end of every wait.\<close>

definition cond_wait_timeout :: "tid \<Rightarrow> cond_state \<Rightarrow> (bool \<times> cond_state) option" where
  "cond_wait_timeout t = (\<lambda>(c, s). case unqueue True t (c, thr s) of
       None \<Rightarrow> None
     | Some (Some u, c, h) \<Rightarrow> Some (owner s = None, c, (try_own t (s\<lparr>thr := h\<rparr>))\<lparr>ret := (ret s)(t := MX_ETIMEDOUT)\<rparr>)
     | Some (None, c, h) \<Rightarrow> Some (owner s = Some t, c, s))"

definition cond_wait_end :: "tid \<Rightarrow> u32 \<Rightarrow> cond_state \<Rightarrow> cond_state option" where
  "cond_wait_end t count = (\<lambda>(c, s). if owner s = Some t then Some (c, s\<lparr>lock_count := count, held := (held s)(t := unat count + 1)\<rparr>) else None)"

section \<open>Signalling all threads\<close>

lemma try_own_owned:
  assumes "owner s = Some u"
  shows "owner (try_own t s) = Some u" "sq (try_own t s) = Some t" "next_cpu (thr (try_own t s) v) = (if v = t then sq s else next_cpu (thr s v))"
    "again (thr (try_own t s) v) = again (thr s v)" "v \<noteq> t \<Longrightarrow> tprio (thr (try_own t s) v) = tprio (thr s v)"
  using assms by (simp_all add: try_own_def)

lemma try_own_free:
  assumes "owner s = None"
  shows "owner (try_own t s) = Some t" "sq (try_own t s) = sq s" "next_cpu (thr (try_own t s) v) = (if v = t then None else next_cpu (thr s v))"
    "again (thr (try_own t s) v) = again (thr s v)" "tprio (thr (try_own t s) v) = tprio (thr s v)"
  using assms by (simp_all add: try_own_def mx_return_def mx_own_def)

text \<open>The threads of \<open>ws\<close> come in the order of their priorities, as they were.\<close>

definition by_prio :: "threads \<Rightarrow> tid list \<Rightarrow> bool" where
  "by_prio h ws \<longleftrightarrow> sorted_wrt (\<lambda>u v. \<not> before_prio (tprio (h v)) (tprio (h u))) ws"

lemma by_prio_cong: "(\<And>u. u \<in> set ws \<Longrightarrow> tprio (h' u) = tprio (h u)) \<Longrightarrow> by_prio h' ws = by_prio h ws"
  by (induction ws) (auto simp: by_prio_def)

lemma signal_all_owned:
  assumes "chain (thr s) c cs" "chain (thr s) (sq s) xs" "set cs \<inter> set xs = {}" "\<forall>t\<in>set cs. \<not> again (thr s t)" "owner s = Some o'"
  shows "\<exists>ws s'. signal_all_loop c res s = Some (res, s') \<and> set ws = set cs \<and> length ws = length cs \<and> by_prio (thr s) ws
    \<and> owner s' = Some o' \<and> chain (thr s') (sq s') (rev ws @ xs)"
  using assms
proof (induction cs arbitrary: c s xs rule: length_induct)
  case (1 cs)
  show ?case
  proof (cases "cs = []")
    case True
    then show ?thesis using 1(2,3,6) by (subst signal_all_loop.simps) (auto simp: schedule_def by_prio_def)
  next
    case ne: False
    show ?thesis
    proof (rule schedule_frame [OF 1(2) ne, where prot = SYS_SYNC_PRIORITY])
      fix t assume "t \<in> set cs" "again (thr s t)"
      then show ?thesis using 1(5) by blast
    next
      fix t first h
      assume t: "t \<in> set cs" and s: "schedule SYS_SYNC_PRIORITY True (c, thr s) = Some (Some t, first, h)" and c: "chain h first (remove1 t cs)"
        and a: "\<And>u. again (h u) = again (thr s u)" and n: "\<And>u. u \<notin> set cs \<Longrightarrow> next_cpu (h u) = next_cpu (thr s u)"
        and p: "\<And>u. tprio (h u) = tprio (thr s u)"
        and b: "SYS_SYNC_PRIORITY \<noteq> SYS_SYNC_FIFO \<Longrightarrow> \<forall>u\<in>set cs. \<not> before_prio (tprio (thr s u)) (tprio (thr s t))"
      let ?s = "try_own t (s\<lparr>thr := h\<rparr>)"
      have d: "distinct cs" using chain_distinct [OF 1(2)] .
      have o': "owner (s\<lparr>thr := h\<rparr>) = Some o'" using 1(6) by simp
      note e = try_own_owned [OF o']
      have c': "chain (thr ?s) first (remove1 t cs)" using c d by (subst chain_cong [of _ _ h]) (auto simp: e)
      have "chain (thr ?s) (sq s) xs" using 1(3,4) t n by (subst chain_cong [of _ _ "thr s"]) (auto simp: e)
      then have x: "chain (thr ?s) (sq ?s) (t # xs)" by (simp add: e)
      have l: "length (remove1 t cs) < length cs" using t by (simp add: length_remove1 ne)
      obtain ws s' where w: "signal_all_loop first res ?s = Some (res, s')" "set ws = set (remove1 t cs)" "length ws = length (remove1 t cs)"
          "by_prio (thr ?s) ws" "owner s' = Some o'" "chain (thr s') (sq s') (rev ws @ t # xs)"
        using 1(1) [rule_format, OF l c' x] 1(4,5) d a by (auto simp: e)
      have "tprio (thr ?s u) = tprio (thr s u)" if "u \<in> set ws" for u
      proof -
        have "u \<noteq> t" using that w(2) d by auto
        then show ?thesis using e(5) [of u t] p by simp
      qed
      then have "by_prio (thr s) ws" using w(4) by_prio_cong [of ws "thr ?s" "thr s"] by blast
      moreover have "\<forall>u\<in>set ws. \<not> before_prio (tprio (thr s u)) (tprio (thr s t))"
        using b w(2) d by (simp add: SYS_SYNC_PRIORITY_def SYS_SYNC_FIFO_def)
      ultimately have "by_prio (thr s) (t # ws)" by (simp add: by_prio_def)
      moreover have "signal_all_loop c res s = Some (res, s')" using w(1) 1(6) by (subst signal_all_loop.simps) (simp add: s)
      moreover have "set (t # ws) = set cs" "length (t # ws) = length cs" using w(2,3) d t ne by (auto simp: length_remove1 neq_Nil_conv)
      ultimately show ?thesis using w(5,6) by (intro exI [of _ "t # ws"] exI [of _ s']) simp
    qed
  qed
qed

lemma signal_all_free:
  assumes c: "chain (thr s) c cs" "cs \<noteq> []" and x: "chain (thr s) (sq s) []" and a: "\<forall>t\<in>set cs. \<not> again (thr s t)" and o': "owner s = None"
  shows "\<exists>t ws s'. signal_all_loop c None s = Some (Some t, s') \<and> set (t # ws) = set cs \<and> length (t # ws) = length cs
    \<and> by_prio (thr s) (t # ws) \<and> owner s' = Some t \<and> chain (thr s') (sq s') (rev ws)"
proof (rule schedule_frame [OF c, where prot = SYS_SYNC_PRIORITY])
  fix t assume "t \<in> set cs" "again (thr s t)"
  then show ?thesis using a by blast
next
  fix t first h
  assume t: "t \<in> set cs" and s: "schedule SYS_SYNC_PRIORITY True (c, thr s) = Some (Some t, first, h)" and ch: "chain h first (remove1 t cs)"
    and ag: "\<And>u. again (h u) = again (thr s u)" and p: "\<And>u. tprio (h u) = tprio (thr s u)"
    and b: "SYS_SYNC_PRIORITY \<noteq> SYS_SYNC_FIFO \<Longrightarrow> \<forall>u\<in>set cs. \<not> before_prio (tprio (thr s u)) (tprio (thr s t))"
  let ?s = "try_own t (s\<lparr>thr := h\<rparr>)"
  have d: "distinct cs" using chain_distinct [OF c(1)] .
  have free: "owner (s\<lparr>thr := h\<rparr>) = None" using o' by simp
  note e = try_own_free [OF free]
  have c': "chain (thr ?s) first (remove1 t cs)" using ch d by (subst chain_cong [of _ _ h]) (auto simp: e)
  have x': "chain (thr ?s) (sq ?s) []" using x by (simp add: e)
  obtain ws s' where w: "signal_all_loop first (Some t) ?s = Some (Some t, s')" "set ws = set (remove1 t cs)" "length ws = length (remove1 t cs)"
      "by_prio (thr ?s) ws" "owner s' = Some t" "chain (thr s') (sq s') (rev ws)"
    using signal_all_owned [OF c' x' _ _ e(1), of "Some t"] a d ag by (auto simp: e)
  have "by_prio (thr s) ws" using w(4) by_prio_cong [of ws "thr ?s" "thr s"] by (simp add: e p)
  moreover have "\<forall>u\<in>set ws. \<not> before_prio (tprio (thr s u)) (tprio (thr s t))"
    using b w(2) d by (simp add: SYS_SYNC_PRIORITY_def SYS_SYNC_FIFO_def)
  ultimately have "by_prio (thr s) (t # ws)" by (simp add: by_prio_def)
  moreover have "signal_all_loop c None s = Some (Some t, s')" using w(1) o' by (subst signal_all_loop.simps) (simp add: s)
  moreover have "set (t # ws) = set cs" "length (t # ws) = length cs" using w(2,3) d t c(2) by (auto simp: length_remove1 neq_Nil_conv)
  ultimately show ?thesis using w(5,6) by blast
qed

text \<open>
  C15: signalling all threads of a condition variable ends and never gives the mutex to two of them: if the mutex is free the first
  thread by priority owns it and alone is woken, and all the others, or all threads if the mutex has an owner, wait for the mutex, later ones in
  front, before those that waited already.
\<close>

theorem cond_signal_all_one_owner:
  assumes "mx_inv s xs" "chain (thr s) c cs" "cs \<noteq> []" "set cs \<inter> set xs = {}" "\<forall>t\<in>set cs. \<not> again (thr s t)"
  shows "\<exists>ws s'. sys_cond_signal_all True False (c, s) = Some (Signalled (if owner s = None then Some (hd ws) else None), None, s')
    \<and> set ws = set cs \<and> length ws = length cs \<and> by_prio (thr s) ws
    \<and> owner s' = (if owner s = None then Some (hd ws) else owner s)
    \<and> chain (thr s') (sq s') (rev (if owner s = None then tl ws else ws) @ xs)"
proof -
  have ag: "any_again (thr s) c = Some False" using any_again_chain [OF assms(2)] assms(5) by simp
  note x = mx_invD(1) [OF assms(1)]
  show ?thesis
  proof (cases "owner s")
    case None
    then have xs: "xs = []" using mx_invD(5) [OF assms(1)] by simp
    obtain t ws s' where w: "signal_all_loop c None s = Some (Some t, s')" "set (t # ws) = set cs" "length (t # ws) = length cs"
        "by_prio (thr s) (t # ws)" "owner s' = Some t" "chain (thr s') (sq s') (rev ws)"
      using signal_all_free [OF assms(2,3) x [unfolded xs] assms(5) None] by blast
    show ?thesis using w None xs ag by (intro exI [of _ "t # ws"] exI [of _ s']) (simp add: sys_cond_signal_all_def)
  next
    case (Some u)
    obtain ws s' where "signal_all_loop c None s = Some (None, s')" "set ws = set cs" "length ws = length cs" "by_prio (thr s) ws"
        "owner s' = Some u" "chain (thr s') (sq s') (rev ws @ xs)"
      using signal_all_owned [OF assms(2) x assms(4,5) Some, of None] by blast
    then show ?thesis using Some ag by (intro exI [of _ ws] exI [of _ s']) (simp add: sys_cond_signal_all_def)
  qed
qed

section \<open>Waiting while others are stopped\<close>

lemma reown_stopped:
  assumes "chain h first xs" "xs \<noteq> []" "\<forall>u\<in>set xs. again (h u)"
  shows "\<exists>u. again (h u) \<and> reown prot (first, h, own) = Some (Some u, first, h, own)"
proof (rule schedule_position [OF assms(1,2), where protocol = prot and modify_node = False])
  fix as t bs
  assume t: "xs = as @ t # bs" and s: "schedule prot False (first, h) = Some (Some t, if again (h t) then (first, h)
       else (case set_link (link_of as) (next_cpu (h t)) (first, h) of
         (first, h) \<Rightarrow> (first, if False \<and> prot \<noteq> SYS_SYNC_FIFO then set_next t None h else h)))"
  have a: "again (h t)" using assms(3) t by simp
  moreover have "first \<noteq> None" using assms(1,2) by (cases xs) auto
  ultimately show ?thesis using s by (intro exI [of _ t]) (auto simp: reown_def)
qed

text \<open>
  C28: a wait on a condition variable that finds only stopped threads waiting for the mutex leaves both queues and the owner as they were, to be
  repeated; but it has set the recursion count to zero, while the thread has still locked the mutex as often as before.
\<close>

theorem cond_wait_loses_recursion:
  assumes inv: "mx_inv s xs" and t: "owner s = Some t" and c: "chain (thr s) c cs" "t \<notin> set cs" and x: "t \<notin> set xs" "xs \<noteq> []"
    and a: "\<forall>u\<in>set xs. again (thr s u)"
  shows "\<exists>s'. cond_wait_begin t (c, s) = Some (Wait_again, c, s') \<and> owner s' = Some t \<and> chain (thr s') (sq s') xs \<and> chain (thr s') c cs
    \<and> held s' t = unat (lock_count s) + 1 \<and> lock_count s' = 0"
proof -
  obtain h tag where e: "emplace t (c, thr s, order_tag s) = (Some t, h, tag)" by (simp add: emplace_def Let_def)
  have h: "next_cpu (h u) = (if u = t then c else next_cpu (thr s u))" "again (h u) = again (thr s u)" for u
    using e by (auto simp: emplace_def Let_def split: if_splits)
  have q: "chain h (sq s) xs" using mx_invD(1) [OF inv] x(1) h by (subst chain_cong [of _ _ "thr s"]) auto
  have "\<forall>u\<in>set xs. again (h u)" using a by (simp add: h)
  then obtain u where u: "again (h u)" "reown (protocol s) (sq s, h, owner s) = Some (Some u, sq s, h, owner s)"
    using reown_stopped [OF q x(2), of "protocol s" "owner s"] by blast
  let ?s = "s\<lparr>thr := set_next t None h, order_tag := tag, lock_count := 0\<rparr>"
  have "unqueue True t (Some t, h) = Some (Some t, c, set_next t None h)" by (simp add: unqueue_def h)
  then have "cond_wait_begin t (c, s) = Some (Wait_again, c, ?s)" using t u by (simp add: cond_wait_begin_def e)
  moreover have "chain (thr ?s) (sq ?s) xs" using q x(1) by simp (subst chain_cong [of _ _ h], auto)
  moreover have "chain (thr ?s) c cs" using c h by simp (subst chain_cong [of _ _ "thr s"], auto)
  ultimately show ?thesis using t mx_invD(4) [OF inv, of t] by (intro exI [of _ ?s]) simp
qed

section \<open>Examples\<close>

text \<open>Three threads wait on the condition variable of a free mutex.\<close>

definition cond_waiters :: mx_state where
  "cond_waiters = new_mutex SYS_SYNC_PRIORITY SYS_SYNC_NOT_RECURSIVE sample_threads 7"

lemma cond_waiters_ok: "mx_inv cond_waiters []" "chain (thr cond_waiters) (Some 3) [3, 2, 1]"
  "set [3, 2, 1] \<inter> set [] = {}" "\<forall>t\<in>set [3, 2, 1]. \<not> again (thr cond_waiters t)"
  by (simp_all add: mx_inv_def cond_waiters_def new_mutex_def mx_queued_def sample_threads_def)

theorem cond_signal_all_one_owner_witness:
  "\<exists>ws s'. sys_cond_signal_all True False (Some 3, cond_waiters) = Some (Signalled (Some (hd ws)), None, s')
    \<and> set ws = {3, 2, 1} \<and> length ws = 3 \<and> by_prio (thr cond_waiters) ws \<and> owner s' = Some (hd ws) \<and> chain (thr s') (sq s') (rev (tl ws))"
proof -
  have "owner cond_waiters = None" by (simp add: cond_waiters_def new_mutex_def)
  then show ?thesis using cond_signal_all_one_owner [OF cond_waiters_ok(1,2) _ cond_waiters_ok(3,4)] by (simp add: numeral_3_eq_3)
qed

text \<open>Thread 2 has locked a recursive mutex twice, and thread 3 was stopped while it waits for it.\<close>

definition cond_recursive :: mx_state where
  "cond_recursive = (new_mutex SYS_SYNC_FIFO SYS_SYNC_RECURSIVE (\<lambda>u. (sample_threads u)\<lparr>next_cpu := None, again := u = 3\<rparr>) 7)
     \<lparr>owner := Some 2, sq := Some 3, lock_count := 1, pc := (\<lambda>_. Idle)(3 := Stopped), held := (\<lambda>_. 0)(2 := 2)\<rparr>"

lemma cond_recursive_ok: "mx_inv cond_recursive [3]" "owner cond_recursive = Some 2" "chain (thr cond_recursive) None []"
  "again (thr cond_recursive 3)" "lock_count cond_recursive = 1"
  by (simp_all add: mx_inv_def cond_recursive_def new_mutex_def mx_queued_def)

theorem cond_wait_loses_recursion_witness:
  "\<exists>s'. cond_wait_begin 2 (None, cond_recursive) = Some (Wait_again, None, s') \<and> owner s' = Some 2 \<and> held s' 2 = 2 \<and> lock_count s' = 0"
  using cond_wait_loses_recursion [OF cond_recursive_ok(1-3)] cond_recursive_ok(4,5) by auto

end
