(* ===== verification/Lv2_Sema.thy ===== *)
theory Lv2_Sema
  imports Lv2_Queue
begin

text \<open>
  The kernel semaphore (\<^verbatim>\<open>rpcs3/Emu/Cell/lv2/sys_semaphore.h\<close>, \<^verbatim>\<open>sys_semaphore.cpp\<close>). The value is changed
  both by compare-and-swap without the mutex and inside critical sections, so the calls are cut at every
  access to shared data, and any thread may take the next step. A negative value counts the
  threads that wait. The counters \<open>acquired\<close> and \<open>posted\<close> are not in the code: they record how many units
  were handed out and added.
\<close>

section \<open>State\<close>

datatype sema_pc = Idle | Wait_cas u32 | Wait_lock | Wait_enq | Asleep | Stopped | Woken | Timed_inc
  | Post_cas u32 u32 | Post_lock u32 | Post_wake nat

text \<open>\<open>fatal\<close> is set when an \<^verbatim>\<open>ensure\<close> fails. \<open>lock\<close> is the holder of \<^verbatim>\<open>lv2_sema::mutex\<close> between two steps.\<close>

record sema_state =
  val :: u32
  max_val :: u32
  protocol :: u32
  sq :: "tid option"
  thr :: threads
  order_tag :: u64
  lock :: "tid option"
  pc :: "tid \<Rightarrow> sema_pc"
  fatal :: bool
  acquired :: int
  posted :: int

abbreviation goto :: "tid \<Rightarrow> sema_pc \<Rightarrow> sema_state \<Rightarrow> sema_state" where
  "goto t p s \<equiv> s\<lparr>pc := (pc s)(t := p)\<rparr>"

section \<open>Steps of the system calls\<close>

text \<open>\<^verbatim>\<open>sys_semaphore_wait\<close>: the attempt without the mutex, and the critical section.\<close>

definition wait_read :: "tid \<Rightarrow> sema_state \<Rightarrow> sema_state" where
  "wait_read t s = (if 0 < sint (val s) then goto t (Wait_cas (val s)) s else goto t Wait_lock s)"

definition wait_cas :: "tid \<Rightarrow> u32 \<Rightarrow> sema_state \<Rightarrow> sema_state" where
  "wait_cas t v s = (if val s = v then (goto t Idle s)\<lparr>val := v - 1, acquired := acquired s + 1\<rparr> else goto t Wait_lock s)"

definition wait_locked :: "tid \<Rightarrow> sema_state \<Rightarrow> sema_state" where
  "wait_locked t s =
     (if sint (val s) \<le> 0 then (goto t Wait_enq s)\<lparr>val := val s - 1, lock := Some t\<rparr>
      else (goto t Idle s)\<lparr>val := val s - 1, acquired := acquired s + 1\<rparr>)"

definition wait_enqueue :: "tid \<Rightarrow> sema_state \<Rightarrow> sema_state" where
  "wait_enqueue t s = (case emplace t (sq s, thr s, order_tag s) of
     (first, h, tag) \<Rightarrow> (goto t Asleep s)\<lparr>sq := first, thr := h, order_tag := tag, lock := None\<rparr>)"

text \<open>A thread whose time is over removes itself, unless it has been woken in the meantime.\<close>

definition wait_timeout :: "tid \<Rightarrow> sema_state \<Rightarrow> sema_state" where
  "wait_timeout t s = (case unqueue True t (sq s, thr s) of
       Some (Some u, first, h) \<Rightarrow> (goto t Timed_inc s)\<lparr>sq := first, thr := h, lock := Some t\<rparr>
     | Some (None, first, h) \<Rightarrow> goto t Idle s
     | None \<Rightarrow> s)"

definition timeout_increment :: "tid \<Rightarrow> sema_state \<Rightarrow> sema_state" where
  "timeout_increment t s =
     (if sint (val s) < 0 then (goto t Idle s)\<lparr>val := val s + 1, lock := None\<rparr>
      else (goto t Idle s)\<lparr>fatal := True, lock := None\<rparr>)"

definition wait_stopped :: "tid \<Rightarrow> sema_state \<Rightarrow> sema_state" where
  "wait_stopped t s = (goto t Stopped s)\<lparr>thr := (thr s)(t := (thr s t)\<lparr>again := True\<rparr>)\<rparr>"

definition trywait :: "sema_state \<Rightarrow> bool \<times> sema_state" where
  "trywait s = (if 0 < sint (val s) then (True, s\<lparr>val := val s - 1, acquired := acquired s + 1\<rparr>) else (False, s))"

text \<open>\<^verbatim>\<open>sys_semaphore_post\<close>\<close>

definition post_read :: "tid \<Rightarrow> u32 \<Rightarrow> sema_state \<Rightarrow> sema_state" where
  "post_read t count s =
     (if 0 \<le> sint (val s) \<and> 0 < sint count \<and> sint count \<le> sint (max_val s - val s) then goto t (Post_cas (val s) count) s
      else if sint count \<le> 0 then goto t Idle s
      else goto t (Post_lock count) s)"

definition post_cas :: "tid \<Rightarrow> u32 \<Rightarrow> u32 \<Rightarrow> sema_state \<Rightarrow> sema_state" where
  "post_cas t v count s =
     (if val s = v then (goto t Idle s)\<lparr>val := v + count, posted := posted s + sint count\<rparr> else goto t (Post_lock count) s)"

definition to_awake :: "u32 \<Rightarrow> u32 \<Rightarrow> nat" where
  "to_awake v count = nat (min (- min (sint v) 0) (sint count))"

definition post_locked :: "tid \<Rightarrow> u32 \<Rightarrow> sema_state \<Rightarrow> sema_state" where
  "post_locked t count s = (case any_again (thr s) (sq s) of
       None \<Rightarrow> s
     | Some True \<Rightarrow> goto t Idle s
     | Some False \<Rightarrow>
         if count \<le> max_val s - val s then
           (let s' = s\<lparr>val := val s + count, posted := posted s + sint count\<rparr> in
            if to_awake (val s) count = 0 then goto t Idle s'
            else (goto t (Post_wake (to_awake (val s) count)) s')\<lparr>lock := Some t\<rparr>)
         else goto t Idle s)"

definition post_wake :: "tid \<Rightarrow> nat \<Rightarrow> sema_state \<Rightarrow> sema_state" where
  "post_wake t n s = (case schedule (protocol s) True (sq s, thr s) of
       Some (Some u, first, h) \<Rightarrow>
         (let s' = (goto u Woken s)\<lparr>sq := first, thr := h, acquired := acquired s + 1\<rparr> in
          if n = 1 then (goto t Idle s')\<lparr>lock := None\<rparr> else goto t (Post_wake (n - 1)) s')
     | Some (None, first, h) \<Rightarrow> (goto t Idle s)\<lparr>fatal := True, lock := None\<rparr>
     | None \<Rightarrow> s)"

inductive sema_step :: "tid set \<Rightarrow> sema_state \<Rightarrow> sema_state \<Rightarrow> bool" for T where
  "t \<in> T \<Longrightarrow> pc s t = Idle \<Longrightarrow> sema_step T s (wait_read t s)"
| "pc s t = Wait_cas v \<Longrightarrow> sema_step T s (wait_cas t v s)"
| "pc s t = Wait_lock \<Longrightarrow> lock s = None \<Longrightarrow> sema_step T s (wait_locked t s)"
| "pc s t = Wait_enq \<Longrightarrow> sema_step T s (wait_enqueue t s)"
| "pc s t = Asleep \<or> pc s t = Woken \<Longrightarrow> lock s = None \<Longrightarrow> sema_step T s (wait_timeout t s)"
| "pc s t = Timed_inc \<Longrightarrow> sema_step T s (timeout_increment t s)"
| "pc s t = Asleep \<Longrightarrow> lock s = None \<Longrightarrow> sema_step T s (wait_stopped t s)"
| "pc s t = Woken \<Longrightarrow> sema_step T s (goto t Idle s)"
| "pc s t = Idle \<Longrightarrow> sema_step T s (snd (trywait s))"
| "t \<in> T \<Longrightarrow> pc s t = Idle \<Longrightarrow> sema_step T s (post_read t count s)"
| "pc s t = Post_cas v count \<Longrightarrow> sema_step T s (post_cas t v count s)"
| "pc s t = Post_lock count \<Longrightarrow> lock s = None \<Longrightarrow> sema_step T s (post_locked t count s)"
| "pc s t = Post_wake n \<Longrightarrow> sema_step T s (post_wake t n s)"

section \<open>Invariant\<close>

definition holds_lock :: "sema_pc \<Rightarrow> bool" where
  "holds_lock p \<longleftrightarrow> p = Wait_enq \<or> p = Timed_inc \<or> (\<exists>n. p = Post_wake n)"

definition in_queue :: "sema_pc \<Rightarrow> bool" where
  "in_queue p \<longleftrightarrow> p = Asleep \<or> p = Stopped"

text \<open>Threads counted by the value that are not in the queue, and threads about to be woken.\<close>

definition unqueued :: "sema_state \<Rightarrow> nat" where
  "unqueued s = (case lock s of None \<Rightarrow> 0 | Some t \<Rightarrow> if pc s t = Wait_enq \<or> pc s t = Timed_inc then 1 else 0)"

definition grants :: "sema_state \<Rightarrow> nat" where
  "grants s = (case lock s of None \<Rightarrow> 0 | Some t \<Rightarrow> (case pc s t of Post_wake n \<Rightarrow> n | _ \<Rightarrow> 0))"

fun pc_ok :: "sema_state \<Rightarrow> tid list \<Rightarrow> sema_pc \<Rightarrow> bool" where
  "pc_ok s xs (Wait_cas v) \<longleftrightarrow> 0 < sint v"
| "pc_ok s xs (Post_cas v c) \<longleftrightarrow> 0 \<le> sint v \<and> 0 < sint c \<and> sint v + sint c \<le> sint (max_val s)"
| "pc_ok s xs (Post_lock c) \<longleftrightarrow> 0 < sint c"
| "pc_ok s xs (Post_wake n) \<longleftrightarrow> 0 < n \<and> (\<forall>u\<in>set xs. \<not> again (thr s u))"
| "pc_ok s xs _ \<longleftrightarrow> True"

definition sema_inv :: "tid set \<Rightarrow> int \<Rightarrow> sema_state \<Rightarrow> tid list \<Rightarrow> bool" where
  "sema_inv T initial s xs \<longleftrightarrow> chain (thr s) (sq s) xs
     \<and> (\<forall>t. in_queue (pc s t) \<longleftrightarrow> t \<in> set xs)
     \<and> (\<forall>t. pc s t \<noteq> Idle \<longrightarrow> t \<in> T)
     \<and> (\<forall>t. holds_lock (pc s t) \<longleftrightarrow> lock s = Some t)
     \<and> (\<forall>t. pc_ok s xs (pc s t))
     \<and> sint (val s) = initial + posted s - acquired s - int (length xs + unqueued s)
     \<and> int (length xs + unqueued s) - int (grants s) = max 0 (- sint (val s))
     \<and> 0 < sint (max_val s) \<and> sint (val s) \<le> sint (max_val s) \<and> \<not> fatal s"

lemma sint_bounds: "- 2147483648 \<le> sint x" "sint x < 2147483648" for x :: u32
  using sint_greater_eq [of x] sint_less [of x] by simp_all

lemma sint_add_range:
  "- 2147483648 \<le> sint a + sint b \<Longrightarrow> sint a + sint b < 2147483648 \<Longrightarrow> sint (a + b) = sint a + sint b" for a b :: u32
  by (simp add: sint_word_ariths signed_take_bit_int_eq_self)

lemma sint_sub_range:
  "- 2147483648 \<le> sint a - sint b \<Longrightarrow> sint a - sint b < 2147483648 \<Longrightarrow> sint (a - b) = sint a - sint b" for a b :: u32
  by (simp add: sint_word_ariths signed_take_bit_int_eq_self)

lemma sint_one [simp]: "sint (1 :: u32) = 1"
  by simp

lemma sema_invD:
  assumes "sema_inv T i s xs"
  shows "chain (thr s) (sq s) xs" "in_queue (pc s t) \<longleftrightarrow> t \<in> set xs" "pc s t \<noteq> Idle \<Longrightarrow> t \<in> T"
    "holds_lock (pc s t) \<longleftrightarrow> lock s = Some t" "pc_ok s xs (pc s t)"
    "sint (val s) = i + posted s - acquired s - int (length xs + unqueued s)"
    "int (length xs + unqueued s) - int (grants s) = max 0 (- sint (val s))"
    "0 < sint (max_val s)" "sint (val s) \<le> sint (max_val s)" "\<not> fatal s"
  using assms unfolding sema_inv_def by blast+

lemma counts_unlocked: "lock s = None \<Longrightarrow> unqueued s = 0 \<and> grants s = 0"
  by (simp add: unqueued_def grants_def)

lemma pc_ok_cong:
  "max_val s' = max_val s \<Longrightarrow> (\<And>u. again (thr s' u) = again (thr s u)) \<Longrightarrow> set ys \<subseteq> set xs \<Longrightarrow> pc_ok s xs p \<Longrightarrow> pc_ok s' ys p"
  by (cases p) auto

text \<open>A thread that neither waits in the queue nor holds the mutex moves on, perhaps changing the value.\<close>

lemma inv_value_step:
  assumes inv: "sema_inv T i s xs"
    and t: "\<not> in_queue (pc s t)" "\<not> holds_lock (pc s t)" "\<not> in_queue p" "\<not> holds_lock p" "p \<noteq> Idle \<Longrightarrow> t \<in> T" "pc_ok s xs p"
    and v: "sint v - pst + acq = sint (val s) - posted s + acquired s" "max 0 (- sint v) = max 0 (- sint (val s))"
      "sint v \<le> sint (max_val s)"
  shows "sema_inv T i ((goto t p s)\<lparr>val := v, acquired := acq, posted := pst\<rparr>) xs"
proof -
  let ?s = "(goto t p s)\<lparr>val := v, acquired := acq, posted := pst\<rparr>"
  have other: "lock s = Some u \<Longrightarrow> u \<noteq> t" for u using sema_invD(4) [OF inv, of u] t(2) by auto
  have c: "unqueued ?s = unqueued s" "grants ?s = grants s"
    using other by (auto simp: unqueued_def grants_def split: option.split)
  have ok: "pc_ok ?s xs q" if "pc_ok s xs q" for q using that by (rule pc_ok_cong [rotated 3]) simp_all
  show ?thesis
    unfolding sema_inv_def c
  proof (intro conjI allI impI)
    show "in_queue (pc ?s u) \<longleftrightarrow> u \<in> set xs" for u using sema_invD(2) [OF inv] t(1,3) by auto
    show "pc ?s u \<noteq> Idle \<Longrightarrow> u \<in> T" for u using sema_invD(3) [OF inv] t(5) by (auto split: if_splits)
    show "holds_lock (pc ?s u) \<longleftrightarrow> lock ?s = Some u" for u using sema_invD(4) [OF inv] t(2,4) by auto
    show "pc_ok ?s xs (pc ?s u)" for u using ok sema_invD(5) [OF inv] t(6) by simp
  qed (use sema_invD [OF inv] v in \<open>simp_all add: algebra_simps\<close>)
qed

lemma inv_move:
  assumes "sema_inv T i s xs" "\<not> in_queue (pc s t)" "\<not> holds_lock (pc s t)" "\<not> in_queue p" "\<not> holds_lock p"
    "p \<noteq> Idle \<Longrightarrow> t \<in> T" "pc_ok s xs p"
  shows "sema_inv T i (goto t p s) xs"
  using inv_value_step [OF assms, of "val s" "posted s" "acquired s"] sema_invD(9) [OF assms(1)] by simp

lemmas pc_simps = in_queue_def holds_lock_def

lemma inv_wait_read: "sema_inv T i s xs \<Longrightarrow> t \<in> T \<Longrightarrow> pc s t = Idle \<Longrightarrow> sema_inv T i (wait_read t s) xs"
  by (auto simp: wait_read_def pc_simps intro!: inv_move)

lemma take_unit:
  assumes "sema_inv T i s xs" "0 < sint (val s)"
  shows "sint (val s - 1) = sint (val s) - 1"
  using assms(2) sint_bounds [of "val s"] by (simp add: sint_sub_range)

lemma inv_wait_cas: "sema_inv T i s xs \<Longrightarrow> pc s t = Wait_cas v \<Longrightarrow> sema_inv T i (wait_cas t v s) xs"
  using sema_invD(3,5) [of T i s xs t] sema_invD(9) [of T i s xs] take_unit [of T i s xs]
    inv_value_step [of T i s xs t Idle "val s - 1" "posted s" "acquired s + 1"]
  by (auto simp: wait_cas_def pc_simps intro!: inv_move)

lemma inv_trywait: "sema_inv T i s xs \<Longrightarrow> pc s t = Idle \<Longrightarrow> sema_inv T i (snd (trywait s)) xs"
  using sema_invD(9) [of T i s xs] take_unit [of T i s xs] fun_upd_triv [of "pc s" t]
    inv_value_step [of T i s xs t Idle "val s - 1" "posted s" "acquired s + 1"]
  by (auto simp: trywait_def pc_simps)

lemma inv_post_read: "sema_inv T i s xs \<Longrightarrow> t \<in> T \<Longrightarrow> pc s t = Idle \<Longrightarrow> sema_inv T i (post_read t count s) xs"
  using sema_invD(8) [of T i s xs] sint_bounds [of "max_val s"] sint_bounds [of "val s"] sint_sub_range [of "max_val s" "val s"]
  by (auto simp: post_read_def pc_simps intro!: inv_move)

lemma inv_post_cas: "sema_inv T i s xs \<Longrightarrow> pc s t = Post_cas v count \<Longrightarrow> sema_inv T i (post_cas t v count s) xs"
  using sema_invD(3,5) [of T i s xs t] sema_invD(8) [of T i s xs] sint_bounds [of "max_val s"] sint_add_range [of v count]
    inv_value_step [of T i s xs t Idle "v + count" "posted s + sint count" "acquired s"]
  by (auto simp: post_cas_def pc_simps intro!: inv_move)

text \<open>A step that takes or releases the mutex: what has to be shown of the new state.\<close>

lemma inv_lock_step:
  assumes inv: "sema_inv T i s xs" and s': "max_val s' = max_val s" "\<not> fatal s'"
    and pc: "\<And>u. u \<noteq> t \<Longrightarrow> u \<noteq> w \<Longrightarrow> pc s' u = pc s u" "pc s' t \<noteq> Idle \<Longrightarrow> t \<in> T" "pc s' w \<noteq> Idle \<Longrightarrow> w \<in> T"
    and queue: "chain (thr s') (sq s') ys" "\<And>u. in_queue (pc s' u) \<longleftrightarrow> u \<in> set ys" "\<And>u. pc_ok s' ys (pc s' u)"
    and lock: "\<And>u. holds_lock (pc s' u) \<longleftrightarrow> lock s' = Some u"
    and v: "sint (val s') = i + posted s' - acquired s' - int (length ys + unqueued s')"
      "int (length ys + unqueued s') - int (grants s') = max 0 (- sint (val s'))" "sint (val s') \<le> sint (max_val s)"
  shows "sema_inv T i s' ys"
  unfolding sema_inv_def
proof (intro conjI allI impI)
  show "pc s' u \<noteq> Idle \<Longrightarrow> u \<in> T" for u
    using pc sema_invD(3) [OF inv, of u] by (cases "u = t"; cases "u = w") auto
qed (use queue lock v s' sema_invD(8) [OF inv] in auto)

lemma queue_bound:
  assumes "sema_inv T i s xs" "finite T"
  shows "length xs \<le> card T"
proof -
  have "set xs \<subseteq> T" using sema_invD(2,3) [OF assms(1)] by (metis in_queue_def sema_pc.distinct(7,9) subsetI)
  then have "card (set xs) \<le> card T" using assms(2) by (rule card_mono [rotated])
  then show ?thesis using chain_distinct [OF sema_invD(1) [OF assms(1)]] by (simp add: distinct_card)
qed

lemma inv_wait_locked:
  assumes inv: "sema_inv T i s xs" and t: "pc s t = Wait_lock" "lock s = None" and T: "finite T" "card T < 2147483648"
  shows "sema_inv T i (wait_locked t s) xs"
proof (cases "0 < sint (val s)")
  case True
  then show ?thesis
    using t inv take_unit [OF inv] sema_invD(9) [OF inv] inv_value_step [OF inv, of t Idle "val s - 1" "posted s" "acquired s + 1"]
    by (auto simp: wait_locked_def pc_simps)
next
  case False
  note c = counts_unlocked [OF t(2)]
  have "int (length xs) = - sint (val s)" using sema_invD(7) [OF inv] False c by simp
  then have v: "sint (val s - 1) = sint (val s) - 1"
    using queue_bound [OF inv T(1)] T(2) sint_bounds [of "val s"] by (intro sint_sub_range [of _ 1, simplified]) auto
  let ?s = "wait_locked t s"
  have s: "?s = (goto t Wait_enq s)\<lparr>val := val s - 1, lock := Some t\<rparr>" using False by (simp add: wait_locked_def)
  show ?thesis
  proof (rule inv_lock_step [OF inv, where t = t and w = t])
    show "in_queue (pc ?s u) \<longleftrightarrow> u \<in> set xs" for u
      using sema_invD(2) [OF inv, of u] t(1) by (auto simp: s pc_simps)
    show "pc_ok ?s xs (pc ?s u)" for u
      using pc_ok_cong [of ?s s xs xs "pc s u"] sema_invD(5) [OF inv, of u] by (auto simp: s)
    show "holds_lock (pc ?s u) \<longleftrightarrow> lock ?s = Some u" for u
      using sema_invD(4) [OF inv, of u] t by (auto simp: s pc_simps)
    show "sint (val ?s) = i + posted ?s - acquired ?s - int (length xs + unqueued ?s)"
      "int (length xs + unqueued ?s) - int (grants ?s) = max 0 (- sint (val ?s))" "sint (val ?s) \<le> sint (max_val s)"
      using sema_invD(6,7,9) [OF inv] v c False by (auto simp: s unqueued_def grants_def max_def)
  qed (use sema_invD(1,10) [OF inv] sema_invD(3) [OF inv, of t] t in \<open>auto simp: s\<close>)
qed

lemma inv_wait_enqueue:
  assumes inv: "sema_inv T i s xs" and t: "pc s t = Wait_enq"
  shows "sema_inv T i (wait_enqueue t s) (t # xs)"
proof -
  obtain first h tag where e: "emplace t (sq s, thr s, order_tag s) = (first, h, tag)" by (metis prod_cases3)
  let ?s = "wait_enqueue t s"
  have s: "?s = (goto t Asleep s)\<lparr>sq := first, thr := h, order_tag := tag, lock := None\<rparr>" using e by (simp add: wait_enqueue_def)
  have l: "lock s = Some t" using sema_invD(4) [OF inv, of t] t by (simp add: pc_simps)
  have n: "t \<notin> set xs" using sema_invD(2) [OF inv, of t] t by (simp add: pc_simps)
  show ?thesis
  proof (rule inv_lock_step [OF inv, where t = t and w = t])
    show "chain (thr ?s) (sq ?s) (t # xs)" using emplace_chain(1) [OF sema_invD(1) [OF inv] n e] by (simp add: s)
    show "in_queue (pc ?s u) \<longleftrightarrow> u \<in> set (t # xs)" for u
      using sema_invD(2) [OF inv, of u] by (auto simp: s pc_simps)
    show "holds_lock (pc ?s u) \<longleftrightarrow> lock ?s = Some u" for u
      using sema_invD(4) [OF inv, of u] l by (auto simp: s pc_simps)
    then show "pc_ok ?s (t # xs) (pc ?s u)" for u
      using sema_invD(5) [OF inv, of u] by (cases "pc ?s u") (auto simp: s pc_simps split: if_splits)
    show "sint (val ?s) = i + posted ?s - acquired ?s - int (length (t # xs) + unqueued ?s)"
      "int (length (t # xs) + unqueued ?s) - int (grants ?s) = max 0 (- sint (val ?s))" "sint (val ?s) \<le> sint (max_val s)"
      using sema_invD(6,7,9) [OF inv] l t by (auto simp: s unqueued_def grants_def)
  qed (use sema_invD(10) [OF inv] sema_invD(3) [OF inv, of t] t in \<open>auto simp: s\<close>)
qed

lemma remove1_count: "t \<in> set xs \<Longrightarrow> int (length (remove1 t xs)) = int (length xs) - 1"
  by (cases xs) (auto simp: length_remove1 dest: length_pos_if_in_set)

lemma unlocked_pc: "sema_inv T i s xs \<Longrightarrow> lock s = None \<Longrightarrow> \<not> holds_lock (pc s u)"
  using sema_invD(4) [of T i s xs u] by simp

lemma inv_wait_timeout:
  assumes inv: "sema_inv T i s xs" and t: "pc s t = Asleep \<or> pc s t = Woken" "lock s = None"
  shows "\<exists>ys. sema_inv T i (wait_timeout t s) ys"
proof (cases "t \<in> set xs")
  case False
  then have "pc s t = Woken" using sema_invD(2) [OF inv, of t] t(1) by (auto simp: pc_simps)
  then have "sema_inv T i (goto t Idle s) xs" using inv by (auto simp: pc_simps intro!: inv_move)
  then show ?thesis using unqueue_absent [OF sema_invD(1) [OF inv] False] by (auto simp: wait_timeout_def)
next
  case True
  obtain first h where u: "unqueue True t (sq s, thr s) = Some (Some t, first, h)" "chain h first (remove1 t xs)"
    "\<forall>u. again (h u) = again (thr s u)" using unqueue_chain [OF sema_invD(1) [OF inv] True] by blast
  let ?s = "wait_timeout t s"
  have s: "?s = (goto t Timed_inc s)\<lparr>sq := first, thr := h, lock := Some t\<rparr>" using u(1) by (simp add: wait_timeout_def)
  have d: "distinct xs" using chain_distinct [OF sema_invD(1) [OF inv]] .
  have c': "unqueued ?s = 1" "grants ?s = 0" by (simp_all add: s unqueued_def grants_def)
  note c = counts_unlocked [OF t(2)] remove1_count [OF True] c'
  have "sema_inv T i ?s (remove1 t xs)"
  proof (rule inv_lock_step [OF inv, where t = t and w = t])
    show "in_queue (pc ?s u) \<longleftrightarrow> u \<in> set (remove1 t xs)" for u
      using sema_invD(2) [OF inv, of u] d by (auto simp: s pc_simps)
    show "pc_ok ?s (remove1 t xs) (pc ?s u)" for u
      using unlocked_pc [OF inv t(2), of u] sema_invD(5) [OF inv, of u] by (cases "pc s u") (auto simp: s pc_simps)
    show "holds_lock (pc ?s u) \<longleftrightarrow> lock ?s = Some u" for u
      using unlocked_pc [OF inv t(2), of u] by (auto simp: s pc_simps)
    show "sint (val ?s) = i + posted ?s - acquired ?s - int (length (remove1 t xs) + unqueued ?s)"
      "int (length (remove1 t xs) + unqueued ?s) - int (grants ?s) = max 0 (- sint (val ?s))" "sint (val ?s) \<le> sint (max_val s)"
      using sema_invD(6,7,9) [OF inv] c by (auto simp: s)
  qed (use sema_invD(10) [OF inv] sema_invD(3) [OF inv, of t] t u(2) in \<open>auto simp: s\<close>)
  then show ?thesis by blast
qed

lemma inv_timeout_increment:
  assumes inv: "sema_inv T i s xs" and t: "pc s t = Timed_inc"
  shows "sema_inv T i (timeout_increment t s) xs"
proof -
  have l: "lock s = Some t" using sema_invD(4) [OF inv, of t] t by (simp add: pc_simps)
  then have c: "unqueued s = 1" "grants s = 0" using t by (simp_all add: unqueued_def grants_def)
  then have neg: "sint (val s) < 0" using sema_invD(7) [OF inv] by (auto simp: max_def split: if_splits)
  then have v: "sint (val s + 1) = sint (val s) + 1" using sint_bounds [of "val s"] sint_add_range [of "val s" 1] by simp
  let ?s = "timeout_increment t s"
  have s: "?s = (goto t Idle s)\<lparr>val := val s + 1, lock := None\<rparr>" using neg by (simp add: timeout_increment_def)
  show ?thesis
  proof (rule inv_lock_step [OF inv, where t = t and w = t])
    show "in_queue (pc ?s u) \<longleftrightarrow> u \<in> set xs" for u
      using sema_invD(2) [OF inv, of u] t by (auto simp: s pc_simps)
    show "holds_lock (pc ?s u) \<longleftrightarrow> lock ?s = Some u" for u
      using sema_invD(4) [OF inv, of u] l by (auto simp: s pc_simps)
    show "pc_ok ?s xs (pc ?s u)" for u
      using pc_ok_cong [of ?s s xs xs "pc s u"] sema_invD(5) [OF inv, of u] by (auto simp: s)
    show "sint (val ?s) = i + posted ?s - acquired ?s - int (length xs + unqueued ?s)"
      "int (length xs + unqueued ?s) - int (grants ?s) = max 0 (- sint (val ?s))" "sint (val ?s) \<le> sint (max_val s)"
      using sema_invD(6,7,8) [OF inv] c v neg counts_unlocked [of ?s] by (auto simp: s)
  qed (use sema_invD(1,10) [OF inv] in \<open>auto simp: s\<close>)
qed

lemma inv_wait_stopped:
  assumes inv: "sema_inv T i s xs" and t: "pc s t = Asleep" "lock s = None"
  shows "sema_inv T i (wait_stopped t s) xs"
proof -
  let ?s = "wait_stopped t s"
  note c = counts_unlocked [OF t(2)]
  show ?thesis
  proof (rule inv_lock_step [OF inv, where t = t and w = t])
    show "chain (thr ?s) (sq ?s) xs"
      using sema_invD(1) [OF inv] by (subst chain_cong [of _ _ "thr s"]) (auto simp: wait_stopped_def)
    show "in_queue (pc ?s u) \<longleftrightarrow> u \<in> set xs" for u
      using sema_invD(2) [OF inv, of u] t by (auto simp: wait_stopped_def pc_simps)
    show "pc_ok ?s xs (pc ?s u)" for u
      using unlocked_pc [OF inv t(2), of u] sema_invD(5) [OF inv, of u]
      by (cases "pc s u") (auto simp: wait_stopped_def pc_simps)
    show "holds_lock (pc ?s u) \<longleftrightarrow> lock ?s = Some u" for u
      using unlocked_pc [OF inv t(2), of u] t by (auto simp: wait_stopped_def pc_simps)
    show "sint (val ?s) = i + posted ?s - acquired ?s - int (length xs + unqueued ?s)"
      "int (length xs + unqueued ?s) - int (grants ?s) = max 0 (- sint (val ?s))" "sint (val ?s) \<le> sint (max_val s)"
      using sema_invD(6,7,9) [OF inv] c t(2) counts_unlocked [of ?s] by (auto simp: wait_stopped_def)
  qed (use sema_invD(10) [OF inv] sema_invD(3) [OF inv, of t] t in \<open>auto simp: wait_stopped_def\<close>)
qed

text \<open>The test of the limit is unsigned, and does not overflow although the value may be negative.\<close>

lemma limit_test:
  fixes v mx c :: u32
  assumes "sint v \<le> sint mx" "0 < sint c"
  shows "c \<le> mx - v \<longleftrightarrow> sint v + sint c \<le> sint mx"
proof -
  have "mx - v = word_of_int (sint mx - sint v)" by simp
  then have "uint (mx - v) = (sint mx - sint v) mod 4294967296" by (simp only: uint_word_of_int) simp
  also have "\<dots> = sint mx - sint v" using assms(1) sint_bounds [of mx] sint_bounds [of v] by (intro mod_pos_pos_trivial) auto
  finally have "uint (mx - v) = sint mx - sint v" .
  moreover have "uint c = sint c"
  proof -
    have "uint c = sint c mod 4294967296" using uint_word_of_int [of "sint c", where 'a = 32] by simp
    then show ?thesis using assms(2) sint_bounds [of c] by simp
  qed
  ultimately show ?thesis by (auto simp: word_le_def)
qed

lemma inv_post_locked:
  assumes inv: "sema_inv T i s xs" and t: "pc s t = Post_lock count" "lock s = None"
  shows "sema_inv T i (post_locked t count s) xs"
proof -
  note c = counts_unlocked [OF t(2)]
  have pos: "0 < sint count" using sema_invD(5) [OF inv, of t] t(1) by simp
  have idle: "sema_inv T i (goto t Idle s) xs" using inv t by (auto simp: pc_simps intro!: inv_move)
  note any = any_again_chain [OF sema_invD(1) [OF inv]]
  note lim = limit_test [OF sema_invD(9) [OF inv] pos]
  show ?thesis
  proof (cases "(\<exists>u\<in>set xs. again (thr s u)) \<or> \<not> sint (val s) + sint count \<le> sint (max_val s)")
    case True
    then show ?thesis using idle any lim by (cases "\<exists>u\<in>set xs. again (thr s u)") (auto simp: post_locked_def)
  next
    case False
    then have v: "sint (val s + count) = sint (val s) + sint count"
      using pos sint_bounds [of "max_val s"] sint_bounds [of "val s"] by (intro sint_add_range) auto
    define s' where "s' = s\<lparr>val := val s + count, posted := posted s + sint count\<rparr>"
    have p: "post_locked t count s = (if to_awake (val s) count = 0 then goto t Idle s'
        else (goto t (Post_wake (to_awake (val s) count)) s')\<lparr>lock := Some t\<rparr>)"
      using False any lim by (simp add: post_locked_def s'_def Let_def)
    show ?thesis
    proof (cases "0 \<le> sint (val s)")
      case True
      then have "post_locked t count s = (goto t Idle s)\<lparr>val := val s + count, acquired := acquired s, posted := posted s + sint count\<rparr>"
        by (intro sema_state.equality) (simp_all add: p to_awake_def s'_def)
      then show ?thesis
        using inv_value_step [OF inv, of t Idle "val s + count" "posted s + sint count" "acquired s"] True pos v t False
        by (simp add: pc_simps)
    next
      case neg: False
      let ?n = "to_awake (val s) count" and ?s = "post_locked t count s"
      have n: "int ?n = min (- sint (val s)) (sint count)" using neg pos by (simp add: to_awake_def)
      then have s: "?s = (goto t (Post_wake ?n) s')\<lparr>lock := Some t\<rparr>" using neg pos by (auto simp: p)
      have c': "unqueued ?s = 0" "grants ?s = ?n" by (simp_all add: s unqueued_def grants_def)
      show ?thesis
      proof (rule inv_lock_step [OF inv, where t = t and w = t])
        show "in_queue (pc ?s u) \<longleftrightarrow> u \<in> set xs" for u
          using sema_invD(2) [OF inv, of u] t by (auto simp: s s'_def pc_simps)
        show "pc_ok ?s xs (pc ?s u)" for u
          using pc_ok_cong [of ?s s xs xs "pc s u"] sema_invD(5) [OF inv, of u] n neg pos False by (auto simp: s s'_def)
        show "holds_lock (pc ?s u) \<longleftrightarrow> lock ?s = Some u" for u
          using unlocked_pc [OF inv t(2), of u] by (auto simp: s s'_def pc_simps)
        show "sint (val ?s) = i + posted ?s - acquired ?s - int (length xs + unqueued ?s)"
          "int (length xs + unqueued ?s) - int (grants ?s) = max 0 (- sint (val ?s))" "sint (val ?s) \<le> sint (max_val s)"
          unfolding c' using sema_invD(6,7) [OF inv] c v n neg False by (auto simp: s s'_def)
      qed (use sema_invD(1,10) [OF inv] sema_invD(3) [OF inv, of t] t in \<open>auto simp: s s'_def\<close>)
    qed
  qed
qed

lemma inv_post_wake:
  assumes inv: "sema_inv T i s xs" and t: "pc s t = Post_wake n"
  shows "\<exists>ys. sema_inv T i (post_wake t n s) ys"
proof -
  have l: "lock s = Some t" using sema_invD(4) [OF inv, of t] t by (auto simp: pc_simps)
  then have c: "unqueued s = 0" "grants s = n" using t by (simp_all add: unqueued_def grants_def)
  have n: "0 < n" "\<forall>u\<in>set xs. \<not> again (thr s u)" using sema_invD(5) [OF inv, of t] t by simp_all
  have "xs \<noteq> []" using sema_invD(7) [OF inv] c n(1) by auto
  then obtain u first h where u: "u \<in> set xs" "schedule (protocol s) True (sq s, thr s) = Some (Some u, first, h)"
    "chain h first (remove1 u xs)" "\<forall>v. again (h v) = again (thr s v)"
    using schedule_chain [OF sema_invD(1) [OF inv] _ n(2)] by blast
  have ut: "in_queue (pc s u)" using sema_invD(2) [OF inv, of u] u(1) by simp
  then have "u \<noteq> t" using t by (auto simp: pc_simps)
  have d: "distinct xs" using chain_distinct [OF sema_invD(1) [OF inv]] .
  let ?s = "post_wake t n s" and ?p = "if n = 1 then Idle else Post_wake (n - 1)"
  have s: "?s = s\<lparr>pc := (pc s)(u := Woken, t := ?p), sq := first, thr := h, acquired := acquired s + 1,
      lock := (if n = 1 then None else Some t)\<rparr>"
    using u(2) l by (simp add: post_wake_def Let_def)
  have c': "unqueued ?s = 0" "grants ?s = n - 1" by (auto simp: s unqueued_def grants_def)
  have "sema_inv T i ?s (remove1 u xs)"
  proof (rule inv_lock_step [OF inv, where t = t and w = u])
    show "in_queue (pc ?s v) \<longleftrightarrow> v \<in> set (remove1 u xs)" for v
      using sema_invD(2) [OF inv, of v] t d by (auto simp: s pc_simps)
    show "pc_ok ?s (remove1 u xs) (pc ?s v)" for v
      using pc_ok_cong [of ?s s "remove1 u xs" xs "pc s v"] sema_invD(5) [OF inv, of v] n u(4) set_remove1_subset [of u xs]
      by (auto simp: s)
    show "holds_lock (pc ?s v) \<longleftrightarrow> lock ?s = Some v" for v
      using sema_invD(4) [OF inv, of v] l ut \<open>u \<noteq> t\<close> by (auto simp: s pc_simps)
    show "sint (val ?s) = i + posted ?s - acquired ?s - int (length (remove1 u xs) + unqueued ?s)"
      "int (length (remove1 u xs) + unqueued ?s) - int (grants ?s) = max 0 (- sint (val ?s))" "sint (val ?s) \<le> sint (max_val s)"
      unfolding c' using sema_invD(6,7,9) [OF inv] c n(1) remove1_count [OF u(1)] by (auto simp: s)
  qed (use sema_invD(10) [OF inv] sema_invD(3) [OF inv, of t] sema_invD(3) [OF inv, of u] t ut \<open>u \<noteq> t\<close> u(3) in \<open>auto simp: s pc_simps\<close>)
  then show ?thesis by blast
qed

section \<open>Every interleaving\<close>

text \<open>A new semaphore, with the test of its parameters in \<^verbatim>\<open>sys_semaphore_create\<close>.\<close>

definition new_sema :: "u32 \<Rightarrow> u32 \<Rightarrow> u32 \<Rightarrow> threads \<Rightarrow> u64 \<Rightarrow> sema_state" where
  "new_sema prot initial_val mx h tag = \<lparr>val = initial_val, max_val = mx, protocol = prot, sq = None, thr = h, order_tag = tag,
     lock = None, pc = \<lambda>_. Idle, fatal = False, acquired = 0, posted = 0\<rparr>"

definition valid_create :: "u32 \<Rightarrow> u32 \<Rightarrow> bool" where
  "valid_create initial_val mx \<longleftrightarrow> \<not> (sint mx \<le> 0 \<or> sint mx < sint initial_val \<or> sint initial_val < 0)"

lemma inv_new_sema: "valid_create initial_val mx \<Longrightarrow> sema_inv T (sint initial_val) (new_sema prot initial_val mx h tag) []"
  by (auto simp: sema_inv_def new_sema_def valid_create_def pc_simps unqueued_def grants_def)

lemma inv_step:
  assumes "sema_step T s s'" "sema_inv T i s xs" and T: "finite T" "card T < 2147483648"
  shows "\<exists>ys. sema_inv T i s' ys"
  using assms(1,2)
proof cases
  case (4 t)
  then show ?thesis using inv_wait_enqueue assms(2) by blast
next
  case (5 t)
  then show ?thesis using inv_wait_timeout assms(2) by blast
next
  case (8 t)
  then show ?thesis using inv_move [OF assms(2), of t Idle] by (auto simp: pc_simps)
next
  case (13 t n)
  then show ?thesis using inv_post_wake assms(2) by blast
qed (use assms(2) T in \<open>auto intro: inv_wait_read inv_wait_cas inv_wait_locked inv_timeout_increment inv_wait_stopped
  inv_trywait inv_post_read inv_post_cas inv_post_locked\<close>)

definition sema_reachable :: "tid set \<Rightarrow> sema_state \<Rightarrow> sema_state \<Rightarrow> bool" where
  "sema_reachable T s0 s \<longleftrightarrow> (sema_step T)\<^sup>*\<^sup>* s0 s"

definition few :: "tid set \<Rightarrow> bool" where
  "few T \<longleftrightarrow> finite T \<and> card T < 2147483648"

definition sema_init :: "tid set \<Rightarrow> int \<Rightarrow> sema_state \<Rightarrow> bool" where
  "sema_init T i s \<longleftrightarrow> few T
     \<and> (\<exists>prot initial_val mx h tag. valid_create initial_val mx \<and> i = sint initial_val \<and> s = new_sema prot initial_val mx h tag)"

interpretation sema: invariant_system "sema_init T i" "sema_step T" "\<lambda>s. few T \<and> (\<exists>xs. sema_inv T i s xs)" for T i
proof unfold_locales
  show "few T \<and> (\<exists>xs. sema_inv T i s xs)" if "sema_init T i s" for s
    using that by (auto simp: sema_init_def intro: inv_new_sema)
  show "few T \<and> (\<exists>xs. sema_inv T i s' xs)" if "few T \<and> (\<exists>xs. sema_inv T i s xs)" "sema_step T s s'" for s s'
    using that inv_step [OF that(2)] by (auto simp: few_def)
qed

lemma reachable_sema_inv:
  assumes "sema_reachable T (new_sema prot initial_val mx h tag) s" "valid_create initial_val mx" "few T"
  shows "\<exists>xs. sema_inv T (sint initial_val) s xs"
proof -
  have "sema_init T (sint initial_val) (new_sema prot initial_val mx h tag)"
    using assms(2,3) unfolding sema_init_def by blast
  then show ?thesis using sema.reachable_inv assms(1) unfolding sema_reachable_def by blast
qed

section \<open>Properties\<close>

text \<open>
  C10: in every interleaving of waits, timeouts, stops, attempts and posts by fewer than \<open>2 ^ 31\<close> threads, a semaphore
  hands out no more units than it had initially and received, its value stays within its
  maximum, and neither consistency check of the code fails.
\<close>

theorem sema_units:
  assumes "sema_reachable T (new_sema prot initial_val mx h tag) s" "valid_create initial_val mx" "few T"
  shows "acquired s \<le> sint initial_val + posted s \<and> sint (val s) \<le> sint (max_val s) \<and> \<not> fatal s"
proof -
  obtain xs where inv: "sema_inv T (sint initial_val) s xs" using reachable_sema_inv [OF assms] by blast
  show ?thesis using sema_invD(6,7,9,10) [OF inv] by (auto simp: max_def split: if_splits)
qed

definition sleep_run :: "sema_state" where
  "sleep_run = wait_enqueue 0 (wait_locked 0 (wait_read 0 (new_sema SYS_SYNC_FIFO 0 1 sample_threads 7)))"

lemma sleep_run_reachable: "sema_reachable {0} (new_sema SYS_SYNC_FIFO 0 1 sample_threads 7) sleep_run"
proof -
  let ?s0 = "new_sema SYS_SYNC_FIFO 0 1 sample_threads 7"
  have "sema_step {0} ?s0 (wait_read 0 ?s0)" by (rule sema_step.intros(1)) (simp_all add: new_sema_def)
  moreover have "sema_step {0} (wait_read 0 ?s0) (wait_locked 0 (wait_read 0 ?s0))"
    by (rule sema_step.intros(3)) (simp_all add: new_sema_def wait_read_def)
  moreover have "sema_step {0} (wait_locked 0 (wait_read 0 ?s0)) sleep_run" unfolding sleep_run_def
    by (rule sema_step.intros(4)) (simp_all add: new_sema_def wait_read_def wait_locked_def)
  ultimately show ?thesis unfolding sema_reachable_def by (meson rtranclp.rtrancl_into_rtrancl rtranclp.rtrancl_refl)
qed

lemma sleep_run_state: "lock sleep_run = None" "pc sleep_run 0 = Asleep" "acquired sleep_run = 0" "posted sleep_run = 0"
  "valid_create 0 1" "val sleep_run = - 1" "max_val sleep_run = 1"
  by (simp_all add: sleep_run_def wait_enqueue_def wait_locked_def wait_read_def new_sema_def emplace_def Let_def
      sample_threads_def valid_create_def)

theorem sema_units_witness:
  "acquired sleep_run \<le> sint (0 :: u32) + posted sleep_run \<and> sint (val sleep_run) \<le> sint (max_val sleep_run) \<and> \<not> fatal sleep_run"
  by (rule sema_units [OF sleep_run_reachable]) (simp_all add: sleep_run_state few_def)

text \<open>
  C11: no wakeup is lost: while a thread sleeps on a semaphore and no other thread is inside a critical
  section, all units, the initial and the posted ones, are taken.
\<close>

theorem sema_no_lost_wakeup:
  assumes "sema_reachable T (new_sema prot initial_val mx h tag) s" "valid_create initial_val mx" "few T"
    and "lock s = None" "pc s t = Asleep"
  shows "acquired s = sint initial_val + posted s \<and> sint (val s) < 0"
proof -
  obtain xs where inv: "sema_inv T (sint initial_val) s xs" using reachable_sema_inv [OF assms(1-3)] by blast
  have "t \<in> set xs" using sema_invD(2) [OF inv, of t] assms(5) by (simp add: in_queue_def)
  then have "0 < length xs" by (rule length_pos_if_in_set)
  moreover have "int (length xs) = max 0 (- sint (val s))"
    using sema_invD(7) [OF inv] counts_unlocked [OF assms(4)] by simp
  ultimately have "sint (val s) = - int (length xs)" by linarith
  moreover have "unqueued s = 0" using counts_unlocked [OF assms(4)] by simp
  ultimately show ?thesis using \<open>0 < length xs\<close> sema_invD(6) [OF inv] by linarith
qed

theorem sema_no_lost_wakeup_witness:
  "acquired sleep_run = sint (0 :: u32) + posted sleep_run \<and> sint (val sleep_run) < 0"
  by (rule sema_no_lost_wakeup [OF sleep_run_reachable, where t = 0]) (simp_all add: sleep_run_state few_def)

end
