(* ===== verification/Lv2_Calls.thy ===== *)
theory Lv2_Calls
  imports Lv2_Obj Lv2_Sema
begin

text \<open>
  The system calls on semaphores as the guest sees them (\<^verbatim>\<open>rpcs3/Emu/Cell/lv2/sys_semaphore.cpp\<close>): attributes and results in
  guest memory, ids from the object manager, and the error codes of every branch. Waiting and posting
  are in \<open>Lv2_Sema\<close>; here are the calls that do not block.
\<close>

section \<open>Semaphore objects\<close>

record lv2_sema =
  s_protocol :: u8
  s_key :: u64
  s_name :: "u8 list"
  s_max :: u32
  s_val :: u32

definition sema_traits :: id_traits where
  "sema_traits = lv2_traits 0x96000000"

text \<open>What a call returns, with the guest memory, the ids, the last id of the thread, and the objects.\<close>

type_synonym sema_result = "(error_code \<times> vmem \<times> ptr id_map \<times> u32 \<times> lv2_sema kern) option"

definition sys_semaphore_create :: "addr \<Rightarrow> addr \<Rightarrow> u32 \<Rightarrow> u32 \<Rightarrow> vmem \<times> ptr id_map \<times> u32 \<times> lv2_sema kern \<Rightarrow> sema_result" where
  "sys_semaphore_create sem_id attr initial_val mx = (\<lambda>(mem, m, g, k).
     let fail = (\<lambda>e. Some (e, mem, m, g, k)) in
     if sem_id = 0 \<or> attr = 0 then fail CELL_EFAULT
     else if \<not> valid_create initial_val mx then fail CELL_EINVAL
     else
       (let prot = ld_be32 mem attr; pshared = ld_be32 mem (attr + 4); flags = ld_be32 mem (attr + 16);
            ipc_key = get_key pshared (ld_be64 mem (attr + 8)); name = vm_bytes mem (attr + 24) 8 in
        if prot \<noteq> SYS_SYNC_FIFO \<and> prot \<noteq> SYS_SYNC_PRIORITY then fail CELL_EINVAL
        else (case lv2_create sema_traits pshared ipc_key flags True
                \<lparr>s_protocol = ucast prot, s_key = ipc_key, s_name = name, s_max = mx, s_val = initial_val\<rparr> (m, g, k) of
            None \<Rightarrow> None
          | Some (e, m, g, k) \<Rightarrow>
              if e \<noteq> 0 then Some (e, mem, m, g, k)
              else (case last_id sema_traits g of
                  None \<Rightarrow> None
                | Some i \<Rightarrow> Some (CELL_OK, st_be32 mem sem_id i, m, g, k)))))"

definition sys_semaphore_destroy :: "u32 \<Rightarrow> ptr id_map \<times> lv2_sema kern \<Rightarrow> error_code \<times> ptr id_map \<times> lv2_sema kern" where
  "sys_semaphore_destroy sem_id = lv2_destroy sema_traits (\<lambda>s. if sint (s_val s) < 0 then CELL_EBUSY else 0) sem_id"

definition try_dec :: "ptr \<Rightarrow> lv2_sema kern \<Rightarrow> bool \<times> lv2_sema kern" where
  "try_dec p k = (let s = body (heap k p) in
     if 0 < sint (s_val s) then (True, k\<lparr>heap := (heap k)(p := (heap k p)\<lparr>body := s\<lparr>s_val := s_val s - 1\<rparr>\<rparr>)\<rparr>) else (False, k))"

definition sys_semaphore_trywait :: "u32 \<Rightarrow> ptr id_map \<times> lv2_sema kern \<Rightarrow> error_code \<times> lv2_sema kern" where
  "sys_semaphore_trywait sem_id = (\<lambda>(m, k).
     case idm_check sema_traits m sem_id try_dec k of
       (None, k) \<Rightarrow> (CELL_ESRCH, k)
     | (Some (p, ret), k) \<Rightarrow> (if \<not> ret then CELL_EBUSY else CELL_OK, k))"

definition sys_semaphore_get_value :: "u32 \<Rightarrow> addr \<Rightarrow> vmem \<times> ptr id_map \<times> lv2_sema kern \<Rightarrow> error_code \<times> vmem" where
  "sys_semaphore_get_value sem_id count = (\<lambda>(mem, m, k).
     case idm_check sema_traits m sem_id (\<lambda>p k. (if sint (s_val (body (heap k p))) < 0 then 0 else s_val (body (heap k p)), k)) k of
       (None, k) \<Rightarrow> (CELL_ESRCH, mem)
     | (Some (p, ret), k) \<Rightarrow> if count = 0 then (CELL_EFAULT, mem) else (CELL_OK, st_be32 mem count ret))"

section \<open>Create, then use\<close>

lemma error_codes: "CELL_OK = 0" "CELL_EAGAIN \<noteq> 0" "CELL_EINVAL \<noteq> 0" "CELL_ESRCH \<noteq> 0" "CELL_EBUSY \<noteq> 0" "CELL_EFAULT \<noteq> 0"
  "CELL_EEXIST \<noteq> 0"
  by (simp_all add: CELL_OK_def CELL_EAGAIN_def CELL_EINVAL_def CELL_ESRCH_def CELL_EBUSY_def CELL_EFAULT_def CELL_EEXIST_def)

lemma provider_error: "create_provider t pshared key flags b k = (None, k') \<Longrightarrow> err k \<noteq> 0 \<Longrightarrow> err k' \<noteq> 0"
  by (auto simp: create_provider_def make_shared_def finalize_eq ipc_add_def ipc_get_def Let_def error_codes
      split: if_splits option.splits prod.splits)

lemma provider_body:
  "create_provider t pshared key flags b k = (Some q, k') \<Longrightarrow> pshared \<noteq> SYS_SYNC_PROCESS_SHARED \<or> flags = SYS_SYNC_NEWLY_CREATED
     \<Longrightarrow> body (heap k' q) = b"
  by (auto simp: create_provider_def make_shared_def finalize_eq ipc_add_def ipc_get_def Let_def
      SYS_SYNC_NEWLY_CREATED_def SYS_SYNC_NOT_CREATE_def split: if_splits option.splits prod.splits)

lemma lv2_create_ok:
  assumes c: "lv2_create tr pshared key flags True b (m, g, k) = Some (0, m', g', k')" and base: "id_base tr \<noteq> 0"
  shows "\<exists>q. create_id tr (create_provider (id_type tr) pshared key flags b) (invalid tr) (m, g, k\<lparr>err := CELL_EAGAIN\<rparr>)
    = Some (Some q, m', g', k')"
proof -
  define pv where "pv = create_provider (id_type tr) pshared key flags b"
  obtain i where "import_id tr pv (invalid tr) (m, g, k\<lparr>err := CELL_EAGAIN\<rparr>) = Some (i, m', g', k')" and i: "i = 0 \<Longrightarrow> err k' = 0"
    using c by (auto simp: lv2_create_def pv_def error_codes split: if_splits option.splits prod.splits)
  then obtain r where r: "create_id tr pv (invalid tr) (m, g, k\<lparr>err := CELL_EAGAIN\<rparr>) = Some (r, m', g', k')" "r = None \<Longrightarrow> i = 0"
    using base by (auto simp: import_id_def invalid_def split: option.splits prod.splits)
  have "r \<noteq> None"
  proof
    assume n: "r = None"
    from r(1) have "err k' \<noteq> 0"
    proof (cases rule: create_cases)
      case (slot j keys h)
      then show ?thesis using provider_error [of "id_type tr" pshared key flags b] n by (simp add: pv_def error_codes)
    qed (simp add: error_codes)
    then show False using i r(2) n by simp
  qed
  then show ?thesis using r(1) by (auto simp: pv_def)
qed

lemma lv2_create_found:
  assumes wf: "idm_wf trs n m" and tr: "tr \<in> trs" "id_base tr \<noteq> 0"
    and c: "lv2_create tr pshared key flags True b (m, g, k) = Some (0, m', g', k')"
    and new: "pshared \<noteq> SYS_SYNC_PROCESS_SHARED \<or> flags = SYS_SYNC_NEWLY_CREATED"
  shows "\<exists>j q. find_id tr m' g' = Some (j, q) \<and> body (heap k' q) = b \<and> idm_wf trs n m'"
proof -
  obtain q where q: "create_id tr (create_provider (id_type tr) pshared key flags b) (invalid tr) (m, g, k\<lparr>err := CELL_EAGAIN\<rparr>)
      = Some (Some q, m', g', k')" using lv2_create_ok [OF c tr(2)] by blast
  have "body (heap k' q) = b"
    using q
  proof (cases rule: create_cases)
    case (slot j keys h)
    then show ?thesis using provider_body [OF slot(2) new] by simp
  qed simp
  then show ?thesis using create_Some(1,3) [OF wf tr(1) q] by (auto simp: lookup_def)
qed

text \<open>
  C24: whenever \<^verbatim>\<open>sys_semaphore_create\<close> succeeds for one process, or newly for several, on a well-formed
  object container, the semaphore is found under the id the call stored in guest memory:
  \<^verbatim>\<open>sys_semaphore_get_value\<close> with that id and a non-null result address stores the initial value there.
\<close>

theorem sema_create_then_value:
  assumes wf: "idm_wf trs n m" and tr: "sema_traits \<in> trs" and count: "count \<noteq> 0"
    and c: "sys_semaphore_create sem_id attr initial_val mx (mem, m, g, k) = Some (CELL_OK, mem', m', g', k')"
    and new: "ld_be32 mem (attr + 4) \<noteq> SYS_SYNC_PROCESS_SHARED \<or> ld_be32 mem (attr + 16) = SYS_SYNC_NEWLY_CREATED"
  shows "\<exists>mem''. sys_semaphore_get_value (ld_be32 mem' sem_id) count (mem', m', k') = (CELL_OK, mem'') \<and> ld_be32 mem'' count = initial_val"
proof -
  define b where "b = \<lparr>s_protocol = ucast (ld_be32 mem attr), s_key = get_key (ld_be32 mem (attr + 4)) (ld_be64 mem (attr + 8)),
     s_name = vm_bytes mem (attr + 24) 8, s_max = mx, s_val = initial_val\<rparr>"
  have ok: "valid_create initial_val mx"
    and l: "lv2_create sema_traits (ld_be32 mem (attr + 4)) (s_key b) (ld_be32 mem (attr + 16)) True b (m, g, k) = Some (0, m', g', k')"
    and mem': "mem' = st_be32 mem sem_id g'"
    using c by (auto simp: sys_semaphore_create_def b_def Let_def last_id_def error_codes split: if_splits option.splits prod.splits)
  obtain j q where f: "find_id sema_traits m' g' = Some (j, q)" and b: "body (heap k' q) = b" and wf': "idm_wf trs n m'"
    using lv2_create_found [OF wf tr _ l new] by (auto simp: sema_traits_def lv2_traits_def)
  have "sys_semaphore_get_value g' count (mem', m', k') = (CELL_OK, st_be32 mem' count initial_val)"
    using ok count f b by (simp add: sys_semaphore_get_value_def remove_cases(3) [OF wf' tr] valid_create_def b_def)
  then show ?thesis by (simp add: mem' cell_be32.ld_st)
qed

definition attr_mem :: vmem where
  "attr_mem a = (if a = 0x103 then 1 else if a = 0x106 then 2 else 0)"

lemma attr_mem: "ld_be32 attr_mem 0x100 = 1" "ld_be32 attr_mem 0x104 = 0x200" "ld_be32 attr_mem 0x110 = 0" "ld_be64 attr_mem 0x108 = 0"
  by (simp_all add: ld_be64_def ld_be32_def ld_be16_def ld_u8_def attr_mem_def word_cat_eq push_bit_eq_mult)

definition no_semas :: "lv2_sema kern" where
  "no_semas = \<lparr>heap = \<lambda>_. \<lparr>exists = 0, otype = 0, okey = 0, body = \<lparr>s_protocol = 0, s_key = 0, s_name = [], s_max = 0, s_val = 0\<rparr>\<rparr>,
     next_obj = 0, m_map = \<lambda>_. None, err = 0\<rparr>"

definition one_sema_map :: "ptr id_map" where
  "one_sema_map = \<lparr>vec_data = (replicate 8192 None)[0 := Some 0],
      vec_keys = (replicate 8192 empty_key)[0 := \<lparr>kvalue = 0x96000000, ktype = 0x96000000\<rparr>], highest_index = 1\<rparr>"

definition one_sema :: "lv2_sema kern" where
  "one_sema = no_semas\<lparr>heap := (heap no_semas)(0 := \<lparr>exists = 1, otype = 0x96000000, okey = 0,
     body = \<lparr>s_protocol = 1, s_key = 0, s_name = vm_bytes attr_mem 0x118 8, s_max = 5, s_val = 3\<rparr>\<rparr>), next_obj := 1\<rparr>"

lemma one_sema_create: "sys_semaphore_create 0x200 0x100 3 5 (attr_mem, new_id_map 8192, 0, no_semas)
    = Some (CELL_OK, st_be32 attr_mem 0x200 0x96000000, one_sema_map, 0x96000000, one_sema)"
  by (simp add: sys_semaphore_create_def attr_mem valid_create_def sema_traits_def shared_simps new_id_map_def no_semas_def one_sema_def
      one_sema_map_def last_id_def trait_index_def get_index_def invl_mask_def push_bit_eq_mult SYS_SYNC_FIFO_def SYS_SYNC_PRIORITY_def
      error_codes)

theorem sema_create_then_value_witness:
  "\<exists>mem''. sys_semaphore_get_value (ld_be32 (st_be32 attr_mem 0x200 0x96000000) 0x200) 0x300
     (st_be32 attr_mem 0x200 0x96000000, one_sema_map, one_sema) = (CELL_OK, mem'') \<and> ld_be32 mem'' 0x300 = 3"
proof (rule sema_create_then_value [OF new_lookup(1) [OF sample_traits_ok] _ _ one_sema_create])
  show "ld_be32 attr_mem (0x100 + 4) \<noteq> SYS_SYNC_PROCESS_SHARED \<or> ld_be32 attr_mem (0x100 + 16) = SYS_SYNC_NEWLY_CREATED"
    by (simp add: attr_mem SYS_SYNC_PROCESS_SHARED_def)
qed (simp_all add: sema_traits_def)

end
