(* ===== verification/Lv2_Rwlock.thy ===== *)
theory Lv2_Rwlock
  imports Lv2_Queue
begin

text \<open>
  The kernel reader/writer lock (\<^verbatim>\<open>rpcs3/Emu/Cell/lv2/sys_rwlock.h\<close>, \<^verbatim>\<open>sys_rwlock.cpp\<close>). One word holds the state: twice the id of the
  writer, or minus twice the number of readers, plus one while threads wait. The calls that need not wait change it by compare-and-swap.
  While its lowest bit is set none of them changes it, so that the critical sections that
  set the bit or find it set are single steps. The word has 64 bits and wraps: the runs considered are those in which never more than \<open>2 ^ 62\<close>
  read locks are out, one more would turn its sign.
\<close>

unbundle bit_operations_syntax

section \<open>State\<close>

type_synonym s64 = "64 word"

datatype rw_pc = Idle | R_cas s64 | R_lock | R_asleep | R_stopped | R_woken | RU_cas s64 | RU_lock
  | W_cas bool | W_lock | W_asleep | W_stopped | W_woken | WU_cas | WU_lock

text \<open>
  \<open>readers\<close> and \<open>writer\<close> are not in the code: the read locks given out and not returned, and the thread
  that has the write lock. \<open>failed\<close> is set when the \<^verbatim>\<open>ensure\<close> fails.
\<close>

record rw_state =
  protocol :: u32
  owner :: s64
  rq :: "tid option"
  wq :: "tid option"
  thr :: threads
  order_tag :: u64
  pc :: "tid \<Rightarrow> rw_pc"
  readers :: nat
  writer :: "tid option"
  failed :: bool

abbreviation rw_goto :: "tid \<Rightarrow> rw_pc \<Rightarrow> rw_state \<Rightarrow> rw_state" where
  "rw_goto t p s \<equiv> s\<lparr>pc := (pc s)(t := p)\<rparr>"

text \<open>Thread ids are 32-bit numbers; those of PPU threads are \<open>0x01000000\<close> and the 99 following ones.
  Any positive id that fits the control word, below \<open>2 ^ 31\<close>, is allowed here.\<close>

definition ppu_id :: "tid \<Rightarrow> bool" where
  "ppu_id t \<longleftrightarrow> 0 < t \<and> t < 2 ^ 31"

definition writer_word :: "tid \<Rightarrow> s64" where
  "writer_word t = ucast (push_bit 1 (of_nat t :: u32))"

definition owned_by :: "s64 \<Rightarrow> tid \<Rightarrow> bool" where
  "owned_by v t \<longleftrightarrow> signed_drop_bit 1 v = ucast (of_nat t :: u32)"

definition set_wait :: "s64 \<Rightarrow> s64" where
  "set_wait v = v OR 1"

definition clear_wait :: "s64 \<Rightarrow> s64" where
  "clear_wait v = v AND - 2"

section \<open>Readers\<close>

definition may_read :: "s64 \<Rightarrow> bool" where
  "may_read v \<longleftrightarrow> sint v \<le> 0 \<and> v AND 1 = 0"

definition add_reader :: "rw_state \<Rightarrow> rw_state" where
  "add_reader s = s\<lparr>owner := owner s - 2, readers := readers s + 1\<rparr>"

definition rlock_read :: "tid \<Rightarrow> rw_state \<Rightarrow> rw_state" where
  "rlock_read t s = rw_goto t (if may_read (owner s) then R_cas (owner s) else R_lock) s"

definition rlock_cas :: "tid \<Rightarrow> s64 \<Rightarrow> rw_state \<Rightarrow> rw_state" where
  "rlock_cas t v s = (if owner s = v then rw_goto t Idle (add_reader s) else rw_goto t R_lock s)"

definition rlock_locked :: "tid \<Rightarrow> rw_state \<Rightarrow> rw_state" where
  "rlock_locked t s =
     (if may_read (owner s) then rw_goto t Idle (add_reader s)
      else (case emplace t (rq s, thr s, order_tag s) of
        (first, h, tag) \<Rightarrow> rw_goto t R_asleep (s\<lparr>owner := set_wait (owner s), rq := first, thr := h, order_tag := tag\<rparr>)))"

definition tryrlock :: "rw_state \<Rightarrow> rw_state" where
  "tryrlock s = (if may_read (owner s) then add_reader s else s)"

definition rlock_timeout :: "tid \<Rightarrow> rw_state \<Rightarrow> rw_state" where
  "rlock_timeout t s = (case unqueue True t (rq s, thr s) of
       Some (r, first, h) \<Rightarrow> rw_goto t Idle (s\<lparr>rq := first, thr := h\<rparr>)
     | None \<Rightarrow> s)"

definition runlock_read :: "tid \<Rightarrow> rw_state \<Rightarrow> rw_state" where
  "runlock_read t s = rw_goto t (if sint (owner s) < 0 \<and> owner s AND 1 = 0 then RU_cas (owner s) else RU_lock) s"

definition runlock_cas :: "tid \<Rightarrow> s64 \<Rightarrow> rw_state \<Rightarrow> rw_state" where
  "runlock_cas t v s =
     (if owner s = v then rw_goto t Idle (s\<lparr>owner := owner s + 2, readers := readers s - 1\<rparr>) else rw_goto t RU_lock s)"

text \<open>The lock is given to a writer; the lowest bit says whether more threads wait.\<close>

definition give_to_writer :: "tid \<Rightarrow> tid option \<Rightarrow> threads \<Rightarrow> rw_state \<Rightarrow> rw_state" where
  "give_to_writer u first h s = rw_goto u W_woken (s\<lparr>wq := first, thr := h, writer := Some u,
     owner := writer_word u OR of_bool (first \<noteq> None) OR of_bool (rq s \<noteq> None)\<rparr>)"

definition runlock_locked :: "tid \<Rightarrow> rw_state \<Rightarrow> rw_state" where
  "runlock_locked t s =
     (if sint (owner s) < - 1 then rw_goto t Idle (s\<lparr>owner := owner s + 2, readers := readers s - 1\<rparr>)
      else if 0 \<le> sint (owner s) then rw_goto t Idle s
      else (case schedule (protocol s) True (wq s, thr s) of
          None \<Rightarrow> s
        | Some (Some u, first, h) \<Rightarrow> if again (h u) then rw_goto t Idle s
            else give_to_writer u first h (rw_goto t Idle (s\<lparr>readers := readers s - 1\<rparr>))
        | Some (None, first, h) \<Rightarrow> rw_goto t Idle (s\<lparr>owner := 0, readers := readers s - 1, failed := failed s \<or> rq s \<noteq> None\<rparr>)))"

section \<open>Writers\<close>

text \<open>The flag of \<open>W_cas\<close> tells a call that waits from one that does not.\<close>

definition wlock_read :: "tid \<Rightarrow> bool \<Rightarrow> rw_state \<Rightarrow> rw_state" where
  "wlock_read t blocking s = rw_goto t (if owner s = 0 then W_cas blocking
     else if owned_by (owner s) t \<or> \<not> blocking then Idle else W_lock) s"

definition take_write :: "tid \<Rightarrow> rw_state \<Rightarrow> rw_state" where
  "take_write t s = rw_goto t Idle (s\<lparr>owner := writer_word t, writer := Some t\<rparr>)"

definition wlock_cas :: "tid \<Rightarrow> bool \<Rightarrow> rw_state \<Rightarrow> rw_state" where
  "wlock_cas t blocking s = (if owner s = 0 then take_write t s else rw_goto t (if blocking then W_lock else Idle) s)"

definition wlock_locked :: "tid \<Rightarrow> rw_state \<Rightarrow> rw_state" where
  "wlock_locked t s =
     (if owner s = 0 then take_write t s
      else (case emplace t (wq s, thr s, order_tag s) of
        (first, h, tag) \<Rightarrow> rw_goto t W_asleep (s\<lparr>owner := set_wait (owner s), wq := first, thr := h, order_tag := tag\<rparr>)))"

text \<open>The loop that wakes all waiting readers, with the threads woken so far.\<close>

partial_function (option) wake_readers :: "tid option \<times> threads \<Rightarrow> tid list \<Rightarrow> (tid list \<times> tid option \<times> threads) option" where
  [code]: "wake_readers q woken = (case schedule SYS_SYNC_FIFO True q of
       None \<Rightarrow> None
     | Some (None, q) \<Rightarrow> Some (woken, q)
     | Some (Some u, q) \<Rightarrow> wake_readers q (woken @ [u]))"

definition awake_all :: "tid list \<Rightarrow> (tid \<Rightarrow> rw_pc) \<Rightarrow> tid \<Rightarrow> rw_pc" where
  "awake_all woken p u = (if u \<in> set woken then R_woken else p u)"

text \<open>A writer whose time is over; the result \<open>None\<close> is a call that never returns.\<close>

definition wlock_timeout :: "tid \<Rightarrow> rw_state \<Rightarrow> rw_state option" where
  "wlock_timeout t s = (case unqueue True t (wq s, thr s) of
       None \<Rightarrow> None
     | Some (None, first, h) \<Rightarrow> Some (rw_goto t Idle s)
     | Some (Some u, first, h) \<Rightarrow>
         (let s = rw_goto t Idle (s\<lparr>wq := first, thr := h\<rparr>) in
          if rq s \<noteq> None \<and> first = None \<and> sint (owner s) < 0 then
            (case wake_readers (rq s, h) [] of
               None \<Rightarrow> None
             | Some (woken, first, h) \<Rightarrow> Some (s\<lparr>rq := first, thr := h, owner := clear_wait (owner s - 2 * of_nat (length woken)),
                 readers := readers s + length woken, pc := awake_all woken (pc s)\<rparr>))
          else if rq s = None \<and> first = None then Some (s\<lparr>owner := clear_wait (owner s)\<rparr>)
          else Some s))"

definition rw_stopped :: "tid \<Rightarrow> rw_pc \<Rightarrow> rw_state \<Rightarrow> rw_state" where
  "rw_stopped t p s = (rw_goto t p s)\<lparr>thr := (thr s)(t := (thr s t)\<lparr>again := True\<rparr>)\<rparr>"

definition wunlock_read :: "tid \<Rightarrow> rw_state \<Rightarrow> rw_state" where
  "wunlock_read t s = rw_goto t (if owner s = writer_word t then WU_cas else if owned_by (owner s) t then WU_lock else Idle) s"

definition wunlock_cas :: "tid \<Rightarrow> rw_state \<Rightarrow> rw_state" where
  "wunlock_cas t s =
     (if owner s = writer_word t then rw_goto t Idle (s\<lparr>owner := 0, writer := None\<rparr>)
      else if owned_by (owner s) t then rw_goto t WU_lock s else rw_goto t Idle s)"

definition wunlock_locked :: "tid \<Rightarrow> rw_state \<Rightarrow> rw_state option" where
  "wunlock_locked t s = (case schedule (protocol s) True (wq s, thr s) of
       None \<Rightarrow> None
     | Some (Some u, first, h) \<Rightarrow> Some (if again (h u) then rw_goto t Idle s else give_to_writer u first h (rw_goto t Idle s))
     | Some (None, first, h) \<Rightarrow>
         if rq s \<noteq> None then
           (case any_again (thr s) (rq s) of
              None \<Rightarrow> None
            | Some True \<Rightarrow> Some (rw_goto t Idle s)
            | Some False \<Rightarrow> (case wake_readers (rq s, thr s) [] of
                None \<Rightarrow> None
              | Some (woken, first, h) \<Rightarrow> Some (s\<lparr>rq := first, thr := h, owner := - 2 * of_nat (length woken), writer := None,
                  readers := readers s + length woken, pc := awake_all woken ((pc s)(t := Idle))\<rparr>)))
         else Some (rw_goto t Idle (s\<lparr>owner := 0, writer := None\<rparr>)))"

inductive rw_step :: "rw_state \<Rightarrow> rw_state \<Rightarrow> bool" where
  rlock_read: "ppu_id t \<Longrightarrow> pc s t = Idle \<Longrightarrow> rw_step s (rlock_read t s)"
| rlock_cas: "pc s t = R_cas v \<Longrightarrow> rw_step s (rlock_cas t v s)"
| rlock_locked: "pc s t = R_lock \<Longrightarrow> rw_step s (rlock_locked t s)"
| tryrlock: "rw_step s (tryrlock s)"
| rlock_timeout: "pc s t = R_asleep \<or> pc s t = R_woken \<Longrightarrow> rw_step s (rlock_timeout t s)"
| rlock_stopped: "pc s t = R_asleep \<Longrightarrow> rw_step s (rw_stopped t R_stopped s)"
| rlock_woken: "pc s t = R_woken \<Longrightarrow> rw_step s (rw_goto t Idle s)"
| runlock_read: "ppu_id t \<Longrightarrow> pc s t = Idle \<Longrightarrow> rw_step s (runlock_read t s)"
| runlock_cas: "pc s t = RU_cas v \<Longrightarrow> rw_step s (runlock_cas t v s)"
| runlock_locked: "pc s t = RU_lock \<Longrightarrow> rw_step s (runlock_locked t s)"
| wlock_read: "ppu_id t \<Longrightarrow> pc s t = Idle \<Longrightarrow> rw_step s (wlock_read t b s)"
| wlock_cas: "pc s t = W_cas b \<Longrightarrow> rw_step s (wlock_cas t b s)"
| wlock_locked: "pc s t = W_lock \<Longrightarrow> rw_step s (wlock_locked t s)"
| wlock_timeout: "pc s t = W_asleep \<or> pc s t = W_woken \<Longrightarrow> wlock_timeout t s = Some s' \<Longrightarrow> rw_step s s'"
| wlock_stopped: "pc s t = W_asleep \<Longrightarrow> rw_step s (rw_stopped t W_stopped s)"
| wlock_woken: "pc s t = W_woken \<Longrightarrow> rw_step s (rw_goto t Idle s)"
| wunlock_read: "ppu_id t \<Longrightarrow> pc s t = Idle \<Longrightarrow> rw_step s (wunlock_read t s)"
| wunlock_cas: "pc s t = WU_cas \<Longrightarrow> rw_step s (wunlock_cas t s)"
| wunlock_locked: "pc s t = WU_lock \<Longrightarrow> wunlock_locked t s = Some s' \<Longrightarrow> rw_step s s'"

section \<open>Waking the readers\<close>

lemma schedule_stopped_last:
  assumes "chain h first xs" "xs \<noteq> []" "again (h (last xs))"
  shows "schedule SYS_SYNC_FIFO True (first, h) = Some (Some (last xs), first, h)"
proof (rule schedule_position [OF assms(1,2), where protocol = SYS_SYNC_FIFO and modify_node = True])
  fix as t bs
  assume "xs = as @ t # bs" "SYS_SYNC_FIFO = SYS_SYNC_FIFO \<Longrightarrow> bs = []" and s: "schedule SYS_SYNC_FIFO True (first, h) = Some (Some t,
       if again (h t) then (first, h)
       else (case set_link (link_of as) (next_cpu (h t)) (first, h) of
         (first, h) \<Rightarrow> (first, if True \<and> SYS_SYNC_FIFO \<noteq> SYS_SYNC_FIFO then set_next t None h else h)))"
  then have "last xs = t" by simp
  then show ?thesis using s assms(3) by simp
qed

text \<open>A stopped thread is returned again and again.\<close>

lemma wake_readers_progress:
  assumes "wake_readers q woken = Some r"
  shows "schedule SYS_SYNC_FIFO True q \<noteq> Some (Some u, q)"
proof (rule wake_readers.raw_induct [where P = "\<lambda>q woken r. schedule SYS_SYNC_FIFO True q \<noteq> Some (Some u, q)", OF _ assms])
  fix wake :: "tid option \<times> threads \<Rightarrow> tid list \<Rightarrow> (tid list \<times> tid option \<times> threads) option" and q woken r
  assume IH: "\<And>q woken r. wake q woken = Some r \<Longrightarrow> schedule SYS_SYNC_FIFO True q \<noteq> Some (Some u, q)"
    and r: "(case schedule SYS_SYNC_FIFO True q of None \<Rightarrow> None | Some (None, q) \<Rightarrow> Some (woken, q)
      | Some (Some u, q) \<Rightarrow> wake q (woken @ [u])) = Some r"
  show "schedule SYS_SYNC_FIFO True q \<noteq> Some (Some u, q)"
  proof
    assume s: "schedule SYS_SYNC_FIFO True q = Some (Some u, q)"
    then have "wake q (woken @ [u]) = Some r" using r by simp
    then show False using IH s by blast
  qed
qed

lemma wake_readers_stuck: "schedule SYS_SYNC_FIFO True q = Some (Some u, q) \<Longrightarrow> wake_readers q woken = None"
  using wake_readers_progress [of q woken] by (cases "wake_readers q woken") auto

lemma wake_readers_chain:
  assumes "chain h first xs"
  shows "if \<exists>t\<in>set xs. again (h t) then wake_readers (first, h) woken = None
    else \<exists>h' ws. wake_readers (first, h) woken = Some (woken @ ws, None, h') \<and> set ws = set xs \<and> length ws = length xs
      \<and> (\<forall>u. again (h' u) = again (h u)) \<and> (\<forall>u. u \<notin> set xs \<longrightarrow> next_cpu (h' u) = next_cpu (h u))"
  using assms
proof (induction xs arbitrary: h first woken rule: rev_induct)
  case Nil
  then show ?case by (subst wake_readers.simps) (simp add: schedule_def)
next
  case (snoc t xs)
  show ?case
  proof (cases "again (h t)")
    case True
    then show ?thesis using wake_readers_stuck [OF schedule_stopped_last [OF snoc.prems]] by auto
  next
    case False
    have ne: "xs @ [t] \<noteq> []" by simp
    have d: "distinct (xs @ [t])" using chain_distinct [OF snoc.prems] .
    show ?thesis
    proof (rule schedule_frame [OF snoc.prems ne, where prot = SYS_SYNC_FIFO])
      fix u
      assume "u \<in> set (xs @ [t])" "again (h u)" and s: "schedule SYS_SYNC_FIFO True (first, h) = Some (Some u, first, h)"
      then show ?thesis using wake_readers_stuck [OF s] by auto
    next
      fix u first' h'
      assume s: "schedule SYS_SYNC_FIFO True (first, h) = Some (Some u, first', h')" "chain h' first' (remove1 u (xs @ [t]))"
        "\<And>v. again (h' v) = again (h v)" "\<And>v. v \<notin> set (xs @ [t]) \<Longrightarrow> next_cpu (h' v) = next_cpu (h v)"
        "SYS_SYNC_FIFO = SYS_SYNC_FIFO \<Longrightarrow> u = last (xs @ [t])"
      then have u: "u = t" by simp
      have c: "chain h' first' xs" using s(2) d unfolding u by (simp add: remove1_append)
      have step: "wake_readers (first, h) woken = wake_readers (first', h') (woken @ [t])"
        by (subst wake_readers.simps) (simp add: s(1) u)
      show ?thesis
      proof (cases "\<exists>v\<in>set xs. again (h v)")
        case True
        then show ?thesis using snoc.IH [OF c, of "woken @ [t]"] s(3) step by auto
      next
        case none: False
        then obtain h'' ws where w: "wake_readers (first', h') (woken @ [t]) = Some ((woken @ [t]) @ ws, None, h'')" "set ws = set xs"
          "length ws = length xs" "\<forall>u. again (h'' u) = again (h' u)" "\<forall>u. u \<notin> set xs \<longrightarrow> next_cpu (h'' u) = next_cpu (h' u)"
          using snoc.IH [OF c, of "woken @ [t]"] s(3) by auto
        have "\<exists>h' ws. wake_readers (first, h) woken = Some (woken @ ws, None, h') \<and> set ws = set (xs @ [t]) \<and> length ws = length (xs @ [t])
          \<and> (\<forall>u. again (h' u) = again (h u)) \<and> (\<forall>u. u \<notin> set (xs @ [t]) \<longrightarrow> next_cpu (h' u) = next_cpu (h u))"
          using w s(3,4) step by (intro exI [of _ h''] exI [of _ "t # ws"]) simp
        then show ?thesis using none False by auto
      qed
    qed
  qed
qed

section \<open>The word\<close>

text \<open>The operations on the word, on the number it stands for.\<close>

definition odd_up :: "int \<Rightarrow> int" where
  "odd_up v = (if odd v then v else v + 1)"

definition even_down :: "int \<Rightarrow> int" where
  "even_down v = (if odd v then v - 1 else v)"

definition free_int :: "int \<Rightarrow> bool" where
  "free_int v \<longleftrightarrow> v \<le> 0 \<and> even v"

definition base :: "tid option \<Rightarrow> nat \<Rightarrow> int" where
  "base w n = (case w of Some u \<Rightarrow> 2 * int u | None \<Rightarrow> - 2 * int n)"

text \<open>The word encodes the writer or the readers; its bit is set while threads wait, and beside readers only while a writer waits.\<close>

definition word_ok :: "int \<Rightarrow> nat \<Rightarrow> tid option \<Rightarrow> bool \<Rightarrow> bool \<Rightarrow> bool" where
  "word_ok v n w r q \<longleftrightarrow> even_down v = base w n \<and> (\<forall>u. w = Some u \<longrightarrow> 0 < u \<and> n = 0) \<and> (r \<or> q \<longrightarrow> odd v)
     \<and> (w = None \<and> odd v \<longrightarrow> q \<and> 0 < n)"

lemma word_cases:
  assumes "word_ok v n w r q"
  obtains (free) "w = None" "v = - 2 * int n" "\<not> r" "\<not> q"
  | (waiting) "w = None" "v = 1 - 2 * int n" "q" "0 < n"
  | (written) u b where "w = Some u" "0 < u" "n = 0" "v = 2 * int u + (if b then 1 else 0)" "r \<or> q \<Longrightarrow> b"
proof (cases w)
  case None
  show ?thesis
  proof (cases "odd v")
    case True
    then show ?thesis using assms None waiting by (simp add: word_ok_def even_down_def base_def)
  next
    case False
    then show ?thesis using assms None free by (simp add: word_ok_def even_down_def base_def)
  qed
next
  case (Some u)
  then show ?thesis using assms written [of u "odd v"] by (auto simp: word_ok_def even_down_def base_def split: if_splits)
qed

lemma word_free: "word_ok (- 2 * int n) n None False False"
  by (simp add: word_ok_def even_down_def base_def)

lemma word_waiting: "0 < n \<Longrightarrow> word_ok (1 - 2 * int n) n None r True"
  by (simp add: word_ok_def even_down_def base_def)

lemma word_written: "0 < u \<Longrightarrow> (r \<or> q \<longrightarrow> b) \<Longrightarrow> word_ok (2 * int u + (if b then 1 else 0)) 0 (Some u) r q"
  by (auto simp: word_ok_def even_down_def base_def)

lemma word_read:
  assumes "word_ok v n w r q" "free_int v"
  shows "word_ok (v - 2) (n + 1) w r q \<and> w = None \<and> \<not> r \<and> \<not> q"
  using assms(1)
proof (cases rule: word_cases)
  case free
  then have "v - 2 = - 2 * int (n + 1)" by simp
  then show ?thesis using free word_free [of "n + 1"] by (simp only:) simp
qed (use assms(2) in \<open>auto simp: free_int_def split: if_splits\<close>)

lemma word_unread:
  assumes "word_ok v n w r q" "v < - 1 \<or> v < 0 \<and> even v"
  shows "word_ok (v + 2) (n - 1) w r q \<and> w = None"
  using assms(1)
proof (cases rule: word_cases)
  case free
  then have "0 < n" using assms(2) by auto
  then have "v + 2 = - 2 * int (n - 1)" using free by (simp add: of_nat_diff)
  then show ?thesis using free word_free [of "n - 1"] by (simp only:)
next
  case waiting
  then have "1 < n" using assms(2) by auto
  then have "v + 2 = 1 - 2 * int (n - 1)" using waiting by (simp add: of_nat_diff)
  then show ?thesis using waiting word_waiting [of "n - 1" r] \<open>1 < n\<close> by (simp only: zero_less_diff)
qed (use assms(2) in \<open>auto split: if_splits\<close>)

lemma word_last_reader: "word_ok (- 1) n w r q \<Longrightarrow> n = 1 \<and> w = None \<and> q"
  by (erule word_cases) (auto split: if_splits, presburger)

lemma word_zero:
  assumes "word_ok 0 n w r q"
  shows "n = 0 \<and> w = None \<and> \<not> r \<and> \<not> q"
  using assms
proof (cases rule: word_cases)
  case waiting
  then show ?thesis by presburger
next
  case (written u b)
  then show ?thesis by (simp split: if_splits)
qed simp

lemma word_reader_waits:
  assumes "word_ok v n w r q" "\<not> free_int v"
  shows "word_ok (odd_up v) n w True q"
  using assms(1)
proof (cases rule: word_cases)
  case free
  then show ?thesis using assms(2) by (simp add: free_int_def)
next
  case waiting
  then show ?thesis using word_waiting [of n True] by (simp add: odd_up_def)
next
  case (written u b)
  then show ?thesis using word_written [of u True q True] by (auto simp: odd_up_def)
qed

lemma word_writer_waits:
  assumes "word_ok v n w r q" "v \<noteq> 0"
  shows "word_ok (odd_up v) n w r True"
  using assms(1)
proof (cases rule: word_cases)
  case free
  then show ?thesis using assms(2) word_waiting [of n r] by (simp add: odd_up_def algebra_simps)
next
  case waiting
  then show ?thesis using word_waiting [of n r] by (simp add: odd_up_def)
next
  case (written u b)
  then show ?thesis using word_written [of u r True True] by (auto simp: odd_up_def)
qed

lemma word_reader_leaves: "word_ok v n w True q \<Longrightarrow> word_ok v n w r q"
  by (auto simp: word_ok_def)

lemma word_last_writer_leaves:
  assumes "word_ok v n w r True"
  shows "v < 0 \<Longrightarrow> word_ok (even_down (v - 2 * int k)) (n + k) w False False"
    "\<not> v < 0 \<Longrightarrow> word_ok v n w r False" "word_ok (even_down v) n w False False"
  using assms
proof (atomize (full), cases rule: word_cases)
  case waiting
  show "(v < 0 \<longrightarrow> word_ok (even_down (v - 2 * int k)) (n + k) w False False) \<and> (\<not> v < 0 \<longrightarrow> word_ok v n w r False)
      \<and> word_ok (even_down v) n w False False"
  proof -
    have "even_down (v - 2 * int k) = - 2 * int (n + k)" "even_down v = - 2 * int n" "v < 0" using waiting by (simp_all add: even_down_def)
    then show ?thesis using waiting(1) word_free [of "n + k"] word_free [of n] by simp
  qed
next
  case (written u b)
  then show "(v < 0 \<longrightarrow> word_ok (even_down (v - 2 * int k)) (n + k) w False False) \<and> (\<not> v < 0 \<longrightarrow> word_ok v n w r False)
      \<and> word_ok (even_down v) n w False False"
    using word_written [of u r False b] word_written [of u False False False] by (simp add: even_down_def)
qed simp

subsection \<open>At its width\<close>

lemma even_sint: "even (sint v) \<longleftrightarrow> even v" for v :: s64
  using bit_0 [of "sint v"] bit_0 [of v] by (simp add: bit_signed_iff)

lemma and_1_sint: "v AND 1 = 0 \<longleftrightarrow> even (sint v)" for v :: s64
  by (simp add: and_one_eq even_sint mod_2_eq_odd)

lemma may_read_sint: "may_read v \<longleftrightarrow> free_int (sint v)"
  by (simp add: may_read_def free_int_def and_1_sint)

lemma set_wait_sint: "sint (set_wait v) = odd_up (sint v)"
  unfolding set_wait_def odd_up_def by (simp only: signed_or_eq) (simp add: or_one_eq)

lemma clear_wait_sint: "sint (clear_wait v) = even_down (sint v)"
proof -
  have "i AND - 2 = 2 * (i div 2)" for i :: int by (subst and_int_rec) simp
  then show ?thesis unfolding clear_wait_def even_down_def by (simp only: signed_and_eq) (auto elim!: evenE oddE)
qed

lemma sint_in_range: "- (2 ^ 63) \<le> i \<Longrightarrow> i < 2 ^ 63 \<Longrightarrow> sint (of_int i :: s64) = i"
  by (simp add: signed_of_int signed_take_bit_int_eq_self)

lemma sint_plus: "- (2 ^ 63) \<le> sint v + i \<Longrightarrow> sint v + i < 2 ^ 63 \<Longrightarrow> sint (v + of_int i) = sint v + i" for v :: s64
  using sint_in_range [of "sint v + i"] by simp

lemma sint_0_iff: "v = 0 \<longleftrightarrow> sint v = 0" for v :: s64
  by (metis signed_0 signed_word_eqI)

lemma ucast_tid: "t < 2 ^ 32 \<Longrightarrow> ucast (of_nat t :: u32) = (of_int (int t) :: s64)"
proof -
  assume "t < 2 ^ 32"
  then have "unat (of_nat t :: u32) = t" by (simp only: unat_of_nat) (simp add: take_bit_nat_eq_self)
  then show ?thesis by (metis of_int_of_nat_eq of_nat_unat)
qed

lemma writer_word_sint: "ppu_id t \<Longrightarrow> sint (writer_word t) = 2 * int t"
proof -
  assume t: "ppu_id t"
  have "push_bit 1 (of_nat t :: u32) = of_nat (2 * t)" by (simp add: push_bit_eq_mult)
  then have "writer_word t = of_int (int (2 * t))" unfolding writer_word_def using t ucast_tid [of "2 * t"] by (simp only: ppu_id_def) simp
  then show ?thesis using sint_in_range [of "int (2 * t)"] t by (simp add: ppu_id_def)
qed

lemma writer_word_iff: "ppu_id t \<Longrightarrow> v = writer_word t \<longleftrightarrow> sint v = 2 * int t"
  by (metis signed_word_eqI writer_word_sint)

lemma owned_by_sint: "ppu_id t \<Longrightarrow> owned_by v t \<longleftrightarrow> sint v div 2 = int t"
proof -
  assume t: "ppu_id t"
  have "sint (signed_drop_bit 1 v) = sint v div 2" by (simp add: sint_signed_drop_bit_eq drop_bit_Suc)
  moreover have "sint (ucast (of_nat t :: u32) :: s64) = int t"
    using t ucast_tid [of t] sint_in_range [of "int t"] by (simp add: ppu_id_def)
  ultimately show ?thesis unfolding owned_by_def by (metis signed_word_eqI)
qed

text \<open>Never more read locks are out than the word can count.\<close>

definition max_readers :: nat where
  "max_readers = 2 ^ 62"

definition lock_ok :: "s64 \<Rightarrow> nat \<Rightarrow> tid option \<Rightarrow> bool \<Rightarrow> bool \<Rightarrow> bool" where
  "lock_ok v n w r q \<longleftrightarrow> word_ok (sint v) n w r q \<and> n \<le> max_readers"

lemmas lock_defs = lock_ok_def word_ok_def

lemma lock_free: "n \<le> max_readers \<Longrightarrow> lock_ok (- 2 * of_nat n) n None False False"
proof -
  assume n: "n \<le> max_readers"
  then have "sint (of_int (- 2 * int n) :: s64) = - 2 * int n" by (intro sint_in_range) (simp_all add: max_readers_def)
  then show ?thesis using word_free [of n] n by (simp add: lock_ok_def)
qed

lemma lock_written: "ppu_id u \<Longrightarrow> (r \<or> q \<longrightarrow> b \<or> c) \<Longrightarrow> lock_ok (writer_word u OR of_bool b OR of_bool c) 0 (Some u) r q"
proof -
  assume u: "ppu_id u" "r \<or> q \<longrightarrow> b \<or> c"
  have "sint (v OR of_bool b OR of_bool c) = (if b \<or> c then odd_up (sint v) else sint v)" for v :: s64
    using set_wait_sint [of v] unfolding set_wait_def by (auto simp: or.assoc)
  then have "sint (writer_word u OR of_bool b OR of_bool c) = 2 * int u + (if b \<or> c then 1 else 0)"
    using u(1) by (simp add: writer_word_sint odd_up_def)
  then show ?thesis using word_written [of u r q "b \<or> c"] u by (simp add: lock_ok_def ppu_id_def)
qed

lemma lock_read:
  assumes "lock_ok v n w r q" "may_read v" "n + 1 \<le> max_readers"
  shows "lock_ok (v - 2) (n + 1) w r q \<and> w = None \<and> \<not> r \<and> \<not> q"
proof -
  have w: "word_ok (sint v) n w r q" "free_int (sint v)" using assms by (simp_all add: lock_ok_def may_read_sint)
  have "- 2 * int n \<le> sint v" using w(1) by (auto elim!: word_cases)
  then have "sint (v + of_int (- 2)) = sint v + - 2" using assms(3) w(2) by (intro sint_plus) (simp_all add: max_readers_def free_int_def)
  then show ?thesis using word_read [OF w] assms(3) by (auto simp: lock_ok_def)
qed

lemma lock_unread:
  assumes "lock_ok v n w r q" "sint v < - 1 \<or> sint v < 0 \<and> v AND 1 = 0"
  shows "lock_ok (v + 2) (n - 1) w r q \<and> w = None"
proof -
  have w: "word_ok (sint v) n w r q" "sint v < - 1 \<or> sint v < 0 \<and> even (sint v)" using assms by (simp_all add: lock_ok_def and_1_sint)
  have "- (2 ^ 63) \<le> sint v" using sint_ge [of v] by simp
  then have "sint (v + of_int 2) = sint v + 2" using w(2) by (intro sint_plus) auto
  then show ?thesis using word_unread [OF w] assms(1) by (auto simp: lock_ok_def)
qed

lemma lock_waits:
  "lock_ok v n w r q \<Longrightarrow> \<not> may_read v \<Longrightarrow> lock_ok (set_wait v) n w True q"
  "lock_ok v n w r q \<Longrightarrow> v \<noteq> 0 \<Longrightarrow> lock_ok (set_wait v) n w r True"
  using word_reader_waits [of "sint v"] word_writer_waits [of "sint v"]
  by (auto simp: lock_ok_def may_read_sint set_wait_sint sint_0_iff)

lemma lock_zero: "lock_ok 0 n w r q \<Longrightarrow> n = 0 \<and> w = None \<and> \<not> r \<and> \<not> q"
  using word_zero [of n w r q] by (simp add: lock_ok_def)

lemma lock_last_reader: "lock_ok v n w r q \<Longrightarrow> sint v = - 1 \<Longrightarrow> n = 1 \<and> w = None \<and> q"
  using word_last_reader [of n w r q] by (simp add: lock_ok_def)

lemma lock_reader_leaves: "lock_ok v n w True q \<Longrightarrow> lock_ok v n w r q"
  using word_reader_leaves by (simp add: lock_ok_def)

lemma lock_last_writer_leaves:
  assumes "lock_ok v n w r True"
  shows "sint v < 0 \<Longrightarrow> n + k \<le> max_readers \<Longrightarrow> lock_ok (clear_wait (v - 2 * of_nat k)) (n + k) w False False"
    "\<not> sint v < 0 \<Longrightarrow> lock_ok v n w r False" "lock_ok (clear_wait v) n w False False"
proof -
  have w: "word_ok (sint v) n w r True" and n: "n \<le> max_readers" using assms by (simp_all add: lock_ok_def)
  show "lock_ok (clear_wait (v - 2 * of_nat k)) (n + k) w False False" if "sint v < 0" "n + k \<le> max_readers"
  proof -
    have "- 2 * int n \<le> sint v" using w that(1) by (auto elim!: word_cases)
    moreover have "int n + int k \<le> 2 ^ 62" using that(2) by (simp add: max_readers_def flip: of_nat_add)
    ultimately have "sint (v + of_int (- 2 * int k)) = sint v + - 2 * int k" using that(1) by (intro sint_plus) simp_all
    then show ?thesis using word_last_writer_leaves(1) [OF w that(1)] that(2) by (simp add: lock_ok_def clear_wait_sint)
  qed
  show "lock_ok v n w r False" if "\<not> sint v < 0" using word_last_writer_leaves(2) [OF w that] n by (simp add: lock_ok_def)
  show "lock_ok (clear_wait v) n w False False" using word_last_writer_leaves(3) [OF w] n by (simp add: lock_ok_def clear_wait_sint)
qed

section \<open>Invariant\<close>

definition r_queued :: "rw_pc \<Rightarrow> bool" where
  "r_queued p \<longleftrightarrow> p = R_asleep \<or> p = R_stopped"

definition w_queued :: "rw_pc \<Rightarrow> bool" where
  "w_queued p \<longleftrightarrow> p = W_asleep \<or> p = W_stopped"

fun rw_pc_ok :: "tid option \<Rightarrow> tid \<Rightarrow> rw_pc \<Rightarrow> bool" where
  "rw_pc_ok w t (R_cas v) \<longleftrightarrow> may_read v"
| "rw_pc_ok w t (RU_cas v) \<longleftrightarrow> sint v < 0 \<and> v AND 1 = 0"
| "rw_pc_ok w t W_woken \<longleftrightarrow> w = Some t"
| "rw_pc_ok w t WU_cas \<longleftrightarrow> w = Some t"
| "rw_pc_ok w t WU_lock \<longleftrightarrow> w = Some t"
| "rw_pc_ok w t p \<longleftrightarrow> True"

definition rw_inv :: "rw_state \<Rightarrow> tid list \<Rightarrow> tid list \<Rightarrow> bool" where
  "rw_inv s rs ws \<longleftrightarrow> chain (thr s) (rq s) rs \<and> chain (thr s) (wq s) ws
     \<and> (\<forall>t. (r_queued (pc s t) \<longleftrightarrow> t \<in> set rs) \<and> (w_queued (pc s t) \<longleftrightarrow> t \<in> set ws))
     \<and> (\<forall>t. (pc s t \<noteq> Idle \<longrightarrow> ppu_id t) \<and> rw_pc_ok (writer s) t (pc s t))
     \<and> lock_ok (owner s) (readers s) (writer s) (rs \<noteq> []) (ws \<noteq> []) \<and> \<not> failed s"

lemma rw_invD:
  assumes "rw_inv s rs ws"
  shows "chain (thr s) (rq s) rs" "chain (thr s) (wq s) ws" "r_queued (pc s t) \<longleftrightarrow> t \<in> set rs" "w_queued (pc s t) \<longleftrightarrow> t \<in> set ws"
    "pc s t \<noteq> Idle \<Longrightarrow> ppu_id t" "rw_pc_ok (writer s) t (pc s t)" "lock_ok (owner s) (readers s) (writer s) (rs \<noteq> []) (ws \<noteq> [])" "\<not> failed s"
  using assms unfolding rw_inv_def by blast+

lemma rw_disjoint: "rw_inv s rs ws \<Longrightarrow> t \<in> set rs \<Longrightarrow> t \<notin> set ws"
  using rw_invD(3,4) [of s rs ws t] by (auto simp: r_queued_def w_queued_def)

lemma rw_ok_other: "rw_pc_ok w t p \<Longrightarrow> (w = Some t \<Longrightarrow> w' = Some t) \<Longrightarrow> rw_pc_ok w' t p"
  by (cases p) auto

lemmas rw_q = r_queued_def w_queued_def

text \<open>A step that leaves the queues alone.\<close>

lemma rw_update:
  assumes inv: "rw_inv s rs ws" and t: "\<not> r_queued (pc s t)" "\<not> w_queued (pc s t)" "\<not> r_queued p" "\<not> w_queued p" "p \<noteq> Idle \<Longrightarrow> ppu_id t"
    and same: "thr s' = thr s" "rq s' = rq s" "wq s' = wq s" "pc s' = (pc s)(t := p)" "failed s' = failed s"
    and word: "lock_ok (owner s') (readers s') (writer s') (rs \<noteq> []) (ws \<noteq> [])"
    and ok: "\<And>u. u \<noteq> t \<Longrightarrow> writer s = Some u \<Longrightarrow> writer s' = Some u" "rw_pc_ok (writer s') t p"
  shows "rw_inv s' rs ws"
  unfolding rw_inv_def
proof (intro conjI allI impI)
  show "r_queued (pc s' u) \<longleftrightarrow> u \<in> set rs" for u
    using rw_invD(3) [OF inv, of u] t(1,3) same(4) by auto
  show "w_queued (pc s' u) \<longleftrightarrow> u \<in> set ws" for u
    using rw_invD(4) [OF inv, of u] t(2,4) same(4) by auto
  show "ppu_id u" if "pc s' u \<noteq> Idle" for u using that rw_invD(5) [OF inv, of u] t(5) same(4) by (auto split: if_splits)
  show "rw_pc_ok (writer s') u (pc s' u)" for u
    using rw_ok_other [OF rw_invD(6) [OF inv, of u]] ok same(4) by (cases "u = t") auto
qed (use rw_invD(1,2,8) [OF inv] same word in simp_all)

lemma rw_move:
  assumes "rw_inv s rs ws" "\<not> r_queued (pc s t)" "\<not> w_queued (pc s t)" "\<not> r_queued p" "\<not> w_queued p" "p \<noteq> Idle \<Longrightarrow> ppu_id t" "rw_pc_ok (writer s) t p"
  shows "rw_inv (rw_goto t p s) rs ws"
  by (rule rw_update [OF assms(1-5)]) (use assms(6,7) rw_invD(7) [OF assms(1)] in auto)

lemma rw_add_reader:
  assumes inv: "rw_inv s rs ws" and t: "\<not> r_queued (pc s t)" "\<not> w_queued (pc s t)" and r: "may_read (owner s)" "readers s + 1 \<le> max_readers"
  shows "rw_inv (rw_goto t Idle (add_reader s)) rs ws"
  by (rule rw_update [OF inv t]) (use lock_read [OF rw_invD(7) [OF inv] r] in \<open>auto simp: add_reader_def rw_q\<close>)

lemma rw_remove_reader:
  assumes inv: "rw_inv s rs ws" and t: "\<not> r_queued (pc s t)" "\<not> w_queued (pc s t)" and r: "sint (owner s) < - 1 \<or> sint (owner s) < 0 \<and> owner s AND 1 = 0"
  shows "rw_inv (rw_goto t Idle (s\<lparr>owner := owner s + 2, readers := readers s - 1\<rparr>)) rs ws"
  by (rule rw_update [OF inv t]) (use lock_unread [OF rw_invD(7) [OF inv] r] in \<open>auto simp: rw_q\<close>)

lemma rw_take_write:
  assumes inv: "rw_inv s rs ws" and t: "\<not> r_queued (pc s t)" "\<not> w_queued (pc s t)" "ppu_id t" and r: "owner s = 0"
  shows "rw_inv (take_write t s) rs ws"
proof -
  have z: "readers s = 0 \<and> writer s = None \<and> \<not> rs \<noteq> [] \<and> \<not> ws \<noteq> []" using lock_zero rw_invD(7) [OF inv] r by metis
  show ?thesis
    by (rule rw_update [OF inv t(1,2), where p = Idle]) (use z t(3) lock_written [of t False False False False] in \<open>auto simp: take_write_def rw_q\<close>)
qed

lemma rw_release_write:
  assumes inv: "rw_inv s rs ws" and t: "\<not> r_queued (pc s t)" "\<not> w_queued (pc s t)" and w: "writer s = Some t" and e: "rs = []" "ws = []"
  shows "rw_inv (rw_goto t Idle (s\<lparr>owner := 0, writer := None\<rparr>)) rs ws"
proof -
  have "readers s = 0" using rw_invD(7) [OF inv] w by (simp add: lock_defs)
  then show ?thesis
    by (intro rw_update [OF inv t, where p = Idle]) (use e w lock_free [of 0] in \<open>auto simp: rw_q\<close>)
qed

text \<open>The lock word of a writer without waiters is even.\<close>

lemma rw_even_empty: "rw_inv s rs ws \<Longrightarrow> owner s AND 1 = 0 \<Longrightarrow> rs = [] \<and> ws = []"
  using rw_invD(7) [of s rs ws] by (auto simp: and_1_sint lock_defs)

lemma chain_frame: "chain h p xs \<Longrightarrow> (\<And>u. u \<in> set xs \<Longrightarrow> next_cpu (h' u) = next_cpu (h u)) \<Longrightarrow> chain h' p xs"
  using chain_cong [of xs h' h p] by blast

lemma emplace_next: "emplace t (first, h, tag) = (first', h', tag') \<Longrightarrow> u \<noteq> t \<Longrightarrow> next_cpu (h' u) = next_cpu (h u)"
  by (auto simp: emplace_def Let_def split: if_splits)

lemma rw_reader_sleeps:
  assumes inv: "rw_inv s rs ws" and t: "pc s t = R_lock" and v: "\<not> may_read (owner s)" and e: "emplace t (rq s, thr s, order_tag s) = (first, h, tag)"
  shows "rw_inv (rw_goto t R_asleep (s\<lparr>owner := set_wait (owner s), rq := first, thr := h, order_tag := tag\<rparr>)) (t # rs) ws"
proof -
  have n: "t \<notin> set rs" "t \<notin> set ws" "ppu_id t" using rw_invD(3-5) [OF inv, of t] t by (auto simp: rw_q)
  have "chain h (wq s) ws" using rw_invD(2) [OF inv] by (rule chain_frame) (use n(2) emplace_next [OF e] in metis)
  moreover have "lock_ok (set_wait (owner s)) (readers s) (writer s) (t # rs \<noteq> []) (ws \<noteq> [])"
    using lock_waits(1) [OF rw_invD(7) [OF inv] v] by simp
  ultimately show ?thesis
    unfolding rw_inv_def using emplace_chain(1) [OF rw_invD(1) [OF inv] n(1) e] rw_invD(3-6,8) [OF inv] n
    by (intro conjI allI impI) (auto simp: rw_q split: if_splits)
qed

lemma rw_writer_sleeps:
  assumes inv: "rw_inv s rs ws" and t: "pc s t = W_lock" and v: "owner s \<noteq> 0" and e: "emplace t (wq s, thr s, order_tag s) = (first, h, tag)"
  shows "rw_inv (rw_goto t W_asleep (s\<lparr>owner := set_wait (owner s), wq := first, thr := h, order_tag := tag\<rparr>)) rs (t # ws)"
proof -
  have n: "t \<notin> set rs" "t \<notin> set ws" "ppu_id t" using rw_invD(3-5) [OF inv, of t] t by (auto simp: rw_q)
  have "chain h (rq s) rs" using rw_invD(1) [OF inv] by (rule chain_frame) (use n(1) emplace_next [OF e] in metis)
  moreover have "lock_ok (set_wait (owner s)) (readers s) (writer s) (rs \<noteq> []) (t # ws \<noteq> [])"
    using lock_waits(2) [OF rw_invD(7) [OF inv] v] by simp
  ultimately show ?thesis
    unfolding rw_inv_def using emplace_chain(1) [OF rw_invD(2) [OF inv] n(2) e] rw_invD(3-6,8) [OF inv] n
    by (intro conjI allI impI) (auto simp: rw_q split: if_splits)
qed

lemma rw_reader_leaves:
  assumes inv: "rw_inv s rs ws" and t: "pc s t = R_asleep \<or> pc s t = R_woken"
  shows "\<exists>rs'. rw_inv (rlock_timeout t s) rs' ws"
proof (cases "t \<in> set rs")
  case False
  then have q: "\<not> r_queued (pc s t)" "\<not> w_queued (pc s t)" using rw_invD(3) [OF inv, of t] t by (auto simp: rw_q)
  then have "rw_inv (rw_goto t Idle s) rs ws" by (intro rw_move [OF inv]) (auto simp: rw_q)
  then show ?thesis using unqueue_absent [OF rw_invD(1) [OF inv] False] by (auto simp: rlock_timeout_def)
next
  case True
  obtain first h where u: "unqueue True t (rq s, thr s) = Some (Some t, first, h)" "chain h first (remove1 t rs)"
    "\<forall>u. u \<notin> set rs \<longrightarrow> next_cpu (h u) = next_cpu (thr s u)" using unqueue_frame [OF rw_invD(1) [OF inv] True] by blast
  have d: "set (remove1 t rs) = set rs - {t}" using chain_distinct [OF rw_invD(1) [OF inv]] by simp
  have c: "chain h (wq s) ws" using rw_invD(2) [OF inv] by (rule chain_frame) (use u(3) rw_disjoint [OF inv] in blast)
  have w: "lock_ok (owner s) (readers s) (writer s) (remove1 t rs \<noteq> []) (ws \<noteq> [])"
    using lock_reader_leaves [of "owner s" "readers s" "writer s" "ws \<noteq> []"] rw_invD(7) [OF inv] True by (cases rs) auto
  have "rw_inv (rw_goto t Idle (s\<lparr>rq := first, thr := h\<rparr>)) (remove1 t rs) ws"
    unfolding rw_inv_def d using u(2) c w rw_invD(3-6,8) [OF inv] t True rw_disjoint [OF inv True]
    by (intro conjI allI impI) (auto simp: rw_q split: if_splits)
  then show ?thesis using u(1) by (auto simp: rlock_timeout_def)
qed

lemma rw_stopped_inv:
  assumes inv: "rw_inv s rs ws" and t: "pc s t = R_asleep \<and> p = R_stopped \<or> pc s t = W_asleep \<and> p = W_stopped"
  shows "rw_inv (rw_stopped t p s) rs ws"
proof -
  let ?s = "rw_stopped t p s"
  have "chain (thr ?s) q xs" if "chain (thr s) q xs" for q xs using that by (rule chain_frame) (simp add: rw_stopped_def)
  then have "chain (thr ?s) (rq ?s) rs" "chain (thr ?s) (wq ?s) ws" using rw_invD(1,2) [OF inv] by (simp_all add: rw_stopped_def)
  moreover have "(r_queued (pc ?s u) \<longleftrightarrow> u \<in> set rs) \<and> (w_queued (pc ?s u) \<longleftrightarrow> u \<in> set ws)" for u
    using rw_invD(3,4) [OF inv, of u] t by (auto simp: rw_stopped_def rw_q)
  moreover have "(pc ?s u \<noteq> Idle \<longrightarrow> ppu_id u) \<and> rw_pc_ok (writer ?s) u (pc ?s u)" for u
    using rw_invD(5,6) [OF inv, of u] t by (auto simp: rw_stopped_def)
  moreover have "writer ?s = writer s" "owner ?s = owner s" "readers ?s = readers s" "failed ?s = failed s" by (simp_all add: rw_stopped_def)
  ultimately show ?thesis unfolding rw_inv_def using rw_invD(7,8) [OF inv] by simp
qed

lemma rw_give_to_writer:
  assumes inv: "rw_inv s rs ws" and t: "\<not> r_queued (pc s t)" "\<not> w_queued (pc s t)"
    and u: "u \<in> set ws" "chain h first (remove1 u ws)" "\<And>v. v \<notin> set ws \<Longrightarrow> next_cpu (h v) = next_cpu (thr s v)"
    and w: "writer s = None \<or> writer s = Some t" and n: "readers s' = 0" and s': "s' = rw_goto t Idle (s\<lparr>readers := n'\<rparr>)"
  shows "rw_inv (give_to_writer u first h s') rs (remove1 u ws)"
proof -
  have d: "set (remove1 u ws) = set ws - {u}" using chain_distinct [OF rw_invD(2) [OF inv]] by simp
  have c: "chain h (rq s) rs" using rw_invD(1) [OF inv] by (rule chain_frame) (use u(3) rw_disjoint [OF inv] in blast)
  have uq: "w_queued (pc s u)" "ppu_id u" "u \<noteq> t" using rw_invD(4) [OF inv, of u] rw_invD(5) [OF inv, of u] u(1) t by (auto simp: rw_q)
  have f: "first \<noteq> None \<longleftrightarrow> remove1 u ws \<noteq> []" using u(2) by (cases "remove1 u ws") auto
  have r: "rq s \<noteq> None \<longleftrightarrow> rs \<noteq> []" using rw_invD(1) [OF inv] by (cases rs) auto
  let ?s = "give_to_writer u first h s'"
  have "rs \<noteq> [] \<or> remove1 u ws \<noteq> [] \<longrightarrow> first \<noteq> None \<or> rq s \<noteq> None" using f r by blast
  from lock_written [OF uq(2) this] have "lock_ok (owner ?s) (readers ?s) (writer ?s) (rs \<noteq> []) (remove1 u ws \<noteq> [])"
    using n by (simp add: give_to_writer_def s')
  moreover have "rw_pc_ok (writer ?s) v (pc ?s v)" for v
    using rw_invD(6) [OF inv, of v] w uq by (cases "pc s v") (auto simp: give_to_writer_def s')
  moreover have "r_queued (pc ?s v) \<longleftrightarrow> v \<in> set rs" for v
    using rw_invD(3) [OF inv, of v] t uq by (auto simp: give_to_writer_def s' rw_q)
  moreover have "w_queued (pc ?s v) \<longleftrightarrow> v \<in> set ws - {u}" for v
    using rw_invD(4) [OF inv, of v] t uq by (auto simp: give_to_writer_def s' rw_q)
  moreover have "ppu_id v" if "pc ?s v \<noteq> Idle" for v
    using that rw_invD(5) [OF inv, of v] uq by (auto simp: give_to_writer_def s' split: if_splits)
  ultimately show ?thesis
    unfolding rw_inv_def d using u(2) c rw_invD(8) [OF inv] by (simp add: give_to_writer_def s')
qed

lemma rw_runlock_locked_inv:
  assumes inv: "rw_inv s rs ws" and t: "pc s t = RU_lock"
  shows "\<exists>ws'. rw_inv (runlock_locked t s) rs ws'"
proof -
  have q: "\<not> r_queued (pc s t)" "\<not> w_queued (pc s t)" using t by (auto simp: rw_q)
  have idle: "rw_inv (rw_goto t Idle s) rs ws" using q by (intro rw_move [OF inv]) (auto simp: rw_q)
  consider "sint (owner s) < - 1" | "0 \<le> sint (owner s)" | "sint (owner s) = - 1" by linarith
  then show ?thesis
  proof cases
    case 1
    then show ?thesis using rw_remove_reader [OF inv q] by (auto simp: runlock_locked_def)
  next
    case 2
    then show ?thesis using idle by (auto simp: runlock_locked_def)
  next
    case 3
    have l: "readers s = 1" "writer s = None" "ws \<noteq> []" using lock_last_reader [OF rw_invD(7) [OF inv] 3] by blast+
    show ?thesis
    proof (rule schedule_frame [OF rw_invD(2) [OF inv] l(3), where prot = "protocol s"])
      fix u
      assume "again (thr s u)" "schedule (protocol s) True (wq s, thr s) = Some (Some u, wq s, thr s)"
      then show ?thesis using idle 3 by (auto simp: runlock_locked_def)
    next
      fix u first h
      assume u: "u \<in> set ws" "\<not> again (thr s u)" "schedule (protocol s) True (wq s, thr s) = Some (Some u, first, h)"
        "chain h first (remove1 u ws)" "\<And>v. again (h v) = again (thr s v)" "\<And>v. v \<notin> set ws \<Longrightarrow> next_cpu (h v) = next_cpu (thr s v)"
      have "rw_inv (give_to_writer u first h (rw_goto t Idle (s\<lparr>readers := readers s - 1\<rparr>))) rs (remove1 u ws)"
        using l by (intro rw_give_to_writer [OF inv q u(1,4,6)]) auto
      then show ?thesis using u 3 by (auto simp: runlock_locked_def)
    qed
  qed
qed

text \<open>All waiting readers get the lock.\<close>

lemma rw_readers_woken:
  assumes inv: "rw_inv s rs ws" and t: "pc s t = WU_lock \<and> ws = [] \<or> pc s t = W_asleep \<and> ws = [t]"
    and k: "set ks = set rs" and s': "pc s' = awake_all ks ((pc s)(t := Idle))" "rq s' = None" "wq s' = None" "failed s' = failed s"
    and w: "lock_ok (owner s') (readers s') (writer s') False False" "\<And>u. u \<noteq> t \<Longrightarrow> writer s = Some u \<Longrightarrow> writer s' = Some u"
  shows "rw_inv s' [] []"
proof -
  have tr: "t \<notin> set rs" using rw_invD(3) [OF inv, of t] t by (auto simp: rw_q)
  have "\<not> r_queued (pc s' u)" for u using rw_invD(3) [OF inv, of u] k by (auto simp: s'(1) awake_all_def rw_q)
  moreover have "\<not> w_queued (pc s' u)" for u using rw_invD(4) [OF inv, of u] t by (auto simp: s'(1) awake_all_def rw_q)
  moreover have "ppu_id u" if "pc s' u \<noteq> Idle" for u
    using that rw_invD(3,5) [OF inv, of u] k by (auto simp: s'(1) awake_all_def rw_q split: if_splits)
  moreover have "rw_pc_ok (writer s') u (pc s' u)" for u
    using rw_ok_other [OF rw_invD(6) [OF inv, of u], of "writer s'"] w(2) [of u] by (auto simp: s'(1) awake_all_def)
  ultimately show ?thesis unfolding rw_inv_def using s' w(1) rw_invD(8) [OF inv] by auto
qed

lemma rw_wlock_timeout_inv:
  assumes inv: "rw_inv s rs ws" and t: "pc s t = W_asleep \<or> pc s t = W_woken" and r: "wlock_timeout t s = Some s'" and n: "readers s' \<le> max_readers"
  shows "\<exists>rs ws. rw_inv s' rs ws"
proof (cases "t \<in> set ws")
  case False
  then have q: "\<not> r_queued (pc s t)" "\<not> w_queued (pc s t)" using rw_invD(4) [OF inv, of t] t by (auto simp: rw_q)
  then have "rw_inv (rw_goto t Idle s) rs ws" by (intro rw_move [OF inv]) (auto simp: rw_q)
  then show ?thesis using r unqueue_absent [OF rw_invD(2) [OF inv] False] by (auto simp: wlock_timeout_def)
next
  case True
  obtain first h where u: "unqueue True t (wq s, thr s) = Some (Some t, first, h)" "chain h first (remove1 t ws)"
    "\<forall>v. again (h v) = again (thr s v)" "\<forall>v. v \<notin> set ws \<longrightarrow> next_cpu (h v) = next_cpu (thr s v)"
    using unqueue_frame [OF rw_invD(2) [OF inv] True] by blast
  have d: "set (remove1 t ws) = set ws - {t}" using chain_distinct [OF rw_invD(2) [OF inv]] by simp
  have c: "chain h (rq s) rs" using rw_invD(1) [OF inv] by (rule chain_frame) (use u(4) rw_disjoint [OF inv] in blast)
  have a: "pc s t = W_asleep" "t \<notin> set rs" using rw_invD(3,4) [OF inv, of t] True t by (auto simp: rw_q)
  have f: "first = None \<longleftrightarrow> remove1 t ws = []" using u(2) by (cases "remove1 t ws") auto
  have rn: "rq s = None \<longleftrightarrow> rs = []" using rw_invD(1) [OF inv] by (cases rs) auto
  have w: "lock_ok (owner s) (readers s) (writer s) (rs \<noteq> []) True" using rw_invD(7) [OF inv] True by (cases ws) auto
  have keep: "rw_inv (rw_goto t Idle (s\<lparr>wq := first, thr := h, owner := v\<rparr>)) rs (remove1 t ws)"
    if "lock_ok v (readers s) (writer s) (rs \<noteq> []) (remove1 t ws \<noteq> [])" for v
    unfolding rw_inv_def d using that u(2) c a rw_invD(3-6,8) [OF inv] by (intro conjI allI impI) (auto simp: rw_q split: if_splits)
  show ?thesis
  proof (cases "remove1 t ws = []")
    case False
    then have "s' = rw_goto t Idle (s\<lparr>wq := first, thr := h, owner := owner s\<rparr>)" using r u(1) f by (auto simp: wlock_timeout_def Let_def)
    then show ?thesis using keep [of "owner s"] w False by auto
  next
    case last: True
    have wt: "ws = [t]" using last True by (cases ws) (auto split: if_splits)
    note l = lock_last_writer_leaves [OF w]
    show ?thesis
    proof (cases "rs \<noteq> [] \<and> sint (owner s) < 0")
      case True
      obtain ks h' where k: "wake_readers (rq s, h) [] = Some (ks, None, h')" "set ks = set rs" "length ks = length rs"
        using wake_readers_chain [OF c, of "[]"] r u(1) f last rn True by (auto simp: wlock_timeout_def Let_def split: if_splits)
      have e: "s' = s\<lparr>wq := first, thr := h', pc := awake_all ks ((pc s)(t := Idle)), rq := None,
          owner := clear_wait (owner s - 2 * of_nat (length ks)), readers := readers s + length ks\<rparr>"
        using r u(1) f last rn True k(1) by (intro rw_state.equality) (auto simp: wlock_timeout_def Let_def)
      have "rw_inv s' [] []"
        by (rule rw_readers_woken [OF inv _ k(2), of t]) (use a wt f last l(1) [of "length ks"] True n in \<open>auto simp: e\<close>)
      then show ?thesis by blast
    next
      case False
      then consider "rs = []" | "rs \<noteq> []" "\<not> sint (owner s) < 0" by blast
      then show ?thesis
      proof cases
        case 1
        then have "s' = rw_goto t Idle (s\<lparr>wq := first, thr := h, owner := clear_wait (owner s)\<rparr>)"
          using r u(1) f last rn by (intro rw_state.equality) (auto simp: wlock_timeout_def Let_def)
        then show ?thesis using keep [of "clear_wait (owner s)"] l(3) 1 last by auto
      next
        case 2
        then have "s' = rw_goto t Idle (s\<lparr>wq := first, thr := h, owner := owner s\<rparr>)"
          using r u(1) f last rn by (auto simp: wlock_timeout_def Let_def)
        then show ?thesis using keep [of "owner s"] l(2) 2 last by auto
      qed
    qed
  qed
qed

lemma rw_wunlock_locked_inv:
  assumes inv: "rw_inv s rs ws" and t: "pc s t = WU_lock" and r: "wunlock_locked t s = Some s'" and m: "readers s' \<le> max_readers"
  shows "\<exists>rs ws. rw_inv s' rs ws"
proof -
  have q: "\<not> r_queued (pc s t)" "\<not> w_queued (pc s t)" "writer s = Some t" using t rw_invD(6) [OF inv, of t] by (auto simp: rw_q)
  have n: "readers s = 0" using rw_invD(7) [OF inv] q(3) by (simp add: lock_defs)
  have idle: "rw_inv (rw_goto t Idle s) rs ws" using q by (intro rw_move [OF inv]) (auto simp: rw_q)
  show ?thesis
  proof (cases "ws = []")
    case False
    show ?thesis
    proof (rule schedule_frame [OF rw_invD(2) [OF inv] False, where prot = "protocol s"])
      fix u
      assume "again (thr s u)" "schedule (protocol s) True (wq s, thr s) = Some (Some u, wq s, thr s)"
      then show ?thesis using idle r by (auto simp: wunlock_locked_def)
    next
      fix u first h
      assume u: "u \<in> set ws" "\<not> again (thr s u)" "schedule (protocol s) True (wq s, thr s) = Some (Some u, first, h)"
        "chain h first (remove1 u ws)" "\<And>v. again (h v) = again (thr s v)" "\<And>v. v \<notin> set ws \<Longrightarrow> next_cpu (h v) = next_cpu (thr s v)"
      have "rw_inv (give_to_writer u first h (rw_goto t Idle s)) rs (remove1 u ws)"
        using n q(3) by (intro rw_give_to_writer [OF inv q(1,2) u(1,4,6), where n' = "readers s"]) auto
      then show ?thesis using u r by (auto simp: wunlock_locked_def)
    qed
  next
    case True
    then have wn: "wq s = None" using rw_invD(2) [OF inv] by simp
    then have sn: "schedule (protocol s) True (wq s, thr s) = Some (None, None, thr s)" by (simp add: schedule_def)
    show ?thesis
    proof (cases "rs = []")
      case e: True
      then have "rq s = None" using rw_invD(1) [OF inv] by simp
      then show ?thesis using r sn rw_release_write [OF inv q e True] by (auto simp: wunlock_locked_def)
    next
      case ne: False
      then have rn: "rq s \<noteq> None" using rw_invD(1) [OF inv] by (cases rs) auto
      note any = any_again_chain [OF rw_invD(1) [OF inv]]
      show ?thesis
      proof (cases "\<exists>u\<in>set rs. again (thr s u)")
        case a: True
        then show ?thesis using r sn rn any idle by (auto simp: wunlock_locked_def)
      next
        case na: False
        obtain ks h' where k: "wake_readers (rq s, thr s) [] = Some (ks, None, h')" "set ks = set rs"
          using wake_readers_chain [OF rw_invD(1) [OF inv], of "[]"] na by auto
        have e: "s' = s\<lparr>rq := None, thr := h', owner := - 2 * of_nat (length ks), writer := None, readers := readers s + length ks,
            pc := awake_all ks ((pc s)(t := Idle))\<rparr>"
          using r sn rn any na k(1) by (auto simp: wunlock_locked_def)
        have "rw_inv s' [] []"
          by (rule rw_readers_woken [OF inv _ k(2), of t]) (use t True wn n q(3) m lock_free [of "length ks"] in \<open>auto simp: e\<close>)
        then show ?thesis by blast
      qed
    qed
  qed
qed

section \<open>Every interleaving\<close>

lemma rw_rlock_cas_inv:
  assumes inv: "rw_inv s rs ws" and t: "pc s t = R_cas v" and n: "readers (rlock_cas t v s) \<le> max_readers"
  shows "rw_inv (rlock_cas t v s) rs ws"
proof -
  have q: "\<not> r_queued (pc s t)" "\<not> w_queued (pc s t)" "may_read v" "ppu_id t" using t rw_invD(5,6) [OF inv, of t] by (auto simp: rw_q)
  then show ?thesis using rw_add_reader [OF inv q(1,2)] rw_move [OF inv q(1,2), of R_lock] n by (auto simp: rlock_cas_def rw_q add_reader_def)
qed

lemma rw_rlock_locked_inv:
  assumes inv: "rw_inv s rs ws" and t: "pc s t = R_lock" and n: "readers (rlock_locked t s) \<le> max_readers"
  shows "\<exists>rs. rw_inv (rlock_locked t s) rs ws"
proof (cases "may_read (owner s)")
  case True
  have q: "\<not> r_queued (pc s t)" "\<not> w_queued (pc s t)" using t by (auto simp: rw_q)
  have "readers s + 1 \<le> max_readers" using n True by (simp add: rlock_locked_def add_reader_def)
  then show ?thesis using True rw_add_reader [OF inv q True] by (auto simp: rlock_locked_def)
next
  case False
  obtain first h tag where e: "emplace t (rq s, thr s, order_tag s) = (first, h, tag)" by (metis prod_cases3)
  show ?thesis using rw_reader_sleeps [OF inv t False e] e False by (auto simp: rlock_locked_def)
qed

lemma rw_tryrlock_inv:
  assumes inv: "rw_inv s rs ws" and n: "readers (tryrlock s) \<le> max_readers"
  shows "rw_inv (tryrlock s) rs ws"
proof (cases "may_read (owner s)")
  case True
  have "readers s + 1 \<le> max_readers" using n True by (simp add: tryrlock_def add_reader_def)
  then have w: "lock_ok (owner s - 2) (readers s + 1) (writer s) (rs \<noteq> []) (ws \<noteq> [])" using lock_read [OF rw_invD(7) [OF inv] True] by blast
  then have "rw_inv (add_reader s) rs ws" using inv unfolding rw_inv_def add_reader_def by simp
  then show ?thesis using True by (simp add: tryrlock_def)
qed (use inv in \<open>simp add: tryrlock_def\<close>)

lemma rw_runlock_cas_inv:
  assumes inv: "rw_inv s rs ws" and t: "pc s t = RU_cas v"
  shows "rw_inv (runlock_cas t v s) rs ws"
proof -
  have q: "\<not> r_queued (pc s t)" "\<not> w_queued (pc s t)" "sint v < 0 \<and> v AND 1 = 0" "ppu_id t" using t rw_invD(5,6) [OF inv, of t] by (auto simp: rw_q)
  then show ?thesis using rw_remove_reader [OF inv q(1,2)] rw_move [OF inv q(1,2), of RU_lock] by (auto simp: runlock_cas_def rw_q)
qed

lemma rw_wlock_cas_inv:
  assumes inv: "rw_inv s rs ws" and t: "pc s t = W_cas b"
  shows "rw_inv (wlock_cas t b s) rs ws"
proof -
  have q: "\<not> r_queued (pc s t)" "\<not> w_queued (pc s t)" "ppu_id t" using t rw_invD(5) [OF inv, of t] by (auto simp: rw_q)
  then show ?thesis using rw_take_write [OF inv q] rw_move [OF inv q(1,2)] by (auto simp: wlock_cas_def rw_q)
qed

lemma rw_wlock_locked_inv:
  assumes inv: "rw_inv s rs ws" and t: "pc s t = W_lock"
  shows "\<exists>ws. rw_inv (wlock_locked t s) rs ws"
proof (cases "owner s = 0")
  case True
  have q: "\<not> r_queued (pc s t)" "\<not> w_queued (pc s t)" "ppu_id t" using t rw_invD(5) [OF inv, of t] by (auto simp: rw_q)
  show ?thesis using True rw_take_write [OF inv q True] by (auto simp: wlock_locked_def)
next
  case False
  obtain first h tag where e: "emplace t (wq s, thr s, order_tag s) = (first, h, tag)" by (metis prod_cases3)
  show ?thesis using rw_writer_sleeps [OF inv t False e] e False by (auto simp: wlock_locked_def)
qed

lemma rw_wunlock_read_inv:
  assumes inv: "rw_inv s rs ws" and t: "pc s t = Idle" "ppu_id t"
  shows "rw_inv (wunlock_read t s) rs ws"
proof -
  have "word_ok (sint (owner s)) (readers s) (writer s) (rs \<noteq> []) (ws \<noteq> [])" using rw_invD(7) [OF inv] by (simp add: lock_ok_def)
  then have "rw_pc_ok (writer s) t (if owner s = writer_word t then WU_cas else if owned_by (owner s) t then WU_lock else Idle)"
    using t(2) unfolding writer_word_iff [OF t(2)] owned_by_sint [OF t(2)] by (auto simp: ppu_id_def elim!: word_cases split: if_splits)
  then show ?thesis using t unfolding wunlock_read_def by (auto intro!: rw_move [OF inv] simp: rw_q split: if_splits)
qed

lemma rw_wunlock_cas_inv:
  assumes inv: "rw_inv s rs ws" and t: "pc s t = WU_cas"
  shows "rw_inv (wunlock_cas t s) rs ws"
proof -
  have q: "\<not> r_queued (pc s t)" "\<not> w_queued (pc s t)" "writer s = Some t" "ppu_id t" using t rw_invD(5,6) [OF inv, of t] by (auto simp: rw_q)
  then show ?thesis
    using rw_even_empty [OF inv] rw_release_write [OF inv q(1-3)] rw_move [OF inv q(1,2)]
    by (auto simp: wunlock_cas_def rw_q and_1_sint writer_word_sint)
qed

lemma rw_read_inv:
  assumes inv: "rw_inv s rs ws" and t: "pc s t = Idle" "ppu_id t"
  shows "rw_inv (rlock_read t s) rs ws" "rw_inv (runlock_read t s) rs ws" "rw_inv (wlock_read t b s) rs ws"
  using t unfolding rlock_read_def runlock_read_def wlock_read_def by (auto intro!: rw_move [OF inv] simp: rw_q)

lemma rw_step_inv:
  assumes "rw_step s s'" and inv: "rw_inv s rs ws" and n: "readers s' \<le> max_readers"
  shows "\<exists>rs ws. rw_inv s' rs ws"
  using assms(1)
proof cases
  case (rlock_locked t)
  then show ?thesis using rw_rlock_locked_inv [OF inv] n by blast
next
  case (rlock_timeout t)
  then show ?thesis using rw_reader_leaves [OF inv] by blast
next
  case (runlock_locked t)
  then show ?thesis using rw_runlock_locked_inv [OF inv] by blast
next
  case (wlock_locked t)
  then show ?thesis using rw_wlock_locked_inv [OF inv] by blast
next
  case (wlock_timeout t)
  then show ?thesis using rw_wlock_timeout_inv [OF inv] n by blast
next
  case (wunlock_locked t)
  then show ?thesis using rw_wunlock_locked_inv [OF inv] n by blast
qed (use inv n in \<open>auto intro!: exI rw_move rw_read_inv rw_rlock_cas_inv rw_tryrlock_inv rw_stopped_inv rw_runlock_cas_inv rw_wlock_cas_inv
  rw_wunlock_read_inv rw_wunlock_cas_inv simp: rw_q\<close>)

definition new_rwlock :: "u32 \<Rightarrow> threads \<Rightarrow> u64 \<Rightarrow> rw_state" where
  "new_rwlock prot h tag = \<lparr>protocol = prot, owner = 0, rq = None, wq = None, thr = h, order_tag = tag, pc = \<lambda>_. Idle,
     readers = 0, writer = None, failed = False\<rparr>"

definition rw_init :: "rw_state \<Rightarrow> bool" where
  "rw_init s \<longleftrightarrow> (\<exists>prot h tag. s = new_rwlock prot h tag)"

text \<open>The steps after which the word can count the read locks that are out.\<close>

definition rw_run :: "rw_state \<Rightarrow> rw_state \<Rightarrow> bool" where
  "rw_run s s' \<longleftrightarrow> rw_step s s' \<and> readers s' \<le> max_readers"

interpretation rw: invariant_system rw_init rw_run "\<lambda>s. \<exists>rs ws. rw_inv s rs ws"
proof unfold_locales
  show "\<exists>rs ws. rw_inv s rs ws" if "rw_init s" for s
    using that lock_free [of 0] by (intro exI [of _ "[]"]) (auto simp: rw_inv_def rw_init_def new_rwlock_def rw_q)
  show "\<exists>rs ws. rw_inv s' rs ws" if "\<exists>rs ws. rw_inv s rs ws" "rw_run s s'" for s s'
    using that rw_step_inv [of s s'] unfolding rw_run_def by blast
qed

definition rw_reachable :: "rw_state \<Rightarrow> bool" where
  "rw_reachable s \<longleftrightarrow> (\<exists>s0. rw_init s0 \<and> rw_run\<^sup>*\<^sup>* s0 s)"

lemma reachable_rw_inv: "rw_reachable s \<Longrightarrow> \<exists>rs ws. rw_inv s rs ws"
  unfolding rw_reachable_def using rw.reachable_inv by blast

lemma rw_reachable_step: "rw_reachable s \<Longrightarrow> rw_step s s' \<Longrightarrow> readers s' \<le> max_readers \<Longrightarrow> rw_reachable s'"
  unfolding rw_reachable_def using rw_run_def [of s s'] by (meson rtranclp.rtrancl_into_rtrancl)

section \<open>Properties\<close>

text \<open>A writer keeps the lock until its own call gives it back.\<close>

lemma rw_writer_step:
  assumes inv: "rw_inv s rs ws" and w: "writer s = Some w" and step: "rw_step s s'"
  shows "writer s' = Some w \<or> (pc s w = WU_cas \<or> pc s w = WU_lock) \<and> pc s' w \<noteq> pc s w"
proof -
  have pos: "0 < sint (owner s)" using rw_invD(7) [OF inv] w by (auto simp: lock_ok_def elim!: word_cases split: if_splits)
  have own: "w = t" if "pc s t = WU_cas \<or> pc s t = WU_lock" for t using rw_invD(6) [OF inv, of t] that w by auto
  from step show ?thesis
  proof cases
    case (runlock_locked t)
    then show ?thesis using w pos by (simp add: runlock_locked_def)
  next
    case (wlock_timeout t)
    then show ?thesis using w by (auto simp: wlock_timeout_def Let_def split: option.splits prod.splits if_splits)
  next
    case (wunlock_cas t)
    then show ?thesis using w own [of t] by (auto simp: wunlock_cas_def)
  next
    case (wunlock_locked t)
    have "pc s' t \<noteq> WU_lock"
      using wunlock_locked(2) by (auto simp: wunlock_locked_def give_to_writer_def awake_all_def split: option.splits prod.splits if_splits bool.splits)
    then show ?thesis using own [of t] wunlock_locked(1) by auto
  qed (use w pos in \<open>auto simp: rlock_read_def rlock_cas_def rlock_locked_def tryrlock_def add_reader_def rlock_timeout_def rw_stopped_def
    runlock_read_def runlock_cas_def wlock_read_def wlock_cas_def wlock_locked_def wunlock_read_def split: option.splits prod.splits\<close>)
qed

text \<open>
  C16: in every interleaving of the calls on a reader/writer lock in which never more than \<open>2 ^ 62\<close> read locks are out, while a writer has the lock no read lock is given out, and no other
  thread gets the lock before the writer's own unlocking call; the consistency check does not fail.
\<close>

theorem rwlock_exclusive:
  assumes "rw_reachable s" "rw_run s s'" "writer s = Some w"
  shows "readers s = 0 \<and> \<not> failed s' \<and> (writer s' = Some w \<and> readers s' = 0 \<or> (pc s w = WU_cas \<or> pc s w = WU_lock) \<and> pc s' w \<noteq> pc s w)"
proof -
  obtain rs ws where inv: "rw_inv s rs ws" using reachable_rw_inv [OF assms(1)] by blast
  have step: "rw_step s s'" using assms(2) by (simp add: rw_run_def)
  obtain rs' ws' where inv': "rw_inv s' rs' ws'" using rw_step_inv [OF step inv] assms(2) by (auto simp: rw_run_def)
  show ?thesis
    using rw_writer_step [OF inv assms(3) step] rw_invD(7) [OF inv] rw_invD(7,8) [OF inv'] assms(3) by (auto simp: lock_defs)
qed

text \<open>
  C17: in all interleavings of the calls on a reader/writer lock in which never more than \<open>2 ^ 62\<close> read locks are out,
  a thread sleeps on the lock only while a writer has it, or while read locks are out and a writer waits: no
  reader waits for readers alone, and nobody waits for a free lock.
\<close>

theorem rwlock_waits_rightly:
  assumes "rw_reachable s" "pc s t = R_asleep \<or> pc s t = W_asleep"
  shows "writer s \<noteq> None \<or> 0 < readers s \<and> (\<exists>u. pc s u = W_asleep \<or> pc s u = W_stopped)"
proof -
  obtain rs ws where inv: "rw_inv s rs ws" using reachable_rw_inv [OF assms(1)] by blast
  have "t \<in> set rs \<or> t \<in> set ws" using rw_invD(3,4) [OF inv, of t] assms(2) by (auto simp: rw_q)
  then have "rs \<noteq> [] \<or> ws \<noteq> []" by auto
  then have "writer s \<noteq> None \<or> 0 < readers s \<and> ws \<noteq> []" using rw_invD(7) [OF inv] by (auto simp: lock_defs)
  moreover have "w_queued (pc s (hd ws))" if "ws \<noteq> []" using rw_invD(4) [OF inv, of "hd ws"] that by simp
  ultimately show ?thesis by (auto simp: w_queued_def)
qed

text \<open>
  C26: in all interleavings of the calls on a reader/writer lock in which never more than \<open>2 ^ 62\<close> read locks are out,
  a writer's wait with a timeout does not return exactly when, at its end, readers have the lock, no other writer waits, and a
  waiting reader was stopped: the loop that wakes the readers takes the stopped one from the queue again and again.
\<close>

theorem rwlock_timeout_hangs:
  assumes "rw_reachable s" "pc s t = W_asleep" "chain (thr s) (wq s) ws" "chain (thr s) (rq s) rs"
  shows "wlock_timeout t s = None \<longleftrightarrow> 0 < readers s \<and> ws = [t] \<and> (\<exists>u\<in>set rs. again (thr s u))"
proof -
  obtain rs' ws' where "rw_inv s rs' ws'" using reachable_rw_inv [OF assms(1)] by blast
  then have inv: "rw_inv s rs ws" using chain_unique rw_invD(1,2) assms(3,4) by metis
  have t: "t \<in> set ws" using rw_invD(4) [OF inv, of t] assms(2) by (simp add: rw_q)
  obtain first h where u: "unqueue True t (wq s, thr s) = Some (Some t, first, h)" "chain h first (remove1 t ws)"
    "\<forall>v. again (h v) = again (thr s v)" "\<forall>v. v \<notin> set ws \<longrightarrow> next_cpu (h v) = next_cpu (thr s v)"
    using unqueue_frame [OF assms(3) t] by blast
  have c: "chain h (rq s) rs" using assms(4) by (rule chain_frame) (use u(4) rw_disjoint [OF inv] in blast)
  have "first = None \<longleftrightarrow> remove1 t ws = []" using u(2) by (cases "remove1 t ws") auto
  then have f: "first = None \<longleftrightarrow> ws = [t]" using t by (cases ws) (auto split: if_splits)
  have r: "rq s = None \<longleftrightarrow> rs = []" using assms(4) by (cases rs) auto
  have neg: "sint (owner s) < 0 \<longleftrightarrow> 0 < readers s" using rw_invD(7) [OF inv] t by (auto simp: lock_ok_def elim!: word_cases split: if_splits)
  have "wake_readers (rq s, h) [] = None \<longleftrightarrow> (\<exists>u\<in>set rs. again (thr s u))"
    using wake_readers_chain [OF c, of "[]"] u(3) by (auto split: if_splits)
  then show ?thesis using u(1) f r neg by (auto simp: wlock_timeout_def Let_def split: option.splits prod.splits)
qed

definition rw_sleepers :: rw_state where
  "rw_sleepers = rlock_locked 4 (rlock_read 4 (wlock_locked 3 (wlock_read 3 True (rlock_cas 2 0 (rlock_read 2 (new_rwlock SYS_SYNC_FIFO sample_threads 7))))))"

lemmas rw_run_simps = ppu_id_def and_1_sint max_readers_def rlock_locked_def rlock_read_def wlock_locked_def wlock_read_def rlock_cas_def new_rwlock_def may_read_def add_reader_def
  set_wait_def emplace_def Let_def set_next_def

lemma rw_sleepers_state: "owner rw_sleepers = - 1" "rq rw_sleepers = Some 4" "wq rw_sleepers = Some 3" "readers rw_sleepers = 1" "writer rw_sleepers = None"
  "next_cpu (thr rw_sleepers 3) = None" "next_cpu (thr rw_sleepers 4) = None" "pc rw_sleepers 3 = W_asleep" "pc rw_sleepers 4 = R_asleep"
  by (simp_all add: rw_sleepers_def rw_run_simps sample_threads_def)

lemma owned_by_sample: "\<not> owned_by (- 2) 3"
  by (simp add: owned_by_sint ppu_id_def)

lemma new_rwlock_reachable: "rw_reachable (new_rwlock prot h tag)"
  unfolding rw_reachable_def rw_init_def by blast

lemma rw_sleepers_reachable: "rw_reachable rw_sleepers"
proof -
  let ?s0 = "new_rwlock SYS_SYNC_FIFO sample_threads 7"
  let ?s1 = "rlock_read 2 ?s0" let ?s2 = "rlock_cas 2 0 ?s1" let ?s3 = "wlock_read 3 True ?s2" let ?s4 = "wlock_locked 3 ?s3" let ?s5 = "rlock_read 4 ?s4"
  have "rw_reachable ?s1"
    by (rule rw_reachable_step [OF new_rwlock_reachable rw_step.rlock_read]) (simp_all add: rw_run_simps)
  then have "rw_reachable ?s2" by (rule rw_reachable_step [OF _ rw_step.rlock_cas]) (simp_all add: rw_run_simps)
  then have "rw_reachable ?s3" by (rule rw_reachable_step [OF _ rw_step.wlock_read]) (simp_all add: rw_run_simps)
  then have "rw_reachable ?s4" by (rule rw_reachable_step [OF _ rw_step.wlock_locked]) (simp_all add: rw_run_simps owned_by_sample)
  then have "rw_reachable ?s5" by (rule rw_reachable_step [OF _ rw_step.rlock_read]) (simp_all add: rw_run_simps)
  then show ?thesis unfolding rw_sleepers_def by (rule rw_reachable_step [OF _ rw_step.rlock_locked]) (simp_all add: rw_run_simps)
qed

theorem rwlock_waits_rightly_witness: "0 < readers rw_sleepers \<and> (\<exists>u. pc rw_sleepers u = W_asleep \<or> pc rw_sleepers u = W_stopped)"
proof -
  have "writer rw_sleepers = None" by (simp add: rw_sleepers_state)
  then show ?thesis using rwlock_waits_rightly [OF rw_sleepers_reachable, of 4] rw_sleepers_state by simp
qed

definition rw_reader_stopped :: rw_state where
  "rw_reader_stopped = rw_stopped 4 R_stopped rw_sleepers"

theorem rwlock_timeout_hangs_witness: "wlock_timeout 3 rw_reader_stopped = None"
proof -
  have "rw_step rw_sleepers rw_reader_stopped" unfolding rw_reader_stopped_def by (rule rw_step.rlock_stopped) (simp add: rw_sleepers_state)
  moreover have "readers rw_reader_stopped \<le> max_readers" by (simp add: rw_reader_stopped_def rw_stopped_def rw_sleepers_state max_readers_def)
  ultimately have "rw_reachable rw_reader_stopped" using rw_reachable_step rw_sleepers_reachable by blast
  then show ?thesis
    using rwlock_timeout_hangs [of rw_reader_stopped 3 "[3]" "[4]"] by (simp add: rw_reader_stopped_def rw_stopped_def rw_sleepers_state)
qed

definition rw_writing :: rw_state where
  "rw_writing = wlock_cas 2 True (wlock_read 2 True (new_rwlock SYS_SYNC_FIFO sample_threads 7))"

theorem rwlock_exclusive_witness: "readers rw_writing = 0 \<and> \<not> failed (tryrlock rw_writing)"
proof -
  let ?s1 = "wlock_read 2 True (new_rwlock SYS_SYNC_FIFO sample_threads 7)"
  have "rw_reachable ?s1" by (rule rw_reachable_step [OF new_rwlock_reachable rw_step.wlock_read]) (simp_all add: rw_run_simps)
  then have r: "rw_reachable rw_writing"
    unfolding rw_writing_def by (rule rw_reachable_step [OF _ rw_step.wlock_cas]) (simp_all add: rw_run_simps wlock_cas_def take_write_def)
  have w: "writer rw_writing = Some 2" by (simp add: rw_writing_def wlock_cas_def rw_run_simps take_write_def)
  have "rw_run rw_writing (tryrlock rw_writing)"
    unfolding rw_run_def using rw_step.tryrlock [of rw_writing]
    by (simp add: rw_writing_def wlock_cas_def rw_run_simps take_write_def tryrlock_def)
  then show ?thesis using rwlock_exclusive [OF r _ w] by blast
qed

end
