(* ===== verification/Lv2_Object_Calls.thy ===== *)
theory Lv2_Object_Calls
  imports Lv2_Calls Lv2_Event_Flag Lv2_Mutex Lv2_Rwlock
begin

text \<open>
  The system calls on event flags, mutexes and reader/writer locks as the guest sees them (\<^verbatim>\<open>rpcs3/Emu/Cell/lv2/sys_event_flag.cpp\<close>,
  \<^verbatim>\<open>sys_mutex.cpp\<close>, \<^verbatim>\<open>sys_rwlock.cpp\<close>): creation from attributes in guest memory, destruction, and the calls on event flags that
  do not block. What the calls do to a flag or lock under concurrency is in the theories of these objects.
\<close>

unbundle bit_operations_syntax

section \<open>Event flags\<close>

record lv2_event_flag =
  f_protocol :: u8
  f_key :: u64
  f_type :: u32
  f_name :: "u8 list"
  f_pattern :: u64
  f_sq :: "tid option"

definition event_flag_traits :: id_traits where
  "event_flag_traits = lv2_traits 0x98000000"

text \<open>The end of a creation: the new id is stored unless there was an error.\<close>

definition store_id :: "id_traits \<Rightarrow> addr \<Rightarrow> vmem \<Rightarrow> (error_code \<times> ptr id_map \<times> u32 \<times> 'b kern) option
    \<Rightarrow> (error_code \<times> vmem \<times> ptr id_map \<times> u32 \<times> 'b kern) option" where
  "store_id tr a mem r = (case r of
       None \<Rightarrow> None
     | Some (e, m, g, k) \<Rightarrow>
         if e \<noteq> 0 then Some (e, mem, m, g, k)
         else (case last_id tr g of None \<Rightarrow> None | Some i \<Rightarrow> Some (CELL_OK, st_be32 mem a i, m, g, k)))"

definition sys_event_flag_create :: "addr \<Rightarrow> addr \<Rightarrow> u64 \<Rightarrow> vmem \<times> ptr id_map \<times> u32 \<times> lv2_event_flag kern
    \<Rightarrow> (error_code \<times> vmem \<times> ptr id_map \<times> u32 \<times> lv2_event_flag kern) option" where
  "sys_event_flag_create i attr init = (\<lambda>(mem, m, g, k).
     if i = 0 \<or> attr = 0 then Some (CELL_EFAULT, mem, m, g, k)
     else
       (let prot = ld_be32 mem attr; pshared = ld_be32 mem (attr + 4); ipc_key = get_key pshared (ld_be64 mem (attr + 8));
            flags = ld_be32 mem (attr + 16); typ = ld_be32 mem (attr + 20) in
        if prot \<noteq> SYS_SYNC_FIFO \<and> prot \<noteq> SYS_SYNC_PRIORITY then Some (CELL_EINVAL, mem, m, g, k)
        else if typ \<noteq> SYS_SYNC_WAITER_SINGLE \<and> typ \<noteq> SYS_SYNC_WAITER_MULTIPLE then Some (CELL_EINVAL, mem, m, g, k)
        else store_id event_flag_traits i mem (lv2_create event_flag_traits pshared ipc_key flags True
          \<lparr>f_protocol = ucast prot, f_key = ipc_key, f_type = typ, f_name = vm_bytes mem (attr + 24) 8, f_pattern = init, f_sq = None\<rparr> (m, g, k))))"

definition sys_event_flag_destroy :: "u32 \<Rightarrow> ptr id_map \<times> lv2_event_flag kern \<Rightarrow> error_code \<times> ptr id_map \<times> lv2_event_flag kern" where
  "sys_event_flag_destroy i = lv2_destroy event_flag_traits (\<lambda>f. if f_sq f \<noteq> None then CELL_EBUSY else 0) i"

definition set_pattern :: "ptr \<Rightarrow> u64 \<Rightarrow> lv2_event_flag kern \<Rightarrow> lv2_event_flag kern" where
  "set_pattern p v k = k\<lparr>heap := (heap k)(p := (heap k p)\<lparr>body := (body (heap k p))\<lparr>f_pattern := v\<rparr>\<rparr>)\<rparr>"

text \<open>\<^verbatim>\<open>sys_event_store_result\<close> writes the result on every way out of the call.\<close>

definition store_result :: "addr \<Rightarrow> u64 \<Rightarrow> vmem \<Rightarrow> vmem" where
  "store_result a v mem = (if a \<noteq> 0 then st_be64 mem a v else mem)"

definition sys_event_flag_trywait :: "u32 \<Rightarrow> u64 \<Rightarrow> u32 \<Rightarrow> addr \<Rightarrow> vmem \<times> ptr id_map \<times> lv2_event_flag kern
    \<Rightarrow> error_code \<times> vmem \<times> lv2_event_flag kern" where
  "sys_event_flag_trywait i bitptn mode result = (\<lambda>(mem, m, k).
     if \<not> check_mode mode then (CELL_EINVAL, store_result result 0 mem, k)
     else (case idm_check event_flag_traits m i (\<lambda>p k. case check_pattern (f_pattern (body (heap k p))) bitptn (ucast mode) of
              (ok, pat, res) \<Rightarrow> ((ok, res), set_pattern p pat k)) k of
         (None, k) \<Rightarrow> (CELL_ESRCH, store_result result 0 mem, k)
       | (Some (p, ok, pat), k) \<Rightarrow>
           if \<not> ok then (CELL_EBUSY, store_result result 0 mem, k) else (CELL_OK, store_result result pat mem, k)))"

definition sys_event_flag_clear :: "u32 \<Rightarrow> u64 \<Rightarrow> ptr id_map \<times> lv2_event_flag kern \<Rightarrow> error_code \<times> lv2_event_flag kern" where
  "sys_event_flag_clear i bitptn = (\<lambda>(m, k).
     case idm_check event_flag_traits m i (\<lambda>p k. ((), set_pattern p (f_pattern (body (heap k p)) AND bitptn) k)) k of
       (None, k) \<Rightarrow> (CELL_ESRCH, k)
     | (Some r, k) \<Rightarrow> (CELL_OK, k))"

definition sys_event_flag_get :: "u32 \<Rightarrow> addr \<Rightarrow> vmem \<times> ptr id_map \<times> lv2_event_flag kern \<Rightarrow> error_code \<times> vmem" where
  "sys_event_flag_get i flags = (\<lambda>(mem, m, k).
     case idm_check event_flag_traits m i (\<lambda>p k. (f_pattern (body (heap k p)), k)) k of
       (None, k) \<Rightarrow> (CELL_ESRCH, store_result flags 0 mem)
     | (Some (p, pat), k) \<Rightarrow> if flags = 0 then (CELL_EFAULT, mem) else (CELL_OK, st_be64 mem flags pat))"

section \<open>Mutexes\<close>

record lv2_mutex =
  m_protocol :: u8
  m_recursive :: u32
  m_adaptive :: u32
  m_key :: u64
  m_name :: "u8 list"
  m_cond_count :: u32
  m_owner :: u32

definition mutex_traits :: id_traits where
  "mutex_traits = lv2_traits 0x85000000"

definition sys_mutex_create :: "addr \<Rightarrow> addr \<Rightarrow> vmem \<times> ptr id_map \<times> u32 \<times> lv2_mutex kern
    \<Rightarrow> (error_code \<times> vmem \<times> ptr id_map \<times> u32 \<times> lv2_mutex kern) option" where
  "sys_mutex_create mutex_id attr = (\<lambda>(mem, m, g, k).
     if mutex_id = 0 \<or> attr = 0 then Some (CELL_EFAULT, mem, m, g, k)
     else
       (let prot = ld_be32 mem attr; recur = ld_be32 mem (attr + 4); pshared = ld_be32 mem (attr + 8); adapt = ld_be32 mem (attr + 12);
            ipc_key = get_key pshared (ld_be64 mem (attr + 16)); flags = ld_be32 mem (attr + 24) in
        if prot \<notin> {SYS_SYNC_FIFO, SYS_SYNC_PRIORITY, SYS_SYNC_PRIORITY_INHERIT} then Some (CELL_EINVAL, mem, m, g, k)
        else if recur \<notin> {SYS_SYNC_RECURSIVE, SYS_SYNC_NOT_RECURSIVE} then Some (CELL_EINVAL, mem, m, g, k)
        else store_id mutex_traits mutex_id mem (lv2_create mutex_traits pshared ipc_key flags True
          \<lparr>m_protocol = ucast prot, m_recursive = recur, m_adaptive = adapt, m_key = ipc_key, m_name = vm_bytes mem (attr + 32) 8,
           m_cond_count = 0, m_owner = 0\<rparr> (m, g, k))))"

definition sys_mutex_destroy :: "u32 \<Rightarrow> ptr id_map \<times> lv2_mutex kern \<Rightarrow> error_code \<times> ptr id_map \<times> lv2_mutex kern" where
  "sys_mutex_destroy mutex_id = lv2_destroy mutex_traits
     (\<lambda>mx. if m_owner mx \<noteq> 0 then CELL_EBUSY else if m_cond_count mx \<noteq> 0 then CELL_EPERM else 0) mutex_id"

section \<open>Reader/writer locks\<close>

record lv2_rwlock =
  w_protocol :: u8
  w_key :: u64
  w_name :: "u8 list"
  w_owner :: u64

definition rwlock_traits :: id_traits where
  "rwlock_traits = lv2_traits 0x88000000"

definition sys_rwlock_create :: "addr \<Rightarrow> addr \<Rightarrow> vmem \<times> ptr id_map \<times> u32 \<times> lv2_rwlock kern
    \<Rightarrow> (error_code \<times> vmem \<times> ptr id_map \<times> u32 \<times> lv2_rwlock kern) option" where
  "sys_rwlock_create rw_lock_id attr = (\<lambda>(mem, m, g, k).
     if rw_lock_id = 0 \<or> attr = 0 then Some (CELL_EFAULT, mem, m, g, k)
     else
       (let prot = ld_be32 mem attr; pshared = ld_be32 mem (attr + 4); ipc_key = get_key pshared (ld_be64 mem (attr + 8));
            flags = ld_be32 mem (attr + 16) in
        if prot \<noteq> SYS_SYNC_FIFO \<and> prot \<noteq> SYS_SYNC_PRIORITY then Some (CELL_EINVAL, mem, m, g, k)
        else store_id rwlock_traits rw_lock_id mem (lv2_create rwlock_traits pshared ipc_key flags True
          \<lparr>w_protocol = ucast prot, w_key = ipc_key, w_name = vm_bytes mem (attr + 24) 8, w_owner = 0\<rparr> (m, g, k))))"

definition sys_rwlock_destroy :: "u32 \<Rightarrow> ptr id_map \<times> lv2_rwlock kern \<Rightarrow> error_code \<times> ptr id_map \<times> lv2_rwlock kern" where
  "sys_rwlock_destroy rw_lock_id = lv2_destroy rwlock_traits (\<lambda>w. if w_owner w \<noteq> 0 then CELL_EBUSY else 0) rw_lock_id"

section \<open>Create, then use\<close>

lemma store_id_ok:
  "store_id tr a mem r = Some (CELL_OK, mem', m', g', k') \<Longrightarrow> r = Some (0, m', g', k') \<and> mem' = st_be32 mem a g'"
  by (auto simp: store_id_def last_id_def error_codes split: option.splits prod.splits if_splits)

lemma traits_base: "id_base event_flag_traits \<noteq> 0" "id_base mutex_traits \<noteq> 0" "id_base rwlock_traits \<noteq> 0"
  by (simp_all add: event_flag_traits_def mutex_traits_def rwlock_traits_def lv2_traits_def)

lemma created_event_flag:
  assumes wf: "idm_wf trs n m" and tr: "event_flag_traits \<in> trs"
    and c: "sys_event_flag_create i attr init (mem, m, g, k) = Some (CELL_OK, mem', m', g', k')"
    and new: "ld_be32 mem (attr + 4) \<noteq> SYS_SYNC_PROCESS_SHARED \<or> ld_be32 mem (attr + 16) = SYS_SYNC_NEWLY_CREATED"
  shows "\<exists>j q. find_id event_flag_traits m' (ld_be32 mem' i) = Some (j, q) \<and> f_pattern (body (heap k' q)) = init \<and> idm_wf trs n m'"
proof -
  define b where "b = \<lparr>f_protocol = ucast (ld_be32 mem attr), f_key = get_key (ld_be32 mem (attr + 4)) (ld_be64 mem (attr + 8)),
     f_type = ld_be32 mem (attr + 20), f_name = vm_bytes mem (attr + 24) 8, f_pattern = init, f_sq = None\<rparr>"
  have "store_id event_flag_traits i mem (lv2_create event_flag_traits (ld_be32 mem (attr + 4)) (f_key b) (ld_be32 mem (attr + 16)) True b (m, g, k))
      = Some (CELL_OK, mem', m', g', k')"
    using c by (auto simp: sys_event_flag_create_def b_def Let_def error_codes split: if_splits)
  from store_id_ok [OF this] have l: "lv2_create event_flag_traits (ld_be32 mem (attr + 4)) (f_key b) (ld_be32 mem (attr + 16)) True b (m, g, k)
      = Some (0, m', g', k')" and mem': "mem' = st_be32 mem i g'" by simp_all
  show ?thesis using lv2_create_found [OF wf tr traits_base(1) l new] by (auto simp: mem' cell_be32.ld_st b_def)
qed

text \<open>
  C25: an event flag created in guest memory for one process, or newly for several, has the initial pattern: after a call that clears
  all bits outside a mask, both addressed by the id the creation stored, the guest reads the initial bits inside the mask.
\<close>

theorem event_flag_create_clear_get:
  assumes wf: "idm_wf trs n m" and tr: "event_flag_traits \<in> trs" and flags: "flags \<noteq> 0"
    and c: "sys_event_flag_create i attr init (mem, m, g, k) = Some (CELL_OK, mem', m', g', k')"
    and new: "ld_be32 mem (attr + 4) \<noteq> SYS_SYNC_PROCESS_SHARED \<or> ld_be32 mem (attr + 16) = SYS_SYNC_NEWLY_CREATED"
  shows "\<exists>k'' mem''. sys_event_flag_clear (ld_be32 mem' i) bits (m', k') = (CELL_OK, k'')
    \<and> sys_event_flag_get (ld_be32 mem' i) flags (mem', m', k'') = (CELL_OK, mem'') \<and> ld_be64 mem'' flags = init AND bits"
proof -
  obtain j q where f: "find_id event_flag_traits m' (ld_be32 mem' i) = Some (j, q)" "f_pattern (body (heap k' q)) = init"
    and wf': "idm_wf trs n m'" using created_event_flag [OF wf tr c new] by blast
  have "sys_event_flag_clear (ld_be32 mem' i) bits (m', k') = (CELL_OK, set_pattern q (init AND bits) k')"
    by (simp add: sys_event_flag_clear_def remove_cases(3) [OF wf' tr] f)
  moreover have "sys_event_flag_get (ld_be32 mem' i) flags (mem', m', set_pattern q (init AND bits) k') = (CELL_OK, st_be64 mem' flags (init AND bits))"
    using flags by (simp add: sys_event_flag_get_def remove_cases(3) [OF wf' tr] f set_pattern_def)
  ultimately show ?thesis by (simp add: cell_be64.ld_st)
qed

text \<open>A flag of type multiple with the FIFO protocol, for one process.\<close>

definition flag_attr_mem :: vmem where
  "flag_attr_mem a = (if a = 0x103 then 1 else if a = 0x106 then 2 else if a = 0x115 then 2 else 0)"

lemma flag_attr_mem: "ld_be32 flag_attr_mem 0x100 = 1" "ld_be32 flag_attr_mem 0x104 = 0x200" "ld_be32 flag_attr_mem 0x110 = 0"
  "ld_be32 flag_attr_mem 0x114 = 0x20000" "ld_be64 flag_attr_mem 0x108 = 0"
  by (simp_all add: ld_be64_def ld_be32_def ld_be16_def ld_u8_def flag_attr_mem_def word_cat_eq push_bit_eq_mult)

definition no_flags :: "lv2_event_flag kern" where
  "no_flags = \<lparr>heap = \<lambda>_. \<lparr>exists = 0, otype = 0, okey = 0, body = \<lparr>f_protocol = 0, f_key = 0, f_type = 0, f_name = [], f_pattern = 0, f_sq = None\<rparr>\<rparr>,
     next_obj = 0, m_map = \<lambda>_. None, err = 0\<rparr>"

definition one_flag_map :: "ptr id_map" where
  "one_flag_map = \<lparr>vec_data = (replicate 8192 None)[0 := Some 0],
      vec_keys = (replicate 8192 empty_key)[0 := \<lparr>kvalue = 0x98000000, ktype = 0x98000000\<rparr>], highest_index = 1\<rparr>"

definition one_flag :: "lv2_event_flag kern" where
  "one_flag = no_flags\<lparr>heap := (heap no_flags)(0 := \<lparr>exists = 1, otype = 0x98000000, okey = 0,
     body = \<lparr>f_protocol = 1, f_key = 0, f_type = 0x20000, f_name = vm_bytes flag_attr_mem 0x118 8, f_pattern = 7, f_sq = None\<rparr>\<rparr>), next_obj := 1\<rparr>"

lemma one_flag_create: "sys_event_flag_create 0x200 0x100 7 (flag_attr_mem, new_id_map 8192, 0, no_flags)
    = Some (CELL_OK, st_be32 flag_attr_mem 0x200 0x98000000, one_flag_map, 0x98000000, one_flag)"
  by (simp add: sys_event_flag_create_def flag_attr_mem event_flag_traits_def shared_simps new_id_map_def no_flags_def one_flag_def
      one_flag_map_def last_id_def trait_index_def get_index_def invl_mask_def push_bit_eq_mult SYS_SYNC_FIFO_def SYS_SYNC_PRIORITY_def
      SYS_SYNC_WAITER_SINGLE_def SYS_SYNC_WAITER_MULTIPLE_def store_id_def error_codes)

lemma flag_traits_ok: "traits_set_ok {event_flag_traits} 8192"
  unfolding event_flag_traits_def by (auto simp: traits_set_ok_def intro!: lv2_traits_ok)

theorem event_flag_create_clear_get_witness:
  "\<exists>k'' mem''. sys_event_flag_clear (ld_be32 (st_be32 flag_attr_mem 0x200 0x98000000) 0x200) 5 (one_flag_map, one_flag) = (CELL_OK, k'')
    \<and> sys_event_flag_get (ld_be32 (st_be32 flag_attr_mem 0x200 0x98000000) 0x200) 0x300 (st_be32 flag_attr_mem 0x200 0x98000000, one_flag_map, k'')
      = (CELL_OK, mem'') \<and> ld_be64 mem'' 0x300 = 7 AND 5"
proof (rule event_flag_create_clear_get [OF new_lookup(1) [OF flag_traits_ok] _ _ one_flag_create])
  show "ld_be32 flag_attr_mem (0x100 + 4) \<noteq> SYS_SYNC_PROCESS_SHARED \<or> ld_be32 flag_attr_mem (0x100 + 16) = SYS_SYNC_NEWLY_CREATED"
    by (simp add: flag_attr_mem SYS_SYNC_PROCESS_SHARED_def)
qed simp_all

end
