(* ===== verification/Spec2Isabelle.thy ===== *)
theory Spec2Isabelle
  imports Sync_Mutex Sync_Barrier Sync_Rwm Sync_Queue Sync_LFQueue Rtc_Format Lv2_Event_Sys Lv2_Event_Queue Lv2_Cond Lv2_Object_Calls
begin

text \<open>
  \<^bold>\<open>A verification of the cellSync and cellRtc libraries and of kernel objects of the emulator\<close>

  The program under \<^verbatim>\<open>src/rpcs3\<close> runs PlayStation 3 executables. Guest code calls system
  libraries that the emulator implements itself in C++ (high-level emulation). This development models two
  of them completely: \<^verbatim>\<open>cellSync\<close>, the synchronisation objects that guest threads share through guest
  memory, and \<^verbatim>\<open>cellRtc\<close>, the real-time clock with its calendar, time zones and text formats. Below
  them, the emulated kernel (\<^verbatim>\<open>lv2\<close>) keeps objects on which guest threads sleep; the manager of these objects, their
  creation and sharing, their waiting queues, the semaphore, the mutex, the reader/writer lock and the event flag are modelled.

  \<^bold>\<open>Guest memory\<close> (theory \<open>Prelude\<close>; \<^verbatim>\<open>rpcs3/Emu/Memory/vm_ptr.h\<close>, \<^verbatim>\<open>vm.h\<close>, \<^verbatim>\<open>rpcs3/util/atomic.hpp\<close>).
  The memory of a guest process is a total function from 32-bit addresses to bytes. Big-endian cells of 8 to 64
  bits are loads and stores on it, and every structure of the libraries is a cell type that
  satisfies the locale \<open>vm_cell\<close>: a load after a store returns the value, and a store changes
  only its own bytes. \<open>atomic_op\<close> is one indivisible update of a cell; \<open>atomic_op_retry\<close> is the
  compare-exchange loop of \<^verbatim>\<open>atomic_t::atomic_op\<close> and is shown to be linearisable. A call ends with a value of
  type \<open>api\<close>: a return code, a C++ exception, or still blocked. Spin loops take the list of what the other
  threads do between two attempts, so that the claims that a call returns say after which events it does.
  The locales \<open>invariant_system\<close> and \<open>forward_simulation\<close> carry the reachability arguments.

  \<^bold>\<open>cellSync\<close> (\<^verbatim>\<open>rpcs3/Emu/Cell/Modules/cellSync.h\<close>, \<^verbatim>\<open>cellSync.cpp\<close>).
  \<^item> \<open>Sync_Base\<close>: the error codes and their printed names.
  \<^item> \<open>Sync_Mutex\<close>: the ticket mutex. Any number of threads up to 65536 refines a first-come-first-served
    lock through the wrap-around of the 16-bit tickets; a lock call returns exactly when its turn comes.
  \<^item> \<open>Sync_Barrier\<close>: rounds of notifications and waits; nobody passes before everyone has arrived.
  \<^item> \<open>Sync_Rwm\<close>: reader/writer memory. Writers are exclusive, and a read copied byte by byte
    returns the last completed write.
  \<^item> \<open>Sync_Queue\<close>: the bounded queue. Every interleaving is linearisable to a FIFO queue of
    bounded length; concurrent push and pop use different slots.
  \<^item> \<open>Sync_LFQueue\<close>: the queue shared with the SPUs: initialisation, reservation of entries, the
    16-entry completion window, and publication of the longest finished run. The claims on a push hold for depths up to
    \<open>0x4000\<close>; above that, an index from \<open>0x8000\<close> on is read as negative and addresses memory in front of the buffer.

  \<^bold>\<open>cellRtc\<close> (\<^verbatim>\<open>rpcs3/Emu/Cell/Modules/cellRtc.h\<close>, \<^verbatim>\<open>cellRtc.cpp\<close>).
  \<^item> \<open>Rtc_Calendar\<close>: a tick counts microseconds since 0001-01-01. The specification is the number of days before
    a year (\<open>days_before\<close>, by recursion on years) and before a month; \<open>tick_to_date_time\<close> and
    \<open>date_time_to_tick\<close> are inverse to each other, the order of ticks is that of dates, and the day of the
    week is right for every date of a year below \<open>2 ^ 30\<close>, where its 32-bit sum does not wrap.
  \<^item> \<open>Rtc_Ops\<close>: the operations on ticks in guest memory. The locale \<open>tick_adder\<close> is the contract of the seven
    additive operations, \<open>rtc_epoch\<close> that of the clocks with another epoch; both are interpreted on the
    library's own operations.
  \<^item> \<open>Rtc_Format\<close>: RFC 2822 and RFC 3339 printing, and the parsers of RFC 2822, RFC 3339 and asctime strings;
    printing a tick and parsing the text again gives the tick cut to the printed precision, up to the zone error of the RFC 2822 parser.

  \<^bold>\<open>Kernel objects\<close> (\<^verbatim>\<open>rpcs3/Emu/IdManager.h\<close>, \<^verbatim>\<open>IdManager.cpp\<close>, \<^verbatim>\<open>rpcs3/Emu/Cell/lv2\<close>).
  \<^item> \<open>Idm\<close>: the object manager. A container of slots with reused ids refines a table from types and ids to
    objects of that type; a failed creation resets the counter that tells old ids from new.
  \<^item> \<open>Lv2_Obj\<close>: creation and destruction of kernel objects (\<^verbatim>\<open>sys_sync.h\<close>) and the registry of shared ones (\<^verbatim>\<open>rpcs3/Emu/IPC.h\<close>). In
    every sequence of calls an object counts its ids, and a key names at most one object, as long as ids refer to it. The hook
    \<open>on_id_create\<close> is the one of the base class, which semaphores, mutexes, reader/writer locks and event flags inherit.
  \<^item> \<open>Lv2_Queue\<close>: the linked lists of waiting threads (\<^verbatim>\<open>sys_sync.h\<close>), as a store of threads with next pointers. On every
    list the loops end; scheduling picks the longest waiting thread of the best priority.
  \<^item> \<open>Lv2_Sema\<close>: the semaphore (\<^verbatim>\<open>sys_semaphore.cpp\<close>), cut at every access to shared data. In every interleaving the
    units are conserved, and no wakeup is lost.
  \<^item> \<open>Lv2_Calls\<close>: the non-blocking system calls on semaphores over guest memory, ids and objects together; a created
    semaphore is found under the id stored for the guest.
  \<^item> \<open>Lv2_Mutex\<close>: the mutex (\<^verbatim>\<open>sys_mutex.h\<close>, \<^verbatim>\<open>sys_mutex.cpp\<close>), cut at every access to its control word. In every interleaving at most one
    thread holds it, it is never free while threads wait, and an unlock hands it to a waiting thread.
  \<^item> \<open>Lv2_Cond\<close>: the condition variable (\<^verbatim>\<open>sys_cond.cpp\<close>), its signals and waits over the mutex. Signalling all threads makes at most one of them
    the owner of the mutex and queues the others for it; a wait that must be repeated loses the recursion count.
  \<^item> \<open>Lv2_Event_Queue\<close>: the event queue of PPU threads (\<^verbatim>\<open>sys_event.cpp\<close>), one step per call. In every sequence of calls no event is
    lost, doubled or overtaken, and a thread sleeps only while there is none.
  \<^item> \<open>Lv2_Object_Calls\<close>: the non-blocking system calls on event flags, mutexes and reader/writer locks over guest memory, ids and objects; a
    created event flag is found under the id stored for the guest, with its bits.
  \<^item> \<open>Lv2_Rwlock\<close>: the reader/writer lock (\<^verbatim>\<open>sys_rwlock.h\<close>, \<^verbatim>\<open>sys_rwlock.cpp\<close>), with two queues over the same threads. In every interleaving
    a writer excludes readers and other writers, and nobody sleeps without a reason; a timed wait for writing can hang on a stopped reader.
  \<^item> \<open>Lv2_Event_Flag\<close>, \<open>Lv2_Event_Sys\<close>: the event flag (\<^verbatim>\<open>sys_event_flag.h\<close>, \<^verbatim>\<open>sys_event_flag.cpp\<close>). The first theory has the steps of the
    calls and shows that serving the waiters on a copy of the pattern equals the waiters looking at it in turn (\<open>grant\<close>). In every
    interleaving no wakeup is lost, and a set whose first decision is written back is atomic; a repeated decision can wake a thread wrongly.

  \<^bold>\<open>Parameters.\<close> Code outside the modelled parts enters as arguments: whether a page is mapped
  (\<^verbatim>\<open>sys_memory_get_page_attribute\<close>), the host clock, time zone and secure clock (record \<open>rtc_host\<close>), the SDK
  version and the event ports of the SPU queue, and what other threads do to memory between two
  steps. A guest stack variable that the code reads without having written it is zero, as its allocator leaves it.

  \<^bold>\<open>Bounds and loops.\<close> Integers keep their width wherever the code can overflow: tickets, counters, ticks and
  years wrap as in C++. Spin loops are finite lists of attempts; a loop that has used up its list is
  \<open>Blocked\<close>. The loops of the date parsers are \<^theory_text>\<open>partial_function (option)\<close>, and they are shown to end on
  every memory with a zero byte. The loops over waiting queues are partial functions too, shown to end on every
  list without a cycle, which the invariants of the objects provide. The number of threads of the mutex is bounded by its \<open>2 ^ 16\<close>
  tickets, that of the semaphore by its 32-bit value; the control word of the reader/writer lock is a 64-bit word, and its claims
  are about runs in which at most \<open>2 ^ 62\<close> read locks are held at a time, so that the count in it does not wrap; the order of waiting threads is kept for \<open>2 ^ 49\<close> entries.

  \<^bold>\<open>Not modelled.\<close> The PPU and SPU processors (interpreters over host vector types, recompilers that emit LLVM
  or machine code), the graphics, audio, input and network layers, the file system and loaders, the mapping of
  guest pages to host memory, the thread scheduler, event ports and the lightweight and remaining objects of the kernel, the other system libraries, savestates, and
  the Android application: they are bound to
  host services, to generated code or to hardware drivers.
\<close>

end
